(* ===== verification/Prelude.thy ===== *)
theory Prelude
  imports Main "HOL-Library.Word"
begin

text \<open>
  Shared vocabulary of the development: the machine integers of the Rust sources, the faults an
  execution can end in, the result type every fallible operation returns, the raw-pointer
  dereference, the weak compare-exchange of \<open>portable_atomic\<close>, and the generic lemmas the
  component theories use.  Faults are values, so every panic, every undefined dereference and
  every loop that never ends is a branch of the model and not an unspecified HOL value.
\<close>

unbundle bit_operations_syntax

section \<open>Types\<close>

type_synonym u8 = "8 word"
type_synonym u32 = "32 word"
type_synonym u64 = "64 word"
type_synonym u128 = "128 word"
type_synonym usize = "64 word"

text \<open>Heap objects of the model are named by natural numbers; 0 is the null pointer.\<close>

type_synonym ptr = nat

text \<open>
  The ways an execution can go wrong: a null or dangling dereference, an index or division panic, a failed
  \<open>expect\<close>, an arithmetic overflow panic (debug builds), \<open>unimplemented!()\<close>, a failed allocation, spinning
  for ever on a lock, reading an object at the wrong type, hanging on purpose, and running out of
  the fuel that bounds a loop of the model.
\<close>

datatype fault =
    NullDeref
  | UseAfterFree
  | IndexOutOfBounds
  | DivByZero
  | ExpectFailed
  | ArithOverflow
  | Unimplemented
  | AllocFailure
  | LockHeld
  | TypeConfusion
  | Hang
  | OutOfFuel

type_synonym 'a res = "fault + 'a"

section \<open>Proof collections\<close>

named_theorems res_simps \<open>evaluation of results and their sequencing\<close>
named_theorems step_defs \<open>definitions unfolded to run an operation\<close>

section \<open>Sequencing of fallible operations\<close>

definition rbind :: "'a res \<Rightarrow> ('a \<Rightarrow> 'b res) \<Rightarrow> 'b res" where
  "rbind m f = (case m of Inl e \<Rightarrow> Inl e | Inr x \<Rightarrow> f x)"

lemma rbind_Inr [simp, res_simps]: "rbind (Inr x) f = f x"
  by (simp add: rbind_def)

lemma rbind_Inl [simp, res_simps]: "rbind (Inl e) f = Inl e"
  by (simp add: rbind_def)

lemma rbind_eq_Inr: "rbind m f = Inr y \<longleftrightarrow> (\<exists>x. m = Inr x \<and> f x = Inr y)"
  by (cases m) auto

lemma rbind_assoc: "rbind (rbind m f) g = rbind m (\<lambda>x. rbind (f x) g)"
  by (cases m) auto

lemma rbind_cong [fundef_cong]:
  "m = m' \<Longrightarrow> (\<And>x. m' = Inr x \<Longrightarrow> f x = g x) \<Longrightarrow> rbind m f = rbind m' g"
  by (cases m') auto

lemma rbind_split:
  "P (rbind m f) \<longleftrightarrow> (\<forall>e. m = Inl e \<longrightarrow> P (Inl e)) \<and> (\<forall>x. m = Inr x \<longrightarrow> P (f x))"
  by (cases m) auto

section \<open>Raw pointers and weak compare-exchange\<close>

definition deref :: "(ptr \<rightharpoonup> 'n) \<Rightarrow> ptr \<Rightarrow> 'n res" where
  "deref h p = (if p = 0 then Inl NullDeref
     else case h p of None \<Rightarrow> Inl UseAfterFree | Some n \<Rightarrow> Inr n)"

lemma deref_Some [simp, res_simps]: "p \<noteq> 0 \<Longrightarrow> h p = Some n \<Longrightarrow> deref h p = Inr n"
  by (simp add: deref_def)

lemma deref_eq_Inr: "deref h p = Inr n \<longleftrightarrow> p \<noteq> 0 \<and> h p = Some n"
  by (auto simp: deref_def split: option.splits)

text \<open>
  A weak compare-exchange may fail although the cell holds the expected value.  The outcomes of
  the coming exchanges are a list: \<open>True\<close> is a spurious failure, and an exhausted list stands
  for exchanges that fail only on a mismatch.  The result is whether the exchange took place, the
  new content of the cell and the remaining outcomes.
\<close>

definition compare_exchange_weak ::
  "'v \<Rightarrow> 'v \<Rightarrow> 'v \<Rightarrow> bool list \<Rightarrow> bool \<times> 'v \<times> bool list" where
  "compare_exchange_weak cell expected new w =
     (if w \<noteq> [] \<and> hd w then (False, cell, tl w)
      else if cell = expected then (True, new, tl w)
      else (False, cell, tl w))"

lemma compare_exchange_weak_same:
  "compare_exchange_weak c c new w =
     (if w \<noteq> [] \<and> hd w then (False, c, tl w) else (True, new, tl w))"
  by (simp add: compare_exchange_weak_def)

section \<open>Spin locks\<close>

text \<open>
  \<open>spin::Mutex\<close>: the protected value and whether some guard is alive.  \<open>lock\<close> on a held lock
  spins; on one CPU with interrupts masked nobody can release it, so that is the fault
  \<open>LockHeld\<close>.  \<open>try_lock\<close> gives up instead.
\<close>

record 'a spin_mutex =
  m_locked :: bool
  m_value :: 'a

definition mutex_new :: "'a \<Rightarrow> 'a spin_mutex" where
  "mutex_new v = \<lparr>m_locked = False, m_value = v\<rparr>"

definition mutex_lock :: "'a spin_mutex \<Rightarrow> ('a \<times> 'a spin_mutex) res" where
  "mutex_lock m = (if m_locked m then Inl LockHeld else Inr (m_value m, m\<lparr>m_locked := True\<rparr>))"

definition mutex_try_lock :: "'a spin_mutex \<Rightarrow> ('a \<times> 'a spin_mutex) option" where
  "mutex_try_lock m = (if m_locked m then None else Some (m_value m, m\<lparr>m_locked := True\<rparr>))"

text \<open>Dropping the guard after storing \<open>v\<close> through it.\<close>

definition mutex_unlock :: "'a \<Rightarrow> 'a spin_mutex \<Rightarrow> 'a spin_mutex" where
  "mutex_unlock v m = m\<lparr>m_locked := False, m_value := v\<rparr>"

lemmas mutex_defs = mutex_new_def mutex_lock_def mutex_try_lock_def mutex_unlock_def

lemma mutex_unlock_new: "mutex_unlock v m = mutex_new v"
  by (cases m) (simp add: mutex_new_def mutex_unlock_def)

lemma mutex_new_value: "\<not> m_locked m \<Longrightarrow> mutex_new (m_value m) = m"
  by (cases m) (simp add: mutex_new_def)

lemma mutex_new_sel [simp]: "m_locked (mutex_new v) = False" "m_value (mutex_new v) = v"
  by (simp_all add: mutex_new_def)

section \<open>Regions of memory\<close>

definition region :: "u64 \<Rightarrow> usize \<Rightarrow> nat set" where
  "region p n = {unat p ..< unat p + unat n}"

text \<open>Memory as 64-bit cells, by the 8-byte aligned address of the cell.\<close>

type_synonym dmem = "u64 \<Rightarrow> u64"

section \<open>Arithmetic on machine integers\<close>

text \<open>
  Rust's \<open>+\<close>, \<open>-\<close> and \<open>*\<close> panic on overflow in builds with overflow checks (the dev
  profile) and wrap in builds without (the release profile); the first argument says which.
  Division by zero panics in both.
\<close>

definition add_u :: "bool \<Rightarrow> 'a::len word \<Rightarrow> 'a word \<Rightarrow> 'a word res" where
  "add_u checks a b =
     (if checks \<and> 2 ^ LENGTH('a) \<le> unat a + unat b then Inl ArithOverflow else Inr (a + b))"

definition sub_u :: "bool \<Rightarrow> 'a::len word \<Rightarrow> 'a word \<Rightarrow> 'a word res" where
  "sub_u checks a b = (if checks \<and> a < b then Inl ArithOverflow else Inr (a - b))"

definition mul_u :: "bool \<Rightarrow> 'a::len word \<Rightarrow> 'a word \<Rightarrow> 'a word res" where
  "mul_u checks a b =
     (if checks \<and> 2 ^ LENGTH('a) \<le> unat a * unat b then Inl ArithOverflow else Inr (a * b))"

definition div_u :: "'a::len word \<Rightarrow> 'a word \<Rightarrow> 'a word res" where
  "div_u a b = (if b = 0 then Inl DivByZero else Inr (a div b))"

definition saturating_sub :: "'a::len word \<Rightarrow> 'a word \<Rightarrow> 'a word" where
  "saturating_sub a b = (if a < b then 0 else a - b)"

lemma unat_saturating_sub: "unat (saturating_sub a b) = unat a - unat b"
  by (auto simp: saturating_sub_def unat_sub word_less_nat_alt word_le_nat_alt not_less)

lemma saturating_sub_mono: "a \<le> a' \<Longrightarrow> saturating_sub a b \<le> saturating_sub a' b"
  by (simp add: word_le_nat_alt unat_saturating_sub)

lemma mul_u_fits:
  fixes a b :: "'a::len word"
  assumes "unat a * unat b < 2 ^ LENGTH('a)"
  shows "mul_u checks a b = Inr (a * b)" and "unat (a * b) = unat a * unat b"
  using assms by (simp_all add: mul_u_def unat_mult_lem [THEN iffD1])

lemma div_u_nonzero [simp]: "b \<noteq> 0 \<Longrightarrow> div_u a b = Inr (a div b)"
  by (simp add: div_u_def)

section \<open>Generic lemmas\<close>

lemma word_eq_of_nat: "unat w = n \<Longrightarrow> w = of_nat n"
  by auto

lemma ucast_u8_u32_u8 [simp]: "ucast (ucast p :: u32) = (p :: u8)"
  by (rule bit_word_eqI) (auto simp: bit_simps)

lemma unat_ucast_up:
  "LENGTH('a::len) \<le> LENGTH('b::len) \<Longrightarrow> unat (ucast (x :: 'a word) :: 'b word) = unat x"
  by transfer (simp add: min_absorb2)

lemma unat_of_nat_fits: "n < 2 ^ LENGTH('a::len) \<Longrightarrow> unat (of_nat n :: 'a word) = n"
  by (simp add: unat_of_nat)

section \<open>Alignment arithmetic\<close>

lemma align_down:
  fixes x :: "64 word"
  shows "unat (x AND NOT (mask k)) = unat x - unat x mod 2 ^ k"
proof -
  have "x AND NOT (mask k) = x - (x AND mask k)"
    by (metis (no_types, lifting) and.commute and.right_idem bit.conj_cancel_left
        bit.conj_xor_distrib2 bit.xor_compl_right diff_0_right disjunctive_and_not_eq_xor
        disjunctive_diff_eq_and_not mask_0 mask_1 word_and_not word_bw_lcs(1) word_not_not)
  moreover have "x AND mask k \<le> x" by (rule word_and_le2)
  moreover have "unat (x AND mask k) = unat x mod 2 ^ k"
    unfolding take_bit_eq_mask [symmetric] unsigned_take_bit_eq by (simp add: take_bit_eq_mod)
  ultimately show ?thesis by (simp add: unat_sub)
qed

lemma align_up:
  fixes x :: "64 word"
  assumes "k < 64" "unat x + 2 ^ k < 2 ^ 64"
  shows "unat x \<le> unat ((x + 2 ^ k - 1) AND NOT (2 ^ k - 1))"
    and "unat ((x + 2 ^ k - 1) AND NOT (2 ^ k - 1)) < unat x + 2 ^ k"
    and "2 ^ k dvd unat ((x + 2 ^ k - 1) AND NOT (2 ^ k - 1))"
proof -
  have p: "unat (2 ^ k :: 64 word) = 2 ^ k" using assms(1) by transfer simp
  have "unat (x + 2 ^ k - 1) = unat x + 2 ^ k - 1"
  proof -
    have s: "unat (x + 2 ^ k) = unat x + 2 ^ k"
      using assms(2) p by (simp add: unat_word_ariths(1))
    then have "1 \<le> x + 2 ^ k" by (simp add: word_le_nat_alt Suc_le_eq)
    then show ?thesis using s by (simp add: unat_sub)
  qed
  moreover have "(2 ^ k - 1 :: 64 word) = mask k" by (simp add: mask_eq_decr_exp)
  ultimately have u: "unat ((x + 2 ^ k - 1) AND NOT (2 ^ k - 1)) =
      unat x + 2 ^ k - 1 - (unat x + 2 ^ k - 1) mod 2 ^ k"
    by (simp add: align_down)
  show "2 ^ k dvd unat ((x + 2 ^ k - 1) AND NOT (2 ^ k - 1))"
    unfolding u by (rule dvd_minus_mod)
  have m: "(unat x + 2 ^ k - 1) mod 2 ^ k < (2::nat) ^ k" by simp
  have le: "(unat x + 2 ^ k - 1) mod 2 ^ k \<le> unat x + 2 ^ k - 1" by (rule mod_less_eq_dividend)
  show "unat x \<le> unat ((x + 2 ^ k - 1) AND NOT (2 ^ k - 1))"
    "unat ((x + 2 ^ k - 1) AND NOT (2 ^ k - 1)) < unat x + 2 ^ k"
    unfolding u using m le by linarith+
qed

end
