(* ===== verification/Lock_Free_Queue.thy ===== *)
theory Lock_Free_Queue
  imports Prelude
begin

text \<open>
  The Michael--Scott style queue of \<open>sched/rr.rs\<close> (\<open>LockFreeQueue\<close>, \<open>QueueNode\<close>),
  as one CPU executes it.  The nodes are heap objects reached through the atomic pointers
  \<open>head\<close> and \<open>tail\<close>; a queue owns its nodes, so each queue carries its own node store.
  Every weak compare-exchange may fail spuriously, as the load/store-exclusive pair of the
  Cortex-A53 does; the outcomes come from the list \<open>q_weak\<close>, over which all theorems
  quantify.  The loops of \<open>push\<close> and \<open>try_pop\<close> carry fuel, and the theorems show that the
  fuel the operations start with is enough.

  The interface \<open>fifo_queue\<close> is what the schedulers rely on; the last section interprets it
  with the queue of this theory.
\<close>

section \<open>Nodes and queues\<close>

record 'a queue_node =
  n_thread :: "'a option"
  n_next :: ptr

record 'a lock_free_queue =
  q_head :: ptr
  q_tail :: ptr
  q_nodes :: "ptr \<rightharpoonup> 'a queue_node"
  q_brk :: ptr
  q_weak :: "bool list"

text \<open>\<open>LockFreeQueue::new\<close>: one dummy node, at which head and tail both point.\<close>

definition new_queue :: "bool list \<Rightarrow> 'a lock_free_queue" where
  "new_queue w =
     (let dummy = 1
      in \<lparr>q_head = dummy, q_tail = dummy,
          q_nodes = [dummy \<mapsto> \<lparr>n_thread = None, n_next = 0\<rparr>],
          q_brk = dummy + 1, q_weak = w\<rparr>)"

text \<open>The retry loop of \<open>push\<close>, which links the new node behind the last one.\<close>

primrec push_loop :: "nat \<Rightarrow> ptr \<Rightarrow> 'a lock_free_queue \<Rightarrow> 'a lock_free_queue res" where
  "push_loop 0 new_node q = Inl OutOfFuel"
| "push_loop (Suc fuel) new_node q =
     (let tail = q_tail q
      in rbind (deref (q_nodes q) tail) (\<lambda>tn.
        let next = n_next tn
        in if tail = q_tail q then
             (if next = 0 then
                (let (ok, v, w) = compare_exchange_weak next 0 new_node (q_weak q);
                     q' = q\<lparr>q_nodes := (q_nodes q)(tail \<mapsto> tn\<lparr>n_next := v\<rparr>), q_weak := w\<rparr>
                 in if ok then Inr q' else push_loop fuel new_node q')
              else
                (let (ok, v, w) = compare_exchange_weak (q_tail q) tail next (q_weak q)
                 in push_loop fuel new_node (q\<lparr>q_tail := v, q_weak := w\<rparr>)))
           else push_loop fuel new_node q))"

text \<open>
  \<open>push\<close>: allocate the node, link it, and try once to swing the tail to it.  Each turn of the
  loop uses up a pending spurious failure, moves a lagging tail, or links the node.
\<close>

definition push :: "'a \<Rightarrow> 'a lock_free_queue \<Rightarrow> 'a lock_free_queue res" where
  "push thread q =
     (let new_node = q_brk q;
          q1 = q\<lparr>q_nodes := (q_nodes q)(new_node \<mapsto> \<lparr>n_thread = Some thread, n_next = 0\<rparr>),
                 q_brk := Suc (q_brk q)\<rparr>
      in rbind (push_loop (length (q_weak q) + 2) new_node q1) (\<lambda>q2.
           let (_, v, w) = compare_exchange_weak (q_tail q2) (q_tail q2) new_node (q_weak q2)
           in Inr (q2\<lparr>q_tail := v, q_weak := w\<rparr>)))"

text \<open>
  The loop of \<open>try_pop\<close>.  The thread is taken out of the successor node before the head is
  exchanged, and put back when the exchange fails; a successful exchange frees the old dummy.
\<close>

primrec try_pop_loop :: "nat \<Rightarrow> 'a lock_free_queue \<Rightarrow> ('a option \<times> 'a lock_free_queue) res" where
  "try_pop_loop 0 q = Inl OutOfFuel"
| "try_pop_loop (Suc fuel) q =
     (let head = q_head q; tail = q_tail q
      in rbind (deref (q_nodes q) head) (\<lambda>hn.
        let next = n_next hn
        in if head = q_head q then
             (if head = tail then
                (if next = 0 then Inr (None, q)
                 else
                   (let (_, v, w) = compare_exchange_weak (q_tail q) tail next (q_weak q)
                    in try_pop_loop fuel (q\<lparr>q_tail := v, q_weak := w\<rparr>)))
              else if next = 0 then try_pop_loop fuel q
              else rbind (deref (q_nodes q) next) (\<lambda>nn.
                let thread = n_thread nn;
                    q1 = q\<lparr>q_nodes := (q_nodes q)(next \<mapsto> nn\<lparr>n_thread := None\<rparr>)\<rparr>;
                    (ok, v, w) = compare_exchange_weak (q_head q1) head next (q_weak q1);
                    q2 = q1\<lparr>q_head := v, q_weak := w\<rparr>
                in if ok then Inr (thread, q2\<lparr>q_nodes := (q_nodes q2)(head := None)\<rparr>)
                   else try_pop_loop fuel
                     (case thread of
                        None \<Rightarrow> q2
                      | Some t \<Rightarrow> q2\<lparr>q_nodes := (q_nodes q2)(next \<mapsto> nn\<lparr>n_thread := Some t\<rparr>)\<rparr>)))
           else try_pop_loop fuel q))"

definition try_pop :: "'a lock_free_queue \<Rightarrow> ('a option \<times> 'a lock_free_queue) res" where
  "try_pop q = try_pop_loop (length (q_weak q) + 2) q"

definition peek :: "'a lock_free_queue \<Rightarrow> 'a option res" where
  "peek q =
     rbind (deref (q_nodes q) (q_head q)) (\<lambda>hn.
       if n_next hn = 0 then Inr None
       else rbind (deref (q_nodes q) (n_next hn)) (\<lambda>nn. Inr (n_thread nn)))"

text \<open>\<open>debug_list_threads\<close>: the identifiers of the queued threads, 0 for an emptied node.\<close>

primrec debug_list_loop ::
  "nat \<Rightarrow> ('a \<Rightarrow> usize) \<Rightarrow> (ptr \<rightharpoonup> 'a queue_node) \<Rightarrow> ptr \<Rightarrow> usize list \<Rightarrow> usize list res" where
  "debug_list_loop 0 tid h current ids = Inl OutOfFuel"
| "debug_list_loop (Suc fuel) tid h current ids =
     (if current = 0 then Inr ids
      else rbind (deref h current) (\<lambda>n.
        debug_list_loop fuel tid h (n_next n)
          (ids @ [case n_thread n of Some t \<Rightarrow> tid t | None \<Rightarrow> 0])))"

definition debug_list_threads :: "('a \<Rightarrow> usize) \<Rightarrow> 'a lock_free_queue \<Rightarrow> usize list res" where
  "debug_list_threads tid q =
     rbind (deref (q_nodes q) (q_head q)) (\<lambda>hn.
       debug_list_loop (Suc (q_brk q)) tid (q_nodes q) (n_next hn) [])"

text \<open>\<open>Drop for LockFreeQueue\<close>: pop until the queue is empty, then free the last dummy.\<close>

primrec drain :: "nat \<Rightarrow> 'a lock_free_queue \<Rightarrow> 'a lock_free_queue res" where
  "drain 0 q = Inl OutOfFuel"
| "drain (Suc fuel) q =
     rbind (try_pop q) (\<lambda>(t, q'). case t of None \<Rightarrow> Inr q' | Some _ \<Rightarrow> drain fuel q')"

definition drop_queue :: "'a lock_free_queue \<Rightarrow> 'a lock_free_queue res" where
  "drop_queue q =
     rbind (drain (Suc (q_brk q)) q) (\<lambda>q1.
       let head = q_head q1
       in if head = 0 then Inr q1
          else rbind (deref (q_nodes q1) head) (\<lambda>_.
            Inr (q1\<lparr>q_nodes := (q_nodes q1)(head := None)\<rparr>)))"

section \<open>The representation invariant\<close>

text \<open>
  \<open>lseg h p cs\<close>: from \<open>p\<close> the heap holds the linked cells \<open>cs\<close>, each an address and
  the thread stored there, ending in null.
\<close>

primrec lseg :: "(ptr \<rightharpoonup> 'a queue_node) \<Rightarrow> ptr \<Rightarrow> (ptr \<times> 'a) list \<Rightarrow> bool" where
  "lseg h p [] \<longleftrightarrow> p = 0"
| "lseg h p (c # cs) \<longleftrightarrow> p = fst c \<and> p \<noteq> 0 \<and>
     (case h p of None \<Rightarrow> False
      | Some n \<Rightarrow> n_thread n = Some (snd c) \<and> lseg h (n_next n) cs)"

text \<open>The tail pointer is the last node or the one before it.\<close>

definition tail_ok :: "ptr \<Rightarrow> ptr list \<Rightarrow> bool" where
  "tail_ok t as \<longleftrightarrow> t \<in> set (drop (length as - 2) as)"

definition rep_core ::
  "'a lock_free_queue \<Rightarrow> ptr \<Rightarrow> (ptr \<times> 'a) list \<Rightarrow> bool" where
  "rep_core q d cs \<longleftrightarrow>
     q_head q = d \<and> d \<noteq> 0 \<and>
     (\<exists>n. q_nodes q d = Some n \<and> n_thread n = None \<and> lseg (q_nodes q) (n_next n) cs) \<and>
     distinct (d # map fst cs) \<and> (\<forall>a \<in> set (d # map fst cs). a < q_brk q) \<and>
     tail_ok (q_tail q) (d # map fst cs)"

text \<open>A queue represents \<open>cs\<close> and owns exactly the nodes on its list: nothing leaks.\<close>

definition queue_rep :: "'a lock_free_queue \<Rightarrow> ptr \<Rightarrow> (ptr \<times> 'a) list \<Rightarrow> bool" where
  "queue_rep q d cs \<longleftrightarrow> rep_core q d cs \<and> dom (q_nodes q) = set (d # map fst cs)"

definition queue_inv :: "'a lock_free_queue \<Rightarrow> bool" where
  "queue_inv q \<longleftrightarrow> (\<exists>d cs. queue_rep q d cs)"

text \<open>The abstraction: the threads met by following the list from the dummy.\<close>

primrec walk :: "nat \<Rightarrow> (ptr \<rightharpoonup> 'a queue_node) \<Rightarrow> ptr \<Rightarrow> 'a list" where
  "walk 0 h p = []"
| "walk (Suc fuel) h p =
     (case h p of
        None \<Rightarrow> []
      | Some n \<Rightarrow> (case n_thread n of None \<Rightarrow> [] | Some t \<Rightarrow> t # walk fuel h (n_next n)))"

definition queue_list :: "'a lock_free_queue \<Rightarrow> 'a list" where
  "queue_list q =
     (case q_nodes q (q_head q) of None \<Rightarrow> []
      | Some n \<Rightarrow> if n_next n = 0 then [] else walk (q_brk q) (q_nodes q) (n_next n))"

lemma lseg_upd_other: "a \<notin> fst ` set cs \<Longrightarrow> lseg (h(a := v)) p cs \<longleftrightarrow> lseg h p cs"
  by (induction cs arbitrary: p) (auto split: option.splits)

lemma lseg_Null: "lseg h 0 cs \<longleftrightarrow> cs = []"
  by (cases cs) auto

lemma lseg_start: "lseg h p cs \<Longrightarrow> p = 0 \<longleftrightarrow> cs = []"
  by (cases cs) auto

lemma lseg_link:
  assumes "lseg h p (cs @ [(l, x)])" "distinct (map fst (cs @ [(l, x)]))"
    and "m \<notin> fst ` set (cs @ [(l, x)])" "m \<noteq> 0" "h m = Some \<lparr>n_thread = Some y, n_next = 0\<rparr>"
    and "h l = Some n"
  shows "lseg (h(l \<mapsto> n\<lparr>n_next := m\<rparr>)) p (cs @ [(l, x), (m, y)])"
  using assms by (induction cs arbitrary: p) (auto split: option.splits if_splits)

lemma lseg_last_next: "lseg h p (cs @ [(l, x)]) \<Longrightarrow> \<exists>n. h l = Some n \<and> n_next n = 0 \<and> l \<noteq> 0"
  by (induction cs arbitrary: p) (auto split: option.splits)

lemma lseg_mid_next:
  "lseg h p (cs @ [(k, x), (l, y)]) \<Longrightarrow> \<exists>n. h k = Some n \<and> n_next n = l \<and> k \<noteq> 0 \<and> l \<noteq> 0"
  by (induction cs arbitrary: p) (auto split: option.splits)

lemma walk_lseg: "lseg h p cs \<Longrightarrow> cs \<noteq> [] \<Longrightarrow> length cs \<le> fuel \<Longrightarrow> h 0 = None \<Longrightarrow>
  walk fuel h p = map snd cs"
proof (induction cs arbitrary: p fuel)
  case (Cons c cs)
  then obtain f where f: "fuel = Suc f" by (cases fuel) auto
  from Cons.prems obtain n where n: "h p = Some n" "n_thread n = Some (snd c)"
    "lseg h (n_next n) cs" by (auto split: option.splits)
  show ?case
  proof (cases "cs = []")
    case True
    with n f Cons.prems show ?thesis by (cases f) auto
  next
    case False
    with Cons.IH [OF n(3), of f] Cons.prems f n show ?thesis by simp
  qed
qed simp

lemma distinct_bounded_length:
  assumes "distinct as" "\<forall>a \<in> set as. 0 < a \<and> a < (b::nat)"
  shows "length as < b \<or> as = []"
proof (cases "as = []")
  case False
  then have "0 < b" using assms(2) by (cases as) auto
  have "set as \<subseteq> {1..<b}" using assms(2) by auto
  then have "card (set as) \<le> card {1..<b}" by (rule card_mono [rotated]) simp
  with \<open>0 < b\<close> show ?thesis using distinct_card [OF assms(1)] by simp linarith
qed simp

lemma rep_coreE:
  assumes "rep_core q d cs"
  obtains n where "q_nodes q d = Some n" "n_thread n = None" "lseg (q_nodes q) (n_next n) cs"
    "q_head q = d" "d \<noteq> 0"
  using assms by (auto simp: rep_core_def)

lemma lseg_nonnull: "lseg h p cs \<Longrightarrow> \<forall>a \<in> fst ` set cs. 0 < a"
  by (induction cs arbitrary: p) (auto split: option.splits)

lemma rep_core_length: "rep_core q d cs \<Longrightarrow> length cs < q_brk q"
proof -
  assume r: "rep_core q d cs"
  then obtain n where "q_nodes q d = Some n" "lseg (q_nodes q) (n_next n) cs"
    by (rule rep_coreE)
  then have "\<forall>a \<in> set (d # map fst cs). 0 < a \<and> a < q_brk q"
    using r lseg_nonnull by (fastforce simp: rep_core_def)
  moreover have "distinct (d # map fst cs)" using r by (simp add: rep_core_def)
  ultimately show ?thesis using distinct_bounded_length [of "d # map fst cs" "q_brk q"] by simp
qed

lemma rep_null_unused: "queue_rep q d cs \<Longrightarrow> q_nodes q 0 = None"
proof -
  assume r: "queue_rep q d cs"
  then obtain n where "q_nodes q d = Some n" "lseg (q_nodes q) (n_next n) cs"
    unfolding queue_rep_def by (blast elim: rep_coreE)
  then have "0 \<notin> set (d # map fst cs)"
    using r lseg_nonnull by (fastforce simp: queue_rep_def rep_core_def)
  with r show ?thesis by (auto simp: queue_rep_def dom_def)
qed

lemma queue_list_rep: "queue_rep q d cs \<Longrightarrow> queue_list q = map snd cs"
proof -
  assume r: "queue_rep q d cs"
  then obtain n where n: "q_nodes q d = Some n" "lseg (q_nodes q) (n_next n) cs" "q_head q = d"
    unfolding queue_rep_def by (blast elim: rep_coreE)
  have "length cs \<le> q_brk q"
    using rep_core_length [of q d cs] r by (simp add: queue_rep_def)
  with n r show ?thesis
    by (cases "cs = []") (auto simp: queue_list_def lseg_start walk_lseg rep_null_unused)
qed

section \<open>Creation and insertion\<close>

lemma new_queue_rep: "queue_rep (new_queue w) 1 []"
  by (simp add: queue_rep_def rep_core_def new_queue_def tail_ok_def Let_def)

lemma tail_ok_singleton: "tail_ok t [d] \<longleftrightarrow> t = d"
  by (simp add: tail_ok_def)

lemma tail_ok_snoc2: "tail_ok t (as @ [a, b]) \<longleftrightarrow> t = a \<or> t = b"
  by (auto simp: tail_ok_def)

lemma tail_ok_Cons2:
  "tail_ok t (d # a # as) \<longleftrightarrow> (if as = [] then t = d \<or> t = a else tail_ok t (a # as))"
  by (cases as) (auto simp: tail_ok_def)

lemma tail_ok_in: "tail_ok t as \<Longrightarrow> t \<in> set as"
  by (auto simp: tail_ok_def dest: in_set_dropD)

lemma tail_ok_last: "as \<noteq> [] \<Longrightarrow> tail_ok (last as) as"
  by (cases as rule: rev_cases) (auto simp: tail_ok_def)

text \<open>The last address and, in a list of two or more nodes, the one before it.\<close>

lemma nodes_snoc_cases:
  obtains (single) "d # map fst cs = [d]" "cs = []"
  | (pair) k where "cs = [k]"
  | (more) ks k l where "cs = ks @ [k, l]"
  by (cases cs rule: rev_cases; cases "butlast cs" rule: rev_cases) auto

definition last_node :: "ptr \<Rightarrow> (ptr \<times> 'a) list \<Rightarrow> ptr" where
  "last_node d cs = last (d # map fst cs)"

lemma last_node_simps [simp]:
  "last_node d [] = d" "last_node d [c] = fst c" "last_node d (cs @ [c]) = fst c"
  "last_node d (cs @ [b, c]) = fst c"
  by (simp_all add: last_node_def)

text \<open>A represented queue beside a node that is allocated but not linked yet.\<close>

definition rep_pending ::
  "'a lock_free_queue \<Rightarrow> ptr \<Rightarrow> (ptr \<times> 'a) list \<Rightarrow> ptr \<Rightarrow> 'a \<Rightarrow> bool" where
  "rep_pending q d cs m x \<longleftrightarrow>
     rep_core q d cs \<and> m \<notin> set (d # map fst cs) \<and> m \<noteq> 0 \<and> m < q_brk q \<and>
     q_nodes q m = Some \<lparr>n_thread = Some x, n_next = 0\<rparr> \<and>
     dom (q_nodes q) = insert m (set (d # map fst cs))"

lemma rep_core_weak: "rep_core (q\<lparr>q_weak := w\<rparr>) d cs \<longleftrightarrow> rep_core q d cs"
  by (simp add: rep_core_def)

lemma queue_rep_weak: "queue_rep (q\<lparr>q_weak := w\<rparr>) d cs \<longleftrightarrow> queue_rep q d cs"
  by (simp add: queue_rep_def rep_core_weak)

lemma rep_pending_weak: "rep_pending (q\<lparr>q_weak := w\<rparr>) d cs m x \<longleftrightarrow> rep_pending q d cs m x"
  by (simp add: rep_pending_def rep_core_weak)

lemma rep_core_tail_last:
  "rep_core q d cs \<Longrightarrow> rep_core (q\<lparr>q_tail := last_node d cs\<rparr>) d cs"
  unfolding rep_core_def using tail_ok_last [of "d # map fst cs"] by (simp add: last_node_def)

lemma rep_pending_tail_last:
  "rep_pending q d cs m x \<Longrightarrow> rep_pending (q\<lparr>q_tail := last_node d cs\<rparr>) d cs m x"
  unfolding rep_pending_def by (simp add: rep_core_tail_last)

text \<open>What the node under the tail pointer holds.\<close>

lemma tail_node:
  assumes "rep_core q d cs"
  obtains (at_end) n where "q_tail q = last_node d cs" "q_nodes q (q_tail q) = Some n"
      "n_next n = 0" "q_tail q \<noteq> 0"
  | (lagging) n where "q_nodes q (q_tail q) = Some n" "q_tail q \<noteq> last_node d cs"
      "n_next n = last_node d cs" "n_next n \<noteq> 0" "q_tail q \<noteq> 0"
proof -
  from assms obtain n where n: "q_nodes q d = Some n" "lseg (q_nodes q) (n_next n) cs" "d \<noteq> 0"
    by (rule rep_coreE)
  have t: "tail_ok (q_tail q) (d # map fst cs)" and dist: "distinct (d # map fst cs)"
    using assms by (simp_all add: rep_core_def)
  show thesis
  proof (cases cs rule: nodes_snoc_cases [where d = d])
    case single
    with t n show ?thesis by (auto simp: tail_ok_singleton intro: at_end)
  next
    case (pair k)
    with t have "q_tail q = d \<or> q_tail q = fst k" using tail_ok_snoc2 [of _ "[]"] by simp
    with pair n dist show ?thesis
      by (auto intro: at_end lagging split: option.splits)
  next
    case (more ks k l)
    then have "tail_ok (q_tail q) ((d # map fst ks) @ [fst k, fst l])" using t by simp
    then have tl: "q_tail q = fst k \<or> q_tail q = fst l" by (simp only: tail_ok_snoc2)
    from n(2) more obtain nk where nk: "q_nodes q (fst k) = Some nk" "n_next nk = fst l" "fst k \<noteq> 0" "fst l \<noteq> 0"
      using lseg_mid_next [of "q_nodes q" _ ks "fst k" "snd k" "fst l" "snd l"] by auto
    from n(2) more obtain nl where nl: "q_nodes q (fst l) = Some nl" "n_next nl = 0" "fst l \<noteq> 0"
      using lseg_last_next [of "q_nodes q" _ "ks @ [k]" "fst l" "snd l"] by auto
    from tl show ?thesis
    proof
      assume "q_tail q = fst k"
      with nk more dist show ?thesis by (intro lagging [of nk]) auto
    next
      assume "q_tail q = fst l"
      with nl more show ?thesis by (intro at_end [of nl]) auto
    qed
  qed
qed

text \<open>Linking the pending node behind the last one.\<close>

lemma rep_pending_link:
  assumes r: "rep_pending q d cs m x" and l: "q_tail q = last_node d cs"
    and n: "q_nodes q (q_tail q) = Some n"
  shows "queue_rep (q\<lparr>q_nodes := (q_nodes q)(q_tail q \<mapsto> n\<lparr>n_next := m\<rparr>)\<rparr>) d (cs @ [(m, x)])"
proof (cases cs rule: rev_cases)
  case Nil
  with assms show ?thesis
    using tail_ok_snoc2 [of d "[]" d m]
    by (auto simp: queue_rep_def rep_pending_def rep_core_def)
next
  case (snoc cs' c)
  obtain a y where c: "c = (a, y)" by (cases c)
  from r obtain n0 where n0: "q_nodes q d = Some n0" "n_thread n0 = None"
    "lseg (q_nodes q) (n_next n0) cs" "q_head q = d" "d \<noteq> 0"
    unfolding rep_pending_def by (blast elim: rep_coreE)
  have t: "q_tail q = a" using l snoc c by simp
  have "lseg ((q_nodes q)(a \<mapsto> n\<lparr>n_next := m\<rparr>)) (n_next n0) (cs' @ [(a, y), (m, x)])"
    using r n0(3) n t snoc c
    by (intro lseg_link) (auto simp: rep_pending_def rep_core_def)
  moreover have "tail_ok a ((d # map fst cs') @ [a, m])" by (subst tail_ok_snoc2) simp
  ultimately show ?thesis using r n n0 t snoc c
    by (auto simp: queue_rep_def rep_pending_def rep_core_def)
qed

definition push_need :: "'a lock_free_queue \<Rightarrow> ptr \<Rightarrow> (ptr \<times> 'a) list \<Rightarrow> nat" where
  "push_need q d cs = length (q_weak q) + (if q_tail q = last_node d cs then 1 else 2)"

lemma push_loop_ok:
  "rep_pending q d cs m x \<Longrightarrow> push_need q d cs \<le> fuel \<Longrightarrow>
   \<exists>q'. push_loop fuel m q = Inr q' \<and> queue_rep q' d (cs @ [(m, x)])"
proof (induction fuel arbitrary: q)
  case 0
  then show ?case by (simp add: push_need_def split: if_splits)
next
  case (Suc fuel)
  let ?spurious = "q_weak q \<noteq> [] \<and> hd (q_weak q)"
  from Suc.prems have core: "rep_core q d cs" by (simp add: rep_pending_def)
  then show ?case
  proof (cases rule: tail_node)
    case (at_end n)
    show ?thesis
    proof (cases ?spurious)
      case True
      have "rep_pending (q\<lparr>q_weak := tl (q_weak q)\<rparr>) d cs m x"
        using Suc.prems by (simp add: rep_pending_weak)
      moreover have "push_need (q\<lparr>q_weak := tl (q_weak q)\<rparr>) d cs \<le> fuel"
        using Suc.prems True by (cases "q_weak q") (auto simp: push_need_def split: if_splits)
      moreover have "(q_nodes q)(q_tail q \<mapsto> n\<lparr>n_next := 0\<rparr>) = q_nodes q"
        using at_end(2,3) by (intro fun_upd_idem) simp
      then have "push_loop (Suc fuel) m q = push_loop fuel m (q\<lparr>q_weak := tl (q_weak q)\<rparr>)"
        using at_end(2-4) True by (simp add: compare_exchange_weak_same)
      ultimately show ?thesis using Suc.IH by metis
    next
      case False
      from at_end have "queue_rep (q\<lparr>q_nodes := (q_nodes q)(q_tail q \<mapsto> n\<lparr>n_next := m\<rparr>)\<rparr>) d (cs @ [(m, x)])"
        by (intro rep_pending_link [OF Suc.prems(1)])
      moreover have "push_loop (Suc fuel) m q = Inr (q\<lparr>q_nodes := (q_nodes q)(q_tail q \<mapsto>
          n\<lparr>n_next := m\<rparr>), q_weak := tl (q_weak q)\<rparr>)"
        using at_end(2-4) False by (auto simp: compare_exchange_weak_same)
      ultimately show ?thesis
        using queue_rep_weak [where q = "q\<lparr>q_nodes := (q_nodes q)(q_tail q \<mapsto> n\<lparr>n_next := m\<rparr>)\<rparr>"] by simp
    qed
  next
    case (lagging n)
    let ?q = "if ?spurious then q\<lparr>q_weak := tl (q_weak q)\<rparr>
      else q\<lparr>q_tail := last_node d cs, q_weak := tl (q_weak q)\<rparr>"
    have "rep_pending ?q d cs m x"
      using Suc.prems rep_pending_tail_last [of q d cs m x]
      by (simp add: rep_pending_weak)
    moreover have "push_need ?q d cs \<le> fuel"
      using Suc.prems lagging by (cases "q_weak q") (auto simp: push_need_def)
    moreover have "push_loop (Suc fuel) m q = push_loop fuel m ?q"
      using lagging by (simp add: compare_exchange_weak_same)
    ultimately show ?thesis using Suc.IH by metis
  qed
qed

text \<open>The allocation that starts a push, and the single attempt to move the tail that ends it.\<close>

lemma alloc_pending:
  assumes "queue_rep q d cs"
  shows "rep_pending (q\<lparr>q_nodes := (q_nodes q)(q_brk q \<mapsto> \<lparr>n_thread = Some x, n_next = 0\<rparr>),
    q_brk := Suc (q_brk q)\<rparr>) d cs (q_brk q) x"
proof -
  have "q_brk q \<notin> set (d # map fst cs)" "q_brk q \<noteq> 0"
    using assms by (auto simp: queue_rep_def rep_core_def)
  then show ?thesis
    using assms by (auto simp: rep_pending_def queue_rep_def rep_core_def lseg_upd_other)
qed

lemma queue_rep_swing:
  assumes "queue_rep q d (cs @ [(m, x)])"
    and "compare_exchange_weak (q_tail q) (q_tail q) m (q_weak q) = (ok, v, w)"
  shows "queue_rep (q\<lparr>q_tail := v, q_weak := w\<rparr>) d (cs @ [(m, x)])"
proof -
  have "queue_rep (q\<lparr>q_tail := m, q_weak := w\<rparr>) d (cs @ [(m, x)])" "queue_rep (q\<lparr>q_weak := w\<rparr>) d (cs @ [(m, x)])"
    using assms(1) rep_core_tail_last [of q d "cs @ [(m, x)]"] by (auto simp: queue_rep_def rep_core_def)
  with assms(2) show ?thesis by (auto simp: compare_exchange_weak_same split: if_splits)
qed

lemma push_rep:
  assumes r: "queue_rep q d cs"
  shows "\<exists>q'. push x q = Inr q' \<and> queue_rep q' d (cs @ [(q_brk q, x)])"
proof -
  let ?m = "q_brk q"
  let ?q1 = "q\<lparr>q_nodes := (q_nodes q)(?m \<mapsto> \<lparr>n_thread = Some x, n_next = 0\<rparr>), q_brk := Suc ?m\<rparr>"
  have "push_need ?q1 d cs \<le> length (q_weak q) + 2" by (simp add: push_need_def)
  then obtain q2 where q2: "push_loop (length (q_weak q) + 2) ?m ?q1 = Inr q2"
    "queue_rep q2 d (cs @ [(?m, x)])" using push_loop_ok [OF alloc_pending [OF r]] by blast
  obtain ok v w where cas: "compare_exchange_weak (q_tail q2) (q_tail q2) ?m (q_weak q2) = (ok, v, w)"
    by (metis surj_pair)
  from q2(1) cas have "push x q = Inr (q2\<lparr>q_tail := v, q_weak := w\<rparr>)"
    by (simp add: push_def Let_def del: push_loop.simps)
  with queue_rep_swing [OF q2(2) cas] show ?thesis by blast
qed

section \<open>Removal\<close>

lemma rep_core_Cons_free:
  assumes "rep_core q d ((a, x) # cs)" "q_tail q \<noteq> d" "q_nodes q a = Some n"
  shows "rep_core (q\<lparr>q_head := a,
    q_nodes := ((q_nodes q)(a \<mapsto> n\<lparr>n_thread := None\<rparr>))(d := None)\<rparr>) a cs"
proof -
  have "tail_ok (q_tail q) (a # map fst cs)"
    using assms(1,2) by (auto simp: rep_core_def tail_ok_Cons2 tail_ok_singleton split: if_splits)
  with assms show ?thesis
    by (auto simp: rep_core_def lseg_upd_other split: option.splits)
qed

definition pop_need :: "'a lock_free_queue \<Rightarrow> nat" where
  "pop_need q = length (q_weak q) + (if q_tail q = q_head q then 2 else 1)"

lemma try_pop_loop_nonempty:
  "queue_rep q d ((a, x) # cs) \<Longrightarrow> pop_need q \<le> fuel \<Longrightarrow>
   \<exists>q'. try_pop_loop fuel q = Inr (Some x, q') \<and> queue_rep q' a cs"
proof (induction fuel arbitrary: q)
  case 0
  then show ?case by (simp add: pop_need_def split: if_splits)
next
  case (Suc fuel)
  let ?spurious = "q_weak q \<noteq> [] \<and> hd (q_weak q)"
  from Suc.prems(1) obtain n where n: "q_nodes q d = Some n" "n_thread n = None"
    "lseg (q_nodes q) (n_next n) ((a, x) # cs)" "q_head q = d" "d \<noteq> 0"
    unfolding queue_rep_def by (blast elim: rep_coreE)
  then have nx: "n_next n = a" "a \<noteq> 0" by auto
  from n(3) obtain na where na: "q_nodes q a = Some na" "n_thread na = Some x"
    by (auto split: option.splits)
  have da: "d \<noteq> a" using Suc.prems(1) by (auto simp: queue_rep_def rep_core_def)
  show ?case
  proof (cases "q_tail q = d")
    case True
    let ?q = "if ?spurious then q\<lparr>q_tail := d, q_weak := tl (q_weak q)\<rparr>
      else q\<lparr>q_tail := a, q_weak := tl (q_weak q)\<rparr>"
    have "cs = []"
      using Suc.prems(1) True tail_ok_in [of d "a # map fst cs"]
      by (auto simp: queue_rep_def rep_core_def tail_ok_Cons2 split: if_splits)
    then have "queue_rep ?q d ((a, x) # cs)"
      using Suc.prems(1) tail_ok_snoc2 [of a "[]" d a] tail_ok_snoc2 [of d "[]" d a]
      by (auto simp: queue_rep_def rep_core_def split: option.splits)
    moreover have "pop_need ?q \<le> fuel"
      using Suc.prems(2) n True da by (cases "q_weak q") (auto simp: pop_need_def)
    moreover have "try_pop_loop (Suc fuel) q = try_pop_loop fuel ?q"
      using n nx True by (simp add: compare_exchange_weak_same)
    ultimately show ?thesis using Suc.IH by metis
  next
    case False
    show ?thesis
    proof (cases ?spurious)
      case True
      have "queue_rep (q\<lparr>q_weak := tl (q_weak q)\<rparr>) d ((a, x) # cs)"
        using Suc.prems(1) by (simp add: queue_rep_def rep_core_weak)
      moreover have "pop_need (q\<lparr>q_weak := tl (q_weak q)\<rparr>) \<le> fuel"
        using Suc.prems(2) True False n by (cases "q_weak q") (auto simp: pop_need_def)
      moreover have "(q_nodes q)(a \<mapsto> na\<lparr>n_thread := Some x\<rparr>) = q_nodes q"
        using na by (intro fun_upd_idem) simp
      ultimately show ?thesis using Suc.IH n nx na True False
        by (auto simp: compare_exchange_weak_same)
    next
      case ns: False
      from Suc.prems(1) False na have
        "rep_core (q\<lparr>q_head := a, q_nodes := ((q_nodes q)(a \<mapsto> na\<lparr>n_thread := None\<rparr>))(d := None)\<rparr>) a cs"
        by (intro rep_core_Cons_free) (auto simp: queue_rep_def)
      then have "queue_rep (q\<lparr>q_head := a, q_weak := tl (q_weak q),
          q_nodes := ((q_nodes q)(a \<mapsto> na\<lparr>n_thread := None\<rparr>))(d := None)\<rparr>) a cs"
        using Suc.prems(1) da
        by (auto simp: queue_rep_def rep_core_def) (metis fst_conv image_eqI)
      with n nx na False ns show ?thesis by (auto simp: compare_exchange_weak_same)
    qed
  qed
qed

lemma try_pop_rep_Cons:
  assumes "queue_rep q d ((a, x) # cs)"
  shows "\<exists>q'. try_pop q = Inr (Some x, q') \<and> queue_rep q' a cs"
  unfolding try_pop_def by (rule try_pop_loop_nonempty [OF assms]) (simp add: pop_need_def)

lemma try_pop_rep_Nil: "queue_rep q d [] \<Longrightarrow> try_pop q = Inr (None, q)"
  by (auto simp: queue_rep_def rep_core_def try_pop_def tail_ok_singleton)

lemma peek_rep:
  "queue_rep q d cs \<Longrightarrow> peek q = Inr (case cs of [] \<Rightarrow> None | c # _ \<Rightarrow> Some (snd c))"
  by (cases cs) (auto simp: queue_rep_def rep_core_def peek_def split: option.splits)

lemma debug_list_loop_lseg:
  "lseg h p cs \<Longrightarrow> length cs < fuel \<Longrightarrow>
   debug_list_loop fuel tid h p ids = Inr (ids @ map (tid \<circ> snd) cs)"
proof (induction cs arbitrary: p fuel ids)
  case Nil
  then show ?case by (cases fuel) auto
next
  case (Cons c cs)
  then obtain f where "fuel = Suc f" by (cases fuel) auto
  with Cons show ?case by (auto split: option.splits)
qed

lemma queue_inv_rep: "queue_inv q \<longleftrightarrow> (\<exists>d cs. queue_rep q d cs \<and> queue_list q = map snd cs)"
  by (auto simp: queue_inv_def dest: queue_list_rep)

lemma drain_rep:
  "queue_rep q d cs \<Longrightarrow> length cs < fuel \<Longrightarrow> \<exists>q' e. drain fuel q = Inr q' \<and> queue_rep q' e []"
proof (induction fuel arbitrary: q d cs)
  case (Suc fuel)
  show ?case
  proof (cases cs)
    case Nil
    with Suc.prems show ?thesis by (auto simp: try_pop_rep_Nil)
  next
    case (Cons c cs')
    obtain a x where "c = (a, x)" by (cases c)
    with Cons Suc.prems obtain q' where "try_pop q = Inr (Some x, q')" "queue_rep q' a cs'"
      using try_pop_rep_Cons [of q d a x cs'] by auto
    with Cons Suc show ?thesis by auto
  qed
qed simp

section \<open>The interface of a first-in first-out queue\<close>

locale fifo_queue =
  fixes fresh :: "'w \<Rightarrow> 'q"
    and enq :: "'a \<Rightarrow> 'q \<Rightarrow> 'q res"
    and deq :: "'q \<Rightarrow> ('a option \<times> 'q) res"
    and front :: "'q \<Rightarrow> 'a option res"
    and items :: "'q \<Rightarrow> 'a list"
    and ok :: "'q \<Rightarrow> bool"
  assumes ok_fresh: "ok (fresh w)"
    and items_fresh: "items (fresh w) = []"
    and enq_ok: "ok q \<Longrightarrow> \<exists>q'. enq x q = Inr q' \<and> ok q' \<and> items q' = items q @ [x]"
    and deq_empty: "ok q \<Longrightarrow> items q = [] \<Longrightarrow> \<exists>q'. deq q = Inr (None, q') \<and> ok q' \<and> items q' = []"
    and deq_front: "ok q \<Longrightarrow> items q = x # xs \<Longrightarrow>
      \<exists>q'. deq q = Inr (Some x, q') \<and> ok q' \<and> items q' = xs"
    and front_ok: "ok q \<Longrightarrow> front q = Inr (case items q of [] \<Rightarrow> None | x # _ \<Rightarrow> Some x)"
begin

text \<open>One equation for removal, by the head of the list.\<close>

lemma deq_ok:
  "ok q \<Longrightarrow> \<exists>q'. deq q = Inr (case items q of [] \<Rightarrow> None | x # _ \<Rightarrow> Some x, q') \<and> ok q' \<and>
     items q' = tl (items q)"
  using deq_empty [of q] deq_front [of q] by (cases "items q") auto

text \<open>A removal that returns a thread returned the first one.\<close>

lemma deq_SomeD:
  "ok q \<Longrightarrow> deq q = Inr (Some x, q') \<Longrightarrow> ok q' \<and> items q = x # items q'"
  using deq_empty [of q] deq_front [of q] by (cases "items q") fastforce+

lemma deq_NoneD: "ok q \<Longrightarrow> deq q = Inr (None, q') \<Longrightarrow> ok q' \<and> items q = [] \<and> items q' = []"
  using deq_empty [of q] deq_front [of q] by (cases "items q") fastforce+

lemma enqD: "ok q \<Longrightarrow> enq x q = Inr q' \<Longrightarrow> ok q' \<and> items q' = items q @ [x]"
  using enq_ok [of q x] by auto

lemma no_fault: "ok q \<Longrightarrow> (\<exists>q'. enq x q = Inr q') \<and> (\<exists>r. deq q = Inr r) \<and> (\<exists>r. front q = Inr r)"
  using enq_ok [of q x] deq_ok [of q] front_ok [of q] by auto

end

interpretation lfq: fifo_queue new_queue push try_pop peek queue_list queue_inv
proof
  show "queue_inv (new_queue w)" "queue_list (new_queue w) = []" for w :: "bool list"
    using new_queue_rep [of w] queue_list_rep [OF new_queue_rep [of w]]
    by (auto simp: queue_inv_def)
next
  fix q :: "'a lock_free_queue" and x
  assume "queue_inv q"
  then obtain d cs where r: "queue_rep q d cs" by (auto simp: queue_inv_def)
  obtain q' where "push x q = Inr q'" "queue_rep q' d (cs @ [(q_brk q, x)])"
    using push_rep [OF r] by blast
  with r show "\<exists>q'. push x q = Inr q' \<and> queue_inv q' \<and> queue_list q' = queue_list q @ [x]"
    by (auto simp: queue_inv_def queue_list_rep)
next
  fix q :: "'a lock_free_queue"
  assume "queue_inv q" "queue_list q = []"
  then obtain d where "queue_rep q d []" by (auto simp: queue_inv_def queue_list_rep)
  then show "\<exists>q'. try_pop q = Inr (None, q') \<and> queue_inv q' \<and> queue_list q' = []"
    by (auto simp: try_pop_rep_Nil queue_inv_def queue_list_rep)
next
  fix q :: "'a lock_free_queue" and x xs
  assume "queue_inv q" "queue_list q = x # xs"
  then obtain d a cs where "queue_rep q d ((a, x) # cs)" "xs = map snd cs"
    by (auto simp: queue_inv_def queue_list_rep)
  then show "\<exists>q'. try_pop q = Inr (Some x, q') \<and> queue_inv q' \<and> queue_list q' = xs"
    using try_pop_rep_Cons by (fastforce simp: queue_inv_def queue_list_rep)
next
  fix q :: "'a lock_free_queue"
  assume "queue_inv q"
  then show "peek q = Inr (case queue_list q of [] \<Rightarrow> None | x # _ \<Rightarrow> Some x)"
    by (auto simp: queue_inv_def queue_list_rep peek_rep split: list.splits)
qed

lemma debug_list_threads_list:
  assumes "queue_inv q"
  shows "debug_list_threads tid q = Inr (map tid (queue_list q))"
proof -
  from assms obtain d cs where r: "queue_rep q d cs" by (auto simp: queue_inv_def)
  then have "length cs < Suc (q_brk q)" using rep_core_length [of q d cs] by (simp add: queue_rep_def)
  with r show ?thesis
    by (auto simp: debug_list_threads_def queue_rep_def rep_core_def debug_list_loop_lseg
        queue_list_rep [OF r] simp del: debug_list_loop.simps)
qed

section \<open>Properties of the queue\<close>

text \<open>
  C22.  The lock-free queue is a first-in first-out queue whatever the weak compare-exchanges
  do: from a well-formed queue every push returns (no fault, no endless retry), keeps the
  queue well formed and appends the thread behind all queued threads; every try_pop returns,
  keeps the queue well formed, and yields and removes the longest-queued thread, or None
  exactly when the queue is empty.
\<close>

theorem queue_fifo:
  assumes "queue_inv q"
  shows "(\<exists>q'. push x q = Inr q' \<and> queue_inv q' \<and> queue_list q' = queue_list q @ [x]) \<and>
    (\<exists>q'. try_pop q = Inr (case queue_list q of [] \<Rightarrow> None | y # _ \<Rightarrow> Some y, q') \<and>
           queue_inv q' \<and> queue_list q' = tl (queue_list q)) \<and>
    peek q = Inr (case queue_list q of [] \<Rightarrow> None | y # _ \<Rightarrow> Some y)"
  using lfq.enq_ok [OF assms] lfq.deq_ok [OF assms] lfq.front_ok [OF assms] by auto

theorem queue_fifo_witness:
  "queue_inv (new_queue [True, False] :: nat lock_free_queue) \<and>
   (\<exists>q'. push (7::nat) (new_queue [True, False]) = Inr q' \<and> queue_inv q' \<and>
      queue_list q' = [7])"
proof -
  have inv: "queue_inv (new_queue [True, False] :: nat lock_free_queue)" by (rule lfq.ok_fresh)
  with queue_fifo [OF inv, of 7] show ?thesis by (simp add: lfq.items_fresh)
qed

text \<open>
  Dropping a queue returns every node to the allocator exactly once: from a well-formed
  queue the drop loop ends, no freed node is touched, and afterwards the queue owns no node.
\<close>

theorem drop_queue_frees_all:
  assumes "queue_inv q"
  shows "\<exists>q'. drop_queue q = Inr q' \<and> q_nodes q' = Map.empty"
proof -
  from assms obtain d cs where r: "queue_rep q d cs" by (auto simp: queue_inv_def)
  then have "length cs < Suc (q_brk q)" using rep_core_length [of q d cs] by (simp add: queue_rep_def)
  from drain_rep [OF r this] obtain q' e where
    q': "drain (Suc (q_brk q)) q = Inr q'" "queue_rep q' e []" by blast
  then have "dom ((q_nodes q')(e := None)) = {}" by (simp add: queue_rep_def)
  then have "(q_nodes q')(e := None) = Map.empty" by (simp only: dom_eq_empty_conv)
  with q' show ?thesis by (auto simp: drop_queue_def queue_rep_def rep_core_def)
qed

theorem drop_queue_frees_all_witness:
  "queue_inv (new_queue [True] :: nat lock_free_queue) \<and>
   (\<exists>q'. drop_queue (new_queue [True] :: nat lock_free_queue) = Inr q' \<and> q_nodes q' = Map.empty)"
  using drop_queue_frees_all [OF lfq.ok_fresh [of "[True]"]] lfq.ok_fresh [of "[True]"] by blast

text \<open>
  C3.  The debugging walk \<open>debug_list_threads\<close> lists the identifiers of exactly the queued
  threads, front first, and never meets a freed or emptied node.
\<close>

theorem debug_list_threads_queue:
  assumes "queue_inv q"
  shows "debug_list_threads tid q = Inr (map tid (queue_list q))"
  by (rule debug_list_threads_list [OF assms])

theorem debug_list_threads_queue_witness:
  "debug_list_threads id (new_queue [True]) = Inr []"
  using debug_list_threads_queue [OF lfq.ok_fresh [of "[True]"], of id]
  by (simp add: lfq.items_fresh)

end
