(* ===== verification/Arc_Lite.thy ===== *)
theory Arc_Lite
  imports Prelude
begin

text \<open>
  The reference-counted cells of \<open>mem/arc_lite.rs\<close> (\<open>ArcLite\<close>, \<open>ArcLiteInner\<close>).  A heap
  maps addresses to a count and the shared data; a handle is the address.  The heap has room for
  \<open>ah_room\<close> more cells: beyond that the global allocator returns null and \<open>ArcLite::new\<close>
  panics.  Freeing a cell depends on the build: with the \<open>std-shim\<close> feature the cell goes back to
  the system allocator, in the bare-metal build \<open>deallocate\<close> is \<open>unimplemented!()\<close>.  A weak
  compare-exchange of \<open>try_inc\<close> may fail spuriously, as in the queue.
\<close>

section \<open>The cells and their operations\<close>

record 'a arc_inner =
  arc_count :: usize
  arc_data :: 'a

record 'a arc_heap =
  ah_cells :: "ptr \<rightharpoonup> 'a arc_inner"
  ah_next :: ptr
  ah_room :: nat
  ah_weak :: "bool list"

definition arc_empty :: "nat \<Rightarrow> bool list \<Rightarrow> 'a arc_heap" where
  "arc_empty room w = \<lparr>ah_cells = Map.empty, ah_next = 1, ah_room = room, ah_weak = w\<rparr>"

definition arc_new :: "'a \<Rightarrow> 'a arc_heap \<Rightarrow> (ptr \<times> 'a arc_heap) res" where
  "arc_new data h =
     (if ah_room h = 0 then Inl AllocFailure
      else Inr (ah_next h,
        h\<lparr>ah_cells := (ah_cells h)(ah_next h \<mapsto> \<lparr>arc_count = 1, arc_data = data\<rparr>),
          ah_next := Suc (ah_next h), ah_room := ah_room h - 1\<rparr>))"

definition arc_set_count :: "ptr \<Rightarrow> usize \<Rightarrow> 'a arc_inner \<Rightarrow> 'a arc_heap \<Rightarrow> 'a arc_heap" where
  "arc_set_count p n c h = h\<lparr>ah_cells := (ah_cells h)(p \<mapsto> c\<lparr>arc_count := n\<rparr>)\<rparr>"

primrec try_inc_loop ::
  "nat \<Rightarrow> bool \<Rightarrow> ptr \<Rightarrow> usize \<Rightarrow> 'a arc_heap \<Rightarrow> (bool \<times> 'a arc_heap) res" where
  "try_inc_loop 0 checks p current h = Inl OutOfFuel"
| "try_inc_loop (Suc fuel) checks p current h =
     (if current = 0 then Inr (False, h)
      else rbind (deref (ah_cells h) p) (\<lambda>c.
        rbind (add_u checks current 1) (\<lambda>succ.
          let (ok, v, w) = compare_exchange_weak (arc_count c) current succ (ah_weak h);
              h' = (arc_set_count p v c h)\<lparr>ah_weak := w\<rparr>
          in if ok then Inr (True, h')
             else try_inc_loop fuel checks p (arc_count c) h')))"

definition try_inc :: "bool \<Rightarrow> ptr \<Rightarrow> 'a arc_heap \<Rightarrow> (bool \<times> 'a arc_heap) res" where
  "try_inc checks p h =
     rbind (deref (ah_cells h) p) (\<lambda>c.
       try_inc_loop (Suc (length (ah_weak h))) checks p (arc_count c) h)"

text \<open>\<open>deallocate\<close>, by build: \<open>std-shim\<close> frees, bare metal panics.\<close>

definition arc_deallocate :: "bool \<Rightarrow> ptr \<Rightarrow> 'a arc_heap \<Rightarrow> 'a arc_heap res" where
  "arc_deallocate std_shim p h =
     (if std_shim then Inr (h\<lparr>ah_cells := (ah_cells h)(p := None)\<rparr>) else Inl Unimplemented)"

definition arc_dec :: "bool \<Rightarrow> ptr \<Rightarrow> 'a arc_heap \<Rightarrow> (usize \<times> 'a arc_heap) res" where
  "arc_dec std_shim p h =
     rbind (deref (ah_cells h) p) (\<lambda>c.
       let prev_count = arc_count c;
           h' = arc_set_count p (prev_count - 1) c h
       in if prev_count = 1
          then rbind (arc_deallocate std_shim p h') (\<lambda>h''. Inr (prev_count, h''))
          else Inr (prev_count, h'))"

definition ref_count :: "ptr \<Rightarrow> 'a arc_heap \<Rightarrow> usize res" where
  "ref_count p h = rbind (deref (ah_cells h) p) (\<lambda>c. Inr (arc_count c))"

definition arc_clone :: "ptr \<Rightarrow> 'a arc_heap \<Rightarrow> (ptr \<times> 'a arc_heap) res" where
  "arc_clone p h =
     rbind (deref (ah_cells h) p) (\<lambda>c. Inr (p, arc_set_count p (arc_count c + 1) c h))"

text \<open>\<open>Drop\<close>: the handle goes out of scope.\<close>

definition arc_drop :: "bool \<Rightarrow> ptr \<Rightarrow> 'a arc_heap \<Rightarrow> 'a arc_heap res" where
  "arc_drop std_shim p h = rbind (arc_dec std_shim p h) (\<lambda>(_, h'). Inr h')"

text \<open>\<open>Deref\<close>, and a store through the shared reference to an atomic or a locked field.\<close>

definition arc_get :: "ptr \<Rightarrow> 'a arc_heap \<Rightarrow> 'a res" where
  "arc_get p h = rbind (deref (ah_cells h) p) (\<lambda>c. Inr (arc_data c))"

definition arc_modify :: "ptr \<Rightarrow> ('a \<Rightarrow> 'a) \<Rightarrow> 'a arc_heap \<Rightarrow> 'a arc_heap res" where
  "arc_modify p f h =
     rbind (deref (ah_cells h) p) (\<lambda>c.
       Inr (h\<lparr>ah_cells := (ah_cells h)(p \<mapsto> c\<lparr>arc_data := f (arc_data c)\<rparr>)\<rparr>))"

section \<open>Lemmas\<close>

text \<open>The data behind a live handle; every other operation is read off it.\<close>

definition arc_live :: "'a arc_heap \<Rightarrow> ptr \<Rightarrow> bool" where
  "arc_live h p \<longleftrightarrow> p \<noteq> 0 \<and> p \<in> dom (ah_cells h)"

definition arc_val :: "'a arc_heap \<Rightarrow> ptr \<Rightarrow> 'a" where
  "arc_val h p = arc_data (the (ah_cells h p))"

definition arc_cnt :: "'a arc_heap \<Rightarrow> ptr \<Rightarrow> usize" where
  "arc_cnt h p = arc_count (the (ah_cells h p))"

lemmas arc_defs = arc_new_def arc_dec_def arc_clone_def arc_drop_def arc_get_def arc_modify_def
  arc_deallocate_def arc_set_count_def ref_count_def

lemmas arc_obs = arc_live_def arc_val_def arc_cnt_def

lemma arc_inner_count_upd:
  "c\<lparr>arc_count := n\<rparr> = \<lparr>arc_count = n, arc_data = arc_data c\<rparr>"
  by (cases c) simp

lemma arc_get_live [simp]: "arc_live h p \<Longrightarrow> arc_get p h = Inr (arc_val h p)"
  by (auto simp: arc_obs arc_get_def)

lemma arc_modify_live:
  "arc_live h p \<Longrightarrow> \<exists>h'. arc_modify p f h = Inr h' \<and>
     (\<forall>r. arc_live h' r = arc_live h r) \<and> (\<forall>r. arc_cnt h' r = arc_cnt h r) \<and>
     (\<forall>r. arc_val h' r = (if r = p then f (arc_val h p) else arc_val h r)) \<and>
     ah_next h' = ah_next h \<and> ah_room h' = ah_room h"
  by (auto simp: arc_obs arc_modify_def deref_def)

lemma try_inc_loop_live:
  assumes "p \<noteq> 0" "ah_cells h p = Some c" "arc_count c \<noteq> 0"
    and "\<not> (checks \<and> 2 ^ 64 \<le> unat (arc_count c) + 1)" "length (ah_weak h) < fuel"
  shows "\<exists>w. try_inc_loop fuel checks p (arc_count c) h =
    Inr (True, (arc_set_count p (arc_count c + 1) c h)\<lparr>ah_weak := w\<rparr>)"
  using assms
proof (induction fuel arbitrary: h)
  case (Suc fuel)
  let ?h = "h\<lparr>ah_weak := tl (ah_weak h)\<rparr>"
  show ?case
  proof (cases "ah_weak h \<noteq> [] \<and> hd (ah_weak h)")
    case True
    have "(ah_cells h)(p \<mapsto> c) = ah_cells h" using Suc.prems(2) by (intro fun_upd_idem)
    then have "try_inc_loop (Suc fuel) checks p (arc_count c) h =
        try_inc_loop fuel checks p (arc_count c) ?h"
      using Suc.prems True by (auto simp: add_u_def compare_exchange_weak_same arc_set_count_def)
    moreover have "length (ah_weak ?h) < fuel"
      using Suc.prems(5) True by (cases "ah_weak h") auto
    ultimately show ?thesis using Suc.IH [of ?h] Suc.prems by (simp add: arc_set_count_def)
  next
    case False
    with Suc.prems show ?thesis
      by (auto simp: add_u_def compare_exchange_weak_same)
  qed
qed simp

section \<open>Ownership\<close>

text \<open>
  Handles in use, one list entry per owner.  \<open>owned\<close> runs the operations the way safe code
  does: a handle is made by \<open>new\<close>, \<open>clone\<close> or a successful \<open>try_inc\<close>, and given up by
  \<open>drop\<close>.  A program never holds 2^64 handles of 8 bytes each.
\<close>

inductive owned :: "'a arc_heap \<Rightarrow> ptr list \<Rightarrow> bool" where
  start: "owned (arc_empty room w) []"
| create: "owned h os \<Longrightarrow> arc_new x h = Inr (p, h') \<Longrightarrow> Suc (length os) < 2 ^ 64 \<Longrightarrow>
    owned h' (p # os)"
| clone: "owned h os \<Longrightarrow> p \<in> set os \<Longrightarrow> arc_clone p h = Inr (p', h') \<Longrightarrow>
    Suc (length os) < 2 ^ 64 \<Longrightarrow> owned h' (p' # os)"
| inc: "owned h os \<Longrightarrow> p \<in> set os \<Longrightarrow> try_inc checks p h = Inr (True, h') \<Longrightarrow>
    Suc (length os) < 2 ^ 64 \<Longrightarrow> owned h' (p # os)"
| modify: "owned h os \<Longrightarrow> p \<in> set os \<Longrightarrow> arc_modify p f h = Inr h' \<Longrightarrow> owned h' os"
| release: "owned h os \<Longrightarrow> p \<in> set os \<Longrightarrow> arc_drop True p h = Inr h' \<Longrightarrow> owned h' (remove1 p os)"

definition owner_inv :: "'a arc_heap \<Rightarrow> ptr list \<Rightarrow> bool" where
  "owner_inv h os \<longleftrightarrow> dom (ah_cells h) = set os \<and> length os < 2 ^ 64 \<and> 0 < ah_next h \<and>
     (\<forall>p \<in> set os. 0 < p \<and> p < ah_next h \<and> arc_cnt h p = of_nat (count_list os p))"

lemma count_list_bound: "count_list xs x \<le> length xs"
  by (induction xs) auto

lemma count_list_remove1:
  "count_list (remove1 x xs) y = (if x = y then count_list xs y - 1 else count_list xs y)"
  by (induction xs) auto

lemma set_remove1_count: "set (remove1 x xs) = (if count_list xs x = 1 then set xs - {x} else set xs)"
proof (induction xs)
  case (Cons y ys)
  then show ?case by (auto simp: count_list_0_iff)
qed simp

lemma of_nat_eq_one: "n < 2 ^ 64 \<Longrightarrow> (of_nat n :: usize) = 1 \<longleftrightarrow> n = 1"
  by (auto dest: arg_cong [of _ _ unat] simp: unat_of_nat)

lemma owner_cellE:
  assumes "owner_inv h os" "p \<in> set os"
  obtains c where "ah_cells h p = Some c" "p \<noteq> 0" "arc_count c = of_nat (count_list os p)"
  using assms by (fastforce simp: owner_inv_def arc_cnt_def)

lemma owner_live: "owner_inv h os \<Longrightarrow> p \<in> set os \<Longrightarrow> arc_live h p"
  by (auto simp: owner_inv_def arc_live_def)

text \<open>A handle more, with the count raised to match.\<close>

lemma owner_inv_more:
  assumes inv: "owner_inv h os" and p: "p \<in> set os" and len: "Suc (length os) < 2 ^ 64"
    and c: "ah_cells h p = Some c"
  shows "owner_inv ((arc_set_count p (arc_count c + 1) c h)\<lparr>ah_weak := w\<rparr>) (p # os)"
  using assms by (auto simp: owner_inv_def arc_set_count_def arc_cnt_def)

lemma owner_inv_owned: "owned h os \<Longrightarrow> owner_inv h os"
proof (induction rule: owned.induct)
  case (start room w)
  show ?case by (simp add: owner_inv_def arc_empty_def)
next
  case (create h os x p h')
  have p: "p = ah_next h" using create.hyps by (simp add: arc_new_def split: if_splits)
  then have "p \<notin> set os" using create.IH by (auto simp: owner_inv_def)
  moreover have "h' = h\<lparr>ah_cells := (ah_cells h)(p \<mapsto> \<lparr>arc_count = 1, arc_data = x\<rparr>),
      ah_next := Suc p, ah_room := ah_room h - 1\<rparr>"
    using create.hyps by (auto simp: arc_new_def split: if_splits)
  moreover have "dom (ah_cells h') = insert p (dom (ah_cells h))" using calculation by simp
  ultimately show ?case
    using create.IH create.hyps(3) p by (auto simp: owner_inv_def arc_cnt_def count_list_0_iff)
next
  case (clone h os p p' h')
  obtain c where c: "ah_cells h p = Some c" "p \<noteq> 0"
    using clone.IH clone.hyps(2) by (rule owner_cellE)
  with clone.hyps have "p' = p" "h' = arc_set_count p (arc_count c + 1) c h"
    by (auto simp: arc_clone_def)
  with owner_inv_more [OF clone.IH clone.hyps(2) _ c(1), of "ah_weak h"] clone.hyps
  show ?case by (simp add: arc_set_count_def)
next
  case (inc h os p checks h')
  obtain c where c: "ah_cells h p = Some c" and live: "p \<noteq> 0"
    using inc.IH inc.hyps(2) by (rule owner_cellE)
  have "count_list os p \<noteq> 0" "count_list os p < 2 ^ 64 - 1"
    using inc count_list_bound [of os p] by (auto simp: count_list_0_iff)
  moreover have "arc_count c = of_nat (count_list os p)"
    using inc c by (auto simp: owner_inv_def arc_cnt_def)
  ultimately have "arc_count c \<noteq> 0 \<and> \<not> (checks \<and> 2 ^ 64 \<le> unat (arc_count c) + 1)"
    using unat_of_nat_fits [of "count_list os p", where 'a = 64] by (auto simp: unat_eq_0)
  then obtain w where "h' = (arc_set_count p (arc_count c + 1) c h)\<lparr>ah_weak := w\<rparr>"
    using try_inc_loop_live [of p h c checks "Suc (length (ah_weak h))"] live c inc.hyps(3)
    by (auto simp: try_inc_def simp del: try_inc_loop.simps)
  with owner_inv_more [OF inc.IH inc.hyps(2) inc.hyps(4) c] show ?case by simp
next
  case (modify h os p f h')
  obtain c where c: "ah_cells h p = Some c" "p \<noteq> 0"
    using modify.IH modify.hyps(2) by (rule owner_cellE)
  then have "h' = h\<lparr>ah_cells := (ah_cells h)(p \<mapsto> c\<lparr>arc_data := f (arc_data c)\<rparr>)\<rparr>"
    using modify.hyps(3) by (simp add: arc_modify_def)
  with modify c show ?case by (auto simp: owner_inv_def arc_cnt_def)
next
  case (release h os p h')
  obtain c where c: "ah_cells h p = Some c" "p \<noteq> 0" "arc_count c = of_nat (count_list os p)"
    using release.IH release.hyps(2) by (rule owner_cellE)
  have bound: "count_list os p < 2 ^ 64" and pos: "0 < count_list os p"
    using release count_list_bound [of os p] by (auto simp: owner_inv_def count_list_0_iff neq0_conv)
  have "(of_nat (count_list os p) :: usize) - 1 = of_nat (count_list os p - 1)"
    using pos by (simp add: of_nat_diff)
  then have "h' = (if count_list os p = 1 then h\<lparr>ah_cells := (ah_cells h)(p := None)\<rparr>
      else arc_set_count p (of_nat (count_list os p - 1)) c h)"
    using release.hyps(3) c of_nat_eq_one [OF bound]
    by (auto simp: arc_drop_def arc_dec_def arc_deallocate_def arc_set_count_def split: if_splits)
  with release.IH c show ?case
    by (auto simp: owner_inv_def arc_cnt_def arc_set_count_def set_remove1_count count_list_remove1
        length_remove1 split: if_splits dest: in_set_remove1 [THEN iffD1, rotated])
qed

section \<open>Properties of reference counting\<close>

text \<open>
  C28.  Reference counting is sound in the \<open>std-shim\<close> build: after any sequence of creations,
  clones, successful \<open>try_inc\<close>s, stores and drops, a cell exists exactly while someone owns a
  handle to it, its count is the number of owners, and every operation on an owned handle
  succeeds; so no owner ever reaches a freed cell and no cell outlives its last owner.
\<close>

theorem arc_counts_owners:
  assumes "owned h os"
  shows "dom (ah_cells h) = set os \<and>
    (\<forall>p \<in> set os. ref_count p h = Inr (of_nat (count_list os p)) \<and>
       arc_get p h = Inr (arc_val h p) \<and> (\<exists>h'. arc_clone p h = Inr (p, h')) \<and>
       (\<exists>h'. arc_drop True p h = Inr h'))"
proof -
  have inv: "owner_inv h os" using assms by (rule owner_inv_owned)
  have "ref_count p h = Inr (of_nat (count_list os p)) \<and>
      arc_get p h = Inr (arc_val h p) \<and> (\<exists>h'. arc_clone p h = Inr (p, h')) \<and>
      (\<exists>h'. arc_drop True p h = Inr h')" if "p \<in> set os" for p
    using inv that by (rule owner_cellE) (auto simp: arc_defs arc_obs Let_def)
  with inv show ?thesis by (auto simp: owner_inv_def)
qed

theorem arc_counts_owners_witness:
  "\<exists>h :: nat arc_heap. owned h [1, 1] \<and> ref_count 1 h = Inr 2"
proof -
  obtain h1 where h1: "arc_new (42::nat) (arc_empty 5 [True]) = Inr (1, h1)"
    by (simp add: arc_new_def arc_empty_def)
  have o1: "owned h1 [1]" by (rule owned.create [OF owned.start h1]) simp
  obtain h2 where h2: "arc_clone 1 h1 = Inr (1, h2)"
    using arc_counts_owners [OF o1] by auto
  have o2: "owned h2 [1, 1]" by (rule owned.clone [OF o1 _ h2]) simp_all
  with arc_counts_owners [OF o2] show ?thesis by (intro exI [of _ h2]) simp
qed

text \<open>
  C25.  In the bare-metal build the last owner cannot let go: dropping a handle whose count is 1
  runs into \<open>unimplemented!()\<close>, while dropping one of several handles lowers the count by one
  and keeps the data.
\<close>

theorem bare_metal_last_drop_panics:
  assumes "arc_live h p"
  shows "arc_drop False p h =
    (if arc_cnt h p = 1 then Inl Unimplemented
     else Inr (h\<lparr>ah_cells := (ah_cells h)(p \<mapsto>
       \<lparr>arc_count = arc_cnt h p - 1, arc_data = arc_val h p\<rparr>)\<rparr>))"
  using assms by (auto simp: arc_defs arc_obs Let_def arc_inner_count_upd)

theorem bare_metal_last_drop_panics_witness:
  "rbind (arc_new (42::nat) (arc_empty 1 [])) (\<lambda>(p, h). arc_drop False p h) = Inl Unimplemented"
proof -
  define h where "h = \<lparr>ah_cells = [1 \<mapsto> \<lparr>arc_count = 1, arc_data = 42::nat\<rparr>], ah_next = Suc 1,
    ah_room = 0, ah_weak = []\<rparr>"
  have "arc_live h 1" "arc_cnt h 1 = 1" by (simp_all add: h_def arc_obs)
  with bare_metal_last_drop_panics [of h 1] show ?thesis
    by (simp add: arc_new_def arc_empty_def h_def)
qed

text \<open>
  C11.  \<open>try_inc\<close> on a live cell returns for every pattern of spurious failures and adds
  exactly one to the count; on a cell whose count has reached zero it refuses and changes nothing.
\<close>

theorem try_inc_adds_one:
  assumes "arc_live h p" "unat (arc_cnt h p) + 1 < 2 ^ 64"
  shows "\<exists>w. try_inc checks p h =
    Inr (if arc_cnt h p = 0 then (False, h)
         else (True, h\<lparr>ah_cells := (ah_cells h)(p \<mapsto>
           \<lparr>arc_count = arc_cnt h p + 1, arc_data = arc_val h p\<rparr>), ah_weak := w\<rparr>))"
proof -
  from assms obtain c where c: "p \<noteq> 0" "ah_cells h p = Some c" by (auto simp: arc_live_def)
  then have obs: "arc_cnt h p = arc_count c" "arc_val h p = arc_data c" by (simp_all add: arc_obs)
  show ?thesis
  proof (cases "arc_count c = 0")
    case True
    with c obs show ?thesis by (simp add: try_inc_def)
  next
    case False
    with try_inc_loop_live [of p h c checks "Suc (length (ah_weak h))"] c obs assms(2)
    show ?thesis by (auto simp: try_inc_def arc_set_count_def arc_inner_count_upd
        simp del: try_inc_loop.simps)
  qed
qed

theorem try_inc_adds_one_witness:
  "\<exists>h'. rbind (arc_new (42::nat) (arc_empty 1 [True, True])) (\<lambda>(p, h). try_inc True p h) =
     Inr (True, h') \<and> ah_cells h' 1 = Some \<lparr>arc_count = 2, arc_data = 42\<rparr>"
proof -
  define h where "h = \<lparr>ah_cells = [1 \<mapsto> \<lparr>arc_count = 1, arc_data = 42::nat\<rparr>], ah_next = Suc 1,
    ah_room = 0, ah_weak = [True, True]\<rparr>"
  have "arc_live h 1" "arc_cnt h 1 = 1" "arc_val h 1 = 42" by (simp_all add: h_def arc_obs)
  with try_inc_adds_one [of h 1 True] show ?thesis
    by (auto simp: arc_new_def arc_empty_def h_def)
qed

end
