(* ===== verification/Time_Slice.thy ===== *)
theory Time_Slice
  imports Prelude
begin

text \<open>
  Time and time-slice accounting: \<open>time/mod.rs\<close> (\<open>TimeSlice\<close>, \<open>Instant\<close>,
  \<open>Duration\<close>).  The atomics are plain fields of a record; the counter and frequency registers
  that \<open>Instant::now\<close> reads are arguments.  Operations with unchecked Rust arithmetic take the
  overflow-check setting of the build as their first argument.
\<close>

section \<open>Instants and durations\<close>

datatype instant = Instant (as_nanos: u64)
datatype duration = Duration (dur_as_nanos: u64)

text \<open>The derived orders compare the wrapped nanoseconds.\<close>

instantiation instant :: linorder
begin

definition less_eq_instant :: "instant \<Rightarrow> instant \<Rightarrow> bool" where
  "less_eq_instant a b \<longleftrightarrow> as_nanos a \<le> as_nanos b"

definition less_instant :: "instant \<Rightarrow> instant \<Rightarrow> bool" where
  "less_instant a b \<longleftrightarrow> as_nanos a < as_nanos b"

instance
  by standard (auto simp: less_eq_instant_def less_instant_def intro: instant.expand)

end

instantiation duration :: linorder
begin

definition less_eq_duration :: "duration \<Rightarrow> duration \<Rightarrow> bool" where
  "less_eq_duration a b \<longleftrightarrow> dur_as_nanos a \<le> dur_as_nanos b"

definition less_duration :: "duration \<Rightarrow> duration \<Rightarrow> bool" where
  "less_duration a b \<longleftrightarrow> dur_as_nanos a < dur_as_nanos b"

instance
  by standard (auto simp: less_eq_duration_def less_duration_def intro: duration.expand)

end

definition instant_from_nanos :: "u64 \<Rightarrow> instant" where
  "instant_from_nanos nanos = Instant nanos"

definition as_nanos_u128 :: "instant \<Rightarrow> u128" where
  "as_nanos_u128 i = ucast (as_nanos i)"

text \<open>\<open>Instant::now\<close>, from \<open>cntpct_el0\<close> and \<open>cntfrq_el0\<close>, with 128-bit intermediates.\<close>

definition instant_now :: "u64 \<Rightarrow> u64 \<Rightarrow> instant" where
  "instant_now cnt freq =
     Instant (if 0 < freq then ucast ((ucast cnt * 1000000000 :: u128) div ucast freq) else 0)"

definition duration_since :: "bool \<Rightarrow> instant \<Rightarrow> instant \<Rightarrow> duration res" where
  "duration_since checks self earlier =
     rbind (sub_u checks (as_nanos self) (as_nanos earlier)) (\<lambda>d. Inr (Duration d))"

definition instant_add :: "bool \<Rightarrow> instant \<Rightarrow> duration \<Rightarrow> instant res" where
  "instant_add checks self d =
     rbind (add_u checks (as_nanos self) (dur_as_nanos d)) (\<lambda>n. Inr (Instant n))"

definition from_nanos :: "u64 \<Rightarrow> duration" where
  "from_nanos nanos = Duration nanos"

definition from_micros :: "bool \<Rightarrow> u64 \<Rightarrow> duration res" where
  "from_micros checks micros = rbind (mul_u checks micros 1000) (\<lambda>n. Inr (Duration n))"

definition from_millis :: "bool \<Rightarrow> u64 \<Rightarrow> duration res" where
  "from_millis checks millis = rbind (mul_u checks millis 1000000) (\<lambda>n. Inr (Duration n))"

definition dur_as_nanos_u128 :: "duration \<Rightarrow> u128" where
  "dur_as_nanos_u128 d = ucast (dur_as_nanos d)"

definition as_micros :: "duration \<Rightarrow> u64" where
  "as_micros d = dur_as_nanos d div 1000"

definition as_millis :: "duration \<Rightarrow> u64" where
  "as_millis d = dur_as_nanos d div 1000000"

definition TIMER_FREQUENCY_HZ :: u32 where
  "TIMER_FREQUENCY_HZ = 1000"

definition DEFAULT_QUANTUM_NS :: u64 where
  "DEFAULT_QUANTUM_NS = 1000000"

section \<open>Time slices\<close>

record time_slice =
  ts_vruntime :: u64
  ts_slice_start :: u64
  ts_quantum :: u64
  ts_priority :: u32

definition calculate_quantum :: "u8 \<Rightarrow> u64" where
  "calculate_quantum priority =
     (let base_quantum = DEFAULT_QUANTUM_NS
      in if priority \<le> 63 then base_quantum div 2
         else if priority \<le> 127 then base_quantum
         else if priority \<le> 191 then base_quantum * 2
         else base_quantum * 4)"

definition calculate_priority_factor :: "u8 \<Rightarrow> u32" where
  "calculate_priority_factor priority =
     (if priority \<le> 63 then 500
      else if priority \<le> 127 then 1000
      else if priority \<le> 191 then 1500
      else 2000)"

definition new_time_slice :: "u8 \<Rightarrow> time_slice" where
  "new_time_slice priority =
     \<lparr>ts_vruntime = 0, ts_slice_start = 0, ts_quantum = calculate_quantum priority,
      ts_priority = ucast priority\<rparr>"

definition start_slice :: "instant \<Rightarrow> time_slice \<Rightarrow> time_slice" where
  "start_slice current_time ts = ts\<lparr>ts_slice_start := as_nanos current_time\<rparr>"

definition update_vruntime :: "bool \<Rightarrow> instant \<Rightarrow> time_slice \<Rightarrow> (bool \<times> time_slice) res" where
  "update_vruntime checks current_time ts =
     (let slice_start = ts_slice_start ts;
          quantum = ts_quantum ts;
          priority = ts_priority ts
      in if slice_start = 0 then Inr (False, ts)
         else
           (let elapsed = saturating_sub (as_nanos current_time) slice_start;
                priority_factor = calculate_priority_factor (ucast priority)
            in rbind (mul_u checks elapsed 1000) (\<lambda>scaled.
               rbind (div_u scaled (ucast priority_factor)) (\<lambda>virtual_elapsed.
                 Inr (quantum \<le> elapsed,
                      ts\<lparr>ts_vruntime := ts_vruntime ts + virtual_elapsed\<rparr>)))))"

definition ts_set_priority :: "u8 \<Rightarrow> time_slice \<Rightarrow> time_slice" where
  "ts_set_priority new_priority ts =
     ts\<lparr>ts_priority := ucast new_priority, ts_quantum := calculate_quantum new_priority\<rparr>"

definition set_custom_duration :: "duration \<Rightarrow> time_slice \<Rightarrow> time_slice" where
  "set_custom_duration d ts = ts\<lparr>ts_quantum := dur_as_nanos d\<rparr>"

definition ts_get_priority :: "time_slice \<Rightarrow> u8" where
  "ts_get_priority ts = ucast (ts_priority ts)"

text \<open>\<open>TimeSlice::should_preempt\<close>: an update at the current instant.\<close>

definition ts_should_preempt :: "bool \<Rightarrow> u64 \<Rightarrow> u64 \<Rightarrow> time_slice \<Rightarrow> (bool \<times> time_slice) res" where
  "ts_should_preempt checks cnt freq ts = update_vruntime checks (instant_now cnt freq) ts"

section \<open>Lemmas\<close>

lemmas time_defs = instant_now_def duration_since_def instant_add_def from_micros_def
  from_millis_def as_micros_def as_millis_def new_time_slice_def start_slice_def
  ts_set_priority_def set_custom_duration_def ts_get_priority_def

lemma priority_factor_range: "calculate_priority_factor p \<in> {500, 1000, 1500, 2000}"
  by (simp add: calculate_priority_factor_def)

lemma unat_priority_factor:
  "unat (ucast (calculate_priority_factor p) :: u64) = unat (calculate_priority_factor p)"
  by (simp add: calculate_priority_factor_def)

lemma priority_factor_pos: "0 < unat (calculate_priority_factor p)"
  by (simp add: calculate_priority_factor_def)

lemma priority_factor_nonzero [simp]: "(ucast (calculate_priority_factor p) :: u64) \<noteq> 0"
  by (simp add: calculate_priority_factor_def)

lemma priority_factor_mono:
  "p \<le> p' \<Longrightarrow> unat (calculate_priority_factor p) \<le> unat (calculate_priority_factor p')"
  by (auto simp: calculate_priority_factor_def)

text \<open>The virtual time an elapsed interval is charged as, in exact arithmetic.\<close>

definition virtual_time :: "nat \<Rightarrow> u8 \<Rightarrow> nat" where
  "virtual_time elapsed p = elapsed * 1000 div unat (calculate_priority_factor p)"

lemma virtual_time_antimono: "p \<le> p' \<Longrightarrow> virtual_time e p' \<le> virtual_time e p"
  unfolding virtual_time_def by (intro div_le_mono2 priority_factor_pos priority_factor_mono)

lemma update_vruntime_fits:
  assumes "ts_slice_start ts \<noteq> 0" "(unat now - unat (ts_slice_start ts)) * 1000 < 2 ^ 64"
  shows "update_vruntime checks (Instant now) ts =
    Inr (unat (ts_quantum ts) \<le> unat now - unat (ts_slice_start ts),
         ts\<lparr>ts_vruntime := ts_vruntime ts +
           of_nat (virtual_time (unat now - unat (ts_slice_start ts)) (ts_get_priority ts))\<rparr>)"
proof -
  let ?e = "saturating_sub now (ts_slice_start ts)"
  let ?f = "ucast (calculate_priority_factor (ucast (ts_priority ts))) :: u64"
  have fit: "unat ?e * unat (1000 :: u64) < 2 ^ LENGTH(64)"
    using assms(2) by (simp add: unat_saturating_sub)
  have "unat (?e * 1000 div ?f) =
      virtual_time (unat now - unat (ts_slice_start ts)) (ts_get_priority ts)"
    using mul_u_fits(2) [OF fit]
    by (simp add: unat_div unat_saturating_sub virtual_time_def ts_get_priority_def
        unat_priority_factor)
  then have "?e * 1000 div ?f =
      of_nat (virtual_time (unat now - unat (ts_slice_start ts)) (ts_get_priority ts))"
    by (rule word_eq_of_nat)
  then show ?thesis
    using assms(1) mul_u_fits(1) [OF fit]
    by (simp add: update_vruntime_def Let_def word_le_nat_alt unat_saturating_sub)
qed

lemma unat_instant_now:
  assumes "freq \<noteq> 0"
  shows "unat (as_nanos (instant_now cnt freq)) = unat cnt * 1000000000 div unat freq mod 2 ^ 64"
proof -
  have "unat cnt < 2 ^ 64" using unsigned_less [of cnt] by simp
  then have fit: "unat (ucast cnt :: u128) * unat (1000000000 :: u128) < 2 ^ LENGTH(128)"
    by (simp add: unat_ucast_up)
  have "unat (ucast cnt * 1000000000 div ucast freq :: u128) = unat cnt * 1000000000 div unat freq"
    using mul_u_fits(2) [OF fit] by (simp add: unat_div unat_ucast_up)
  with assms show ?thesis
    by (simp add: instant_now_def word_gt_0 unsigned_ucast_eq take_bit_eq_mod)
qed

section \<open>Properties of time keeping\<close>

text \<open>
  C31.  A slice that was started at a non-zero instant is reported as expired exactly when the
  quantum of the thread has passed, in builds with and without overflow checks alike, as long as
  the elapsed time is below 2^64/1000 ns; the update charges the elapsed time scaled by the
  priority factor and changes nothing else.
\<close>

theorem slice_expiry_exact:
  assumes "t0 \<noteq> 0" "(unat t1 - unat t0) * 1000 < 2 ^ 64"
  shows "update_vruntime checks (Instant t1) (start_slice (Instant t0) ts) =
    Inr (unat (ts_quantum ts) \<le> unat t1 - unat t0,
         ts\<lparr>ts_slice_start := t0,
            ts_vruntime := ts_vruntime ts +
              of_nat (virtual_time (unat t1 - unat t0) (ts_get_priority ts))\<rparr>)"
  using update_vruntime_fits [of "start_slice (Instant t0) ts" t1 checks] assms
  by (simp add: start_slice_def ts_get_priority_def)

theorem slice_expiry_exact_witness:
  "update_vruntime True (Instant 3000000) (start_slice (Instant 1000000) (new_time_slice 128)) =
     Inr (True, \<lparr>ts_vruntime = 1333333, ts_slice_start = 1000000, ts_quantum = 2000000,
                 ts_priority = 128\<rparr>)"
  using slice_expiry_exact [of 1000000 3000000 True "new_time_slice 128"]
  by (simp add: new_time_slice_def calculate_quantum_def DEFAULT_QUANTUM_NS_def virtual_time_def
      calculate_priority_factor_def ts_get_priority_def)

text \<open>
  Priorities weigh run time the right way round: over the same interval a thread of higher
  priority has at least the quantum of, and is charged at most the virtual run time of, a thread
  of lower priority.
\<close>

theorem priority_weighting:
  assumes "p \<le> p'" "t0 \<noteq> 0" "(unat t1 - unat t0) * 1000 < 2 ^ 64"
    and "update_vruntime checks (Instant t1) (start_slice (Instant t0) (new_time_slice p)) = Inr (b, ts)"
    and "update_vruntime checks (Instant t1) (start_slice (Instant t0) (new_time_slice p')) = Inr (b', ts')"
  shows "ts_quantum ts \<le> ts_quantum ts' \<and> ts_vruntime ts' \<le> ts_vruntime ts \<and> (b' \<longrightarrow> b)"
proof -
  let ?e = "unat t1 - unat t0"
  have fits: "virtual_time ?e q < 2 ^ 64" for q
    using assms(3) div_le_dividend [of "?e * 1000"] unfolding virtual_time_def
    by (rule le_less_trans [rotated])
  have q: "ts_quantum ts = calculate_quantum p" "ts_quantum ts' = calculate_quantum p'"
    "ts_vruntime ts = of_nat (virtual_time ?e p)" "ts_vruntime ts' = of_nat (virtual_time ?e p')"
    "b = (unat (calculate_quantum p) \<le> ?e)" "b' = (unat (calculate_quantum p') \<le> ?e)"
    using assms(4,5) update_vruntime_fits [of "start_slice (Instant t0) (new_time_slice p)" t1 checks]
      update_vruntime_fits [of "start_slice (Instant t0) (new_time_slice p')" t1 checks] assms(2,3)
    by (auto simp: start_slice_def new_time_slice_def ts_get_priority_def)
  have quantum: "calculate_quantum p \<le> calculate_quantum p'"
    using assms(1) by (auto simp: calculate_quantum_def DEFAULT_QUANTUM_NS_def)
  moreover have "ts_vruntime ts' \<le> ts_vruntime ts"
    using fits virtual_time_antimono [OF assms(1), of ?e] unfolding q word_le_nat_alt
    by (simp add: unat_of_nat_fits)
  ultimately show ?thesis using q by (auto simp: word_le_nat_alt)
qed

theorem priority_weighting_witness:
  "\<exists>b ts b' ts'.
     update_vruntime False (Instant 9) (start_slice (Instant 1) (new_time_slice 10)) = Inr (b, ts) \<and>
     update_vruntime False (Instant 9) (start_slice (Instant 1) (new_time_slice 200)) = Inr (b', ts') \<and>
     ts_quantum ts \<le> ts_quantum ts' \<and> ts_vruntime ts' \<le> ts_vruntime ts"
proof -
  have "\<exists>b ts. update_vruntime False (Instant 9) (start_slice (Instant 1) (new_time_slice p)) = Inr (b, ts)" for p
    using slice_expiry_exact [of 1 9 False "new_time_slice p"] by auto
  then obtain b ts b' ts' where
    "update_vruntime False (Instant 9) (start_slice (Instant 1) (new_time_slice 10)) = Inr (b, ts)"
    "update_vruntime False (Instant 9) (start_slice (Instant 1) (new_time_slice 200)) = Inr (b', ts')"
    by blast
  with priority_weighting [of 10 200 1 9 False b ts b' ts'] show ?thesis by auto
qed

text \<open>
  The clock: for a running counter, the instant is the counter value in nanoseconds, exact
  up to the final truncation to 64 bits; no intermediate product overflows, and the clock does
  not run backwards before that truncation wraps.
\<close>

theorem instant_now_exact:
  assumes "freq \<noteq> 0"
  shows "unat (as_nanos (instant_now cnt freq)) = unat cnt * 10 ^ 9 div unat freq mod 2 ^ 64 \<and>
    (\<forall>cnt'. cnt \<le> cnt' \<and> unat cnt' * 10 ^ 9 div unat freq < 2 ^ 64 \<longrightarrow>
       instant_now cnt freq \<le> instant_now cnt' freq)"
proof -
  have "instant_now cnt freq \<le> instant_now cnt' freq"
    if "cnt \<le> cnt'" "unat cnt' * 10 ^ 9 div unat freq < 2 ^ 64" for cnt'
  proof -
    have "unat cnt * 10 ^ 9 div unat freq \<le> unat cnt' * 10 ^ 9 div unat freq"
      using that(1) by (intro div_le_mono) (simp add: word_le_nat_alt)
    with that(2) show ?thesis
      by (simp add: less_eq_instant_def word_le_nat_alt unat_instant_now [OF assms])
  qed
  then show ?thesis using unat_instant_now [OF assms, of cnt] by simp
qed

theorem instant_now_exact_witness:
  "unat (as_nanos (instant_now 62500000 62500000)) = 10 ^ 9 \<and>
   instant_now 62500000 62500000 \<le> instant_now 62500001 62500000"
  using instant_now_exact [of 62500000 62500000] by simp

text \<open>
  C7.  A second update within one slice charges the interval since the start of the slice again:
  after updates at \<open>t1\<close> and \<open>t2\<close> the thread has been charged for \<open>t1 - t0\<close> and once
  more for the whole of \<open>t2 - t0\<close>, although it ran for \<open>t2 - t0\<close> only.
\<close>

theorem repeated_update_charges_again:
  assumes "t0 \<noteq> 0" "(unat t1 - unat t0) * 1000 < 2 ^ 64" "(unat t2 - unat t0) * 1000 < 2 ^ 64"
  shows "rbind (update_vruntime checks (Instant t1) (start_slice (Instant t0) ts))
      (\<lambda>(_, ts1). update_vruntime checks (Instant t2) ts1) =
    Inr (unat (ts_quantum ts) \<le> unat t2 - unat t0,
         ts\<lparr>ts_slice_start := t0,
            ts_vruntime := ts_vruntime ts +
              of_nat (virtual_time (unat t1 - unat t0) (ts_get_priority ts)) +
              of_nat (virtual_time (unat t2 - unat t0) (ts_get_priority ts))\<rparr>)"
  using update_vruntime_fits [of "start_slice (Instant t0) ts" t1 checks] assms
    update_vruntime_fits [of "ts\<lparr>ts_slice_start := t0, ts_vruntime := v\<rparr>" t2 checks for v]
  by (simp add: start_slice_def ts_get_priority_def)

theorem repeated_update_charges_again_witness:
  "rbind (update_vruntime True (Instant 1001) (start_slice (Instant 1) (new_time_slice 64)))
      (\<lambda>(_, ts1). update_vruntime True (Instant 2001) ts1) =
    Inr (False, (new_time_slice 64)\<lparr>ts_slice_start := 1, ts_vruntime := 3000\<rparr>)"
  using repeated_update_charges_again [of 1 1001 2001 True "new_time_slice 64"]
  by (simp add: new_time_slice_def calculate_quantum_def DEFAULT_QUANTUM_NS_def virtual_time_def
      calculate_priority_factor_def ts_get_priority_def)

text \<open>
  C8.  Instants and durations fit together in every build: an addition that returns is undone by
  \<open>duration_since\<close>, and a duration built from milliseconds or microseconds that fits 64 bits
  reads back as the same number.  For an \<open>earlier\<close> after \<open>self\<close>, \<open>duration_since\<close>
  panics only with overflow checks; without them it returns the difference wrapped.
\<close>

theorem instant_duration_roundtrip:
  "(instant_add checks i d = Inr j \<longrightarrow> duration_since checks j i = Inr d) \<and>
   (unat m * 1000000 < 2 ^ 64 \<longrightarrow>
      (\<exists>d. from_millis checks m = Inr d \<and> as_millis d = m)) \<and>
   (unat m * 1000 < 2 ^ 64 \<longrightarrow>
      (\<exists>d. from_micros checks m = Inr d \<and> as_micros d = m)) \<and>
   (i < j \<longrightarrow> duration_since True i j = Inl ArithOverflow \<and>
      duration_since False i j = Inr (Duration (as_nanos i - as_nanos j)))"
proof -
  have add: "instant_add checks i d = Inr j \<longrightarrow> duration_since checks j i = Inr d"
    by (cases d) (auto simp: instant_add_def duration_since_def add_u_def sub_u_def rbind_eq_Inr
        word_less_nat_alt unat_word_ariths(1) split: if_splits)
  have scale: "m * c div c = m \<and> mul_u checks m c = Inr (m * c)"
    if "unat m * unat c < 2 ^ 64" "0 < unat c" for c :: u64
  proof
    have "unat (m * c div c) = unat m"
      using mul_u_fits(2) [of m c] that by (simp add: unat_div)
    then show "m * c div c = m" by (simp add: word_unat_eq_iff)
  qed (use mul_u_fits(1) [of m c] that in simp)
  show ?thesis
    using add scale [of 1000000] scale [of 1000]
    by (auto simp: from_millis_def as_millis_def from_micros_def as_micros_def
        duration_since_def sub_u_def less_instant_def)
qed

theorem instant_duration_roundtrip_witness:
  "instant_add True (Instant 5) (Duration 7) = Inr (Instant 12) \<and>
   duration_since True (Instant 12) (Instant 5) = Inr (Duration 7) \<and>
   (\<exists>d. from_millis True 3 = Inr d \<and> as_millis d = 3) \<and>
   duration_since False (Instant 5) (Instant 12) = Inr (Duration (5 - 12))"
proof -
  have "instant_add True (Instant 5) (Duration 7) = Inr (Instant 12)"
    by (simp add: instant_add_def add_u_def)
  moreover have "Instant 5 < Instant 12" by (simp add: less_instant_def)
  ultimately show ?thesis
    using instant_duration_roundtrip [of True "Instant 5" "Duration 7" "Instant 12" 3]
    by (simp add: less_instant_def)
qed

end
