(* ===== verification/Bump_Alloc.thy ===== *)
theory Bump_Alloc
  imports Prelude
begin

text \<open>
  The global allocator of the bare-metal kernels (\<open>BumpAllocator\<close> in \<open>examples/rpi_kernel.rs\<close>
  and the other example kernels) and the interface \<open>block_allocator\<close> that the stack pool
  relies on.  \<open>heap_start\<close> is the address of the static \<open>HEAP\<close>, known only to the linker;
  \<open>repr(align(16))\<close> makes it a multiple of 16.
\<close>

record bump_heap =
  heap_start :: u64
  heap_next :: usize

definition HEAP_SIZE :: usize where
  "HEAP_SIZE = 16 * 1024 * 1024"

text \<open>
  One turn of the loop of \<open>alloc\<close>, for the value \<open>current\<close> it loaded: the null pointer when the
  heap is exhausted, else the block's offset and the new value for \<open>next\<close>.
\<close>

definition bump_candidate :: "usize \<Rightarrow> usize \<Rightarrow> usize \<Rightarrow> (usize \<times> usize) option" where
  "bump_candidate sz algn current =
     (let aligned = (current + algn - 1) AND NOT (algn - 1);
          new_next = aligned + sz
      in if HEAP_SIZE < new_next then None else Some (aligned, new_next))"

text \<open>
  \<open>BumpAllocator::alloc\<close>.  Between the load of \<open>next\<close> and the compare-exchange another
  context may have allocated; \<open>races\<close> lists, for the coming turns, the value it left in
  \<open>next\<close>.  Once the list is used up nobody interferes.
\<close>

primrec bump_alloc ::
  "usize list \<Rightarrow> bump_heap \<Rightarrow> usize \<Rightarrow> usize \<Rightarrow> u64 \<times> bump_heap" where
  "bump_alloc [] h sz algn =
     (case bump_candidate sz algn (heap_next h) of
        None \<Rightarrow> (0, h)
      | Some (aligned, new_next) \<Rightarrow> (heap_start h + aligned, h\<lparr>heap_next := new_next\<rparr>))"
| "bump_alloc (r # races) h sz algn =
     (case bump_candidate sz algn (heap_next h) of
        None \<Rightarrow> (0, h)
      | Some (aligned, new_next) \<Rightarrow>
          if r = heap_next h then (heap_start h + aligned, h\<lparr>heap_next := new_next\<rparr>)
          else bump_alloc races (h\<lparr>heap_next := r\<rparr>) sz algn)"

definition bump_dealloc :: "bump_heap \<Rightarrow> u64 \<Rightarrow> bump_heap" where
  "bump_dealloc h p = h"

section \<open>The interface of a block allocator\<close>

text \<open>
  \<open>taken\<close> is the set of byte addresses handed out so far.  A block that is returned is non-null
  and made of addresses nobody holds; a null result changes nothing.
\<close>

locale block_allocator =
  fixes alloc :: "'h \<Rightarrow> usize \<Rightarrow> usize \<Rightarrow> u64 \<times> 'h"
    and taken :: "'h \<Rightarrow> nat set"
    and ok :: "'h \<Rightarrow> bool"
  assumes alloc_ok: "ok h \<Longrightarrow> alloc h sz algn = (p, h') \<Longrightarrow> algn = 2 ^ k \<Longrightarrow> k \<le> 20 \<Longrightarrow>
      unat sz < 2 ^ 62 \<Longrightarrow> ok h'"
    and alloc_fresh: "ok h \<Longrightarrow> alloc h sz algn = (p, h') \<Longrightarrow> algn = 2 ^ k \<Longrightarrow> k \<le> 20 \<Longrightarrow>
      unat sz < 2 ^ 62 \<Longrightarrow> p \<noteq> 0 \<Longrightarrow>
      region p sz \<inter> taken h = {} \<and> taken h \<union> region p sz \<subseteq> taken h' \<and> unat p + unat sz < 2 ^ 64"
    and alloc_null: "ok h \<Longrightarrow> alloc h sz algn = (0, h') \<Longrightarrow> algn = 2 ^ k \<Longrightarrow> k \<le> 20 \<Longrightarrow>
      unat sz < 2 ^ 62 \<Longrightarrow> taken h' = taken h"

text \<open>A sequence of requests, each a size and the exponent of a power-of-two alignment.\<close>

primrec alloc_all ::
  "('h \<Rightarrow> usize \<Rightarrow> usize \<Rightarrow> u64 \<times> 'h) \<Rightarrow> 'h \<Rightarrow> (usize \<times> nat) list \<Rightarrow> (u64 \<times> usize) list" where
  "alloc_all alloc h [] = []"
| "alloc_all alloc h (r # rs) =
     (let (p, h') = alloc h (fst r) (2 ^ snd r) in (p, fst r) # alloc_all alloc h' rs)"

definition sane_request :: "usize \<times> nat \<Rightarrow> bool" where
  "sane_request r \<longleftrightarrow> snd r \<le> 20 \<and> unat (fst r) < 2 ^ 62"

definition blocks_apart :: "u64 \<times> usize \<Rightarrow> u64 \<times> usize \<Rightarrow> bool" where
  "blocks_apart b c \<longleftrightarrow> fst b = 0 \<or> fst c = 0 \<or> region (fst b) (snd b) \<inter> region (fst c) (snd c) = {}"

context block_allocator
begin

lemma alloc_all_avoids:
  assumes "ok h" "list_all sane_request rs" "(p, n) \<in> set (alloc_all alloc h rs)" "p \<noteq> 0"
  shows "region p n \<inter> taken h = {}"
  using assms
proof (induction rs arbitrary: h)
  case (Cons r rs)
  obtain q h' where q: "alloc h (fst r) (2 ^ snd r) = (q, h')" by fastforce
  have r: "snd r \<le> 20" "unat (fst r) < 2 ^ 62" using Cons.prems(2) by (auto simp: sane_request_def)
  have sub: "taken h \<subseteq> taken h'"
    using alloc_fresh [OF Cons.prems(1) q refl r] alloc_null [OF Cons.prems(1) _ refl r] q
    by (cases "q = 0") auto
  show ?case
  proof (cases "(p, n) = (q, fst r)")
    case True
    with alloc_fresh [OF Cons.prems(1) q refl r] Cons.prems(4) show ?thesis by simp
  next
    case False
    then have "region p n \<inter> taken h' = {}"
      using Cons.prems q alloc_ok [OF Cons.prems(1) q refl r] by (intro Cons.IH) auto
    with sub show ?thesis by blast
  qed
qed simp

lemma alloc_all_apart:
  assumes "ok h" "list_all sane_request rs"
  shows "sorted_wrt blocks_apart (alloc_all alloc h rs)"
  using assms
proof (induction rs arbitrary: h)
  case (Cons r rs)
  obtain q h' where q: "alloc h (fst r) (2 ^ snd r) = (q, h')" by fastforce
  have r: "snd r \<le> 20" "unat (fst r) < 2 ^ 62" using Cons.prems(2) by (auto simp: sane_request_def)
  have ok': "ok h'" by (rule alloc_ok [OF Cons.prems(1) q refl r])
  have "blocks_apart (q, fst r) b" if "b \<in> set (alloc_all alloc h' rs)" for b
    using alloc_all_avoids [of h' rs "fst b" "snd b"] alloc_fresh [OF Cons.prems(1) q refl r]
      that ok' Cons.prems(2)
    by (fastforce simp: blocks_apart_def)
  then show ?case using q Cons.IH [OF ok'] Cons.prems(2) by simp
qed simp

end

section \<open>The bump allocator is a block allocator\<close>

definition bump_ok :: "bump_heap \<Rightarrow> bool" where
  "bump_ok h \<longleftrightarrow> heap_next h \<le> HEAP_SIZE \<and> 0 < unat (heap_start h) \<and>
     unat (heap_start h) + unat HEAP_SIZE < 2 ^ 64"

definition bump_taken :: "bump_heap \<Rightarrow> nat set" where
  "bump_taken h = {unat (heap_start h) ..< unat (heap_start h) + unat (heap_next h)}"

lemma unat_HEAP_SIZE [simp]: "unat HEAP_SIZE = 16777216"
  by (simp add: HEAP_SIZE_def)

text \<open>A candidate block lies behind everything handed out and inside the heap.\<close>

lemma bump_candidate_Some:
  assumes "bump_candidate sz (2 ^ k) current = Some (aligned, new_next)"
    and "current \<le> HEAP_SIZE" "k \<le> 20" "unat sz < 2 ^ 62"
  shows "unat current \<le> unat aligned" "unat new_next = unat aligned + unat sz"
    "unat new_next \<le> unat HEAP_SIZE" "2 ^ k dvd unat aligned"
proof -
  have c: "unat current \<le> 16777216" using assms(2) by (simp add: word_le_nat_alt)
  have pk: "(2::nat) ^ k \<le> 2 ^ 20" using assms(3) by (intro power_increasing) auto
  then have fit: "unat current + 2 ^ k < 2 ^ 64" using c by simp
  have a: "aligned = (current + 2 ^ k - 1) AND NOT (2 ^ k - 1)" and n: "new_next = aligned + sz"
    and le: "new_next \<le> HEAP_SIZE"
    using assms(1) by (auto simp: bump_candidate_def Let_def split: if_splits)
  show "unat current \<le> unat aligned" "2 ^ k dvd unat aligned"
    using align_up [of k current] fit assms(3) unfolding a by simp_all
  have "unat aligned < unat current + 2 ^ k"
    using align_up(2) [of k current] fit assms(3) unfolding a by simp
  then have "unat aligned + unat sz < 2 ^ 64" using c pk assms(4) by simp
  then show "unat new_next = unat aligned + unat sz" using n by (simp add: unat_word_ariths(1))
  show "unat new_next \<le> unat HEAP_SIZE" using le by (simp add: word_le_nat_alt)
qed

text \<open>Without interference, and as the interface sees it.\<close>

lemma bump_alloc_step:
  assumes "bump_ok h" "bump_alloc [] h sz (2 ^ k) = (p, h')" "k \<le> 20" "unat sz < 2 ^ 62"
  shows "bump_ok h' \<and> heap_start h' = heap_start h \<and>
    (p = 0 \<longrightarrow> h' = h) \<and>
    (p \<noteq> 0 \<longrightarrow> (\<exists>aligned. p = heap_start h + aligned \<and> 2 ^ k dvd unat aligned \<and>
       unat p = unat (heap_start h) + unat aligned \<and> unat (heap_next h) \<le> unat aligned \<and>
       unat (heap_next h') = unat aligned + unat sz))"
proof (cases "bump_candidate sz (2 ^ k) (heap_next h)")
  case None
  with assms show ?thesis by simp
next
  case (Some c)
  obtain aligned new_next where c: "c = (aligned, new_next)" by (cases c)
  have b: "unat (heap_next h) \<le> unat aligned" "unat new_next = unat aligned + unat sz"
    "unat new_next \<le> unat HEAP_SIZE" "2 ^ k dvd unat aligned"
    using bump_candidate_Some [of sz k "heap_next h" aligned new_next] Some c assms
    by (auto simp: bump_ok_def)
  have "unat (heap_start h + aligned) = unat (heap_start h) + unat aligned"
    using b assms(1) by (simp add: unat_word_ariths(1) bump_ok_def)
  moreover have "unat (heap_start h) + unat aligned \<noteq> 0" using assms(1) by (simp add: bump_ok_def)
  ultimately have "heap_start h + aligned \<noteq> 0" by (metis unat_0)
  with \<open>unat (heap_start h + aligned) = _\<close> b Some c assms show ?thesis
    by (auto simp: bump_ok_def word_le_nat_alt)
qed

interpretation bump: block_allocator "bump_alloc []" bump_taken bump_ok
proof
  fix h sz algn p h' k
  assume a: "bump_ok h" "bump_alloc [] h sz algn = (p, h')" "algn = 2 ^ k" "k \<le> 20" "unat sz < 2 ^ 62"
  note step = bump_alloc_step [OF a(1) a(2) [unfolded a(3)] a(4,5)]
  show "bump_ok h'" using step by blast
  show "region p sz \<inter> bump_taken h = {} \<and> bump_taken h \<union> region p sz \<subseteq> bump_taken h' \<and>
      unat p + unat sz < 2 ^ 64" if "p \<noteq> 0"
    using step that by (auto simp: region_def bump_taken_def bump_ok_def word_le_nat_alt)
next
  fix h sz algn h' k
  assume a: "bump_ok h" "bump_alloc [] h sz algn = (0, h')" "algn = 2 ^ k" "k \<le> 20" "unat sz < 2 ^ 62"
  show "bump_taken h' = bump_taken h"
    using bump_alloc_step [OF a(1) a(2) [unfolded a(3)] a(4,5)] by simp
qed

section \<open>Properties\<close>

text \<open>
  C12. Blocks never overlap.  Whatever sequence of requests the bump allocator serves (sizes below
  \<open>2 ^ 62\<close>, alignments up to 1 MiB), any two of the non-null blocks it returns occupy disjoint
  addresses; since nothing is ever freed this holds for the whole run of the kernel.
\<close>

theorem bump_blocks_disjoint:
  assumes "bump_ok h" "list_all sane_request rs"
  shows "sorted_wrt blocks_apart (alloc_all (bump_alloc []) h rs)"
  by (rule bump.alloc_all_apart [OF assms])

theorem bump_blocks_disjoint_witness:
  "alloc_all (bump_alloc []) \<lparr>heap_start = 0x90010, heap_next = 0\<rparr> [(4096, 12), (100, 3), (4096, 12)]
     = [(0x90010, 4096), (0x91010, 100), (0x92010, 4096)] \<and>
   sorted_wrt blocks_apart
     (alloc_all (bump_alloc []) \<lparr>heap_start = 0x90010, heap_next = 0\<rparr>
        [(4096, 12), (100, 3), (4096, 12)])"
proof
  show "alloc_all (bump_alloc []) \<lparr>heap_start = 0x90010, heap_next = 0\<rparr> [(4096, 12), (100, 3), (4096, 12)]
     = [(0x90010, 4096), (0x91010, 100), (0x92010, 4096)]"
    by code_simp
  show "sorted_wrt blocks_apart
     (alloc_all (bump_alloc []) \<lparr>heap_start = 0x90010, heap_next = 0\<rparr>
        [(4096, 12), (100, 3), (4096, 12)])"
    by (rule bump_blocks_disjoint) (simp_all add: bump_ok_def HEAP_SIZE_def sane_request_def)
qed



text \<open>
  C14. Alignment is relative to the heap.  A block's offset into \<open>HEAP\<close> is aligned as requested, and
  nothing more: \<open>HEAP\<close> itself is only 16-byte aligned, so a page-aligned request is met exactly
  when the linker happens to place \<open>HEAP\<close> on a page boundary.
\<close>

theorem bump_alloc_alignment:
  assumes "bump_ok h" "bump_alloc [] h sz (2 ^ k) = (p, h')" "k \<le> 20" "unat sz < 2 ^ 62" "p \<noteq> 0"
  shows "2 ^ k dvd unat p \<longleftrightarrow> 2 ^ k dvd unat (heap_start h)"
proof -
  obtain aligned :: usize where "2 ^ k dvd unat aligned" "unat p = unat (heap_start h) + unat aligned"
    using bump_alloc_step [OF assms(1-4)] assms(5) by auto
  then show ?thesis by (metis dvd_add_left_iff)
qed

theorem bump_alloc_alignment_witness:
  "bump_alloc [] \<lparr>heap_start = 0x90010, heap_next = 0\<rparr> 4096 (2 ^ 12) =
     (0x90010, \<lparr>heap_start = 0x90010, heap_next = 4096\<rparr>) \<and>
   \<not> (2 ^ 12 dvd unat (0x90010 :: u64))"
proof -
  have run: "bump_alloc [] \<lparr>heap_start = 0x90010, heap_next = 0\<rparr> 4096 (2 ^ 12) =
     (0x90010, \<lparr>heap_start = 0x90010, heap_next = 4096\<rparr>)"
    by (simp add: bump_candidate_def HEAP_SIZE_def)
  have "2 ^ 12 dvd unat (0x90010 :: u64) \<longleftrightarrow>
      2 ^ 12 dvd unat (heap_start \<lparr>heap_start = 0x90010, heap_next = 0\<rparr>)"
    by (rule bump_alloc_alignment [OF _ run]) (simp_all add: bump_ok_def HEAP_SIZE_def)
  with run show ?thesis by simp
qed

end
