(* ===== verification/Stack_Pool.thy ===== *)
theory Stack_Pool
  imports Bump_Alloc "HOL-Library.Multiset"
begin

text \<open>
  The thread stacks of \<open>mem/stack_pool.rs\<close>: size classes, the geometry of a stack, its canary, and
  the pool with its four free lists behind spin locks.  The global allocator is a parameter
  (\<open>alloc\<close>, \<open>dealloc\<close>); what the pool relies on is the interface \<open>block_allocator\<close>, and the
  kernels' own bump allocator is an instance of it.
\<close>

section \<open>Size classes\<close>

datatype stack_size_class = Small | Medium | Large | ExtraLarge

primrec class_size :: "stack_size_class \<Rightarrow> usize" where
  "class_size Small = 4096"
| "class_size Medium = 16384"
| "class_size Large = 65536"
| "class_size ExtraLarge = 262144"

definition for_size :: "usize \<Rightarrow> stack_size_class option" where
  "for_size requested_size =
     (if requested_size \<le> 4096 then Some Small
      else if requested_size \<le> 16384 then Some Medium
      else if requested_size \<le> 65536 then Some Large
      else if requested_size \<le> 262144 then Some ExtraLarge
      else None)"

primrec size_class_index :: "stack_size_class \<Rightarrow> nat" where
  "size_class_index Small = 0"
| "size_class_index Medium = 1"
| "size_class_index Large = 2"
| "size_class_index ExtraLarge = 3"

section \<open>A stack\<close>

record stack =
  st_memory :: u64
  st_usable_size :: usize
  st_size_class :: stack_size_class
  st_has_guard_pages :: bool

definition stack_bottom :: "stack \<Rightarrow> u64" where
  "stack_bottom s =
     (let sp = st_memory s +
        (if st_has_guard_pages s then 4096 + st_usable_size s else st_usable_size s)
      in sp AND NOT 0xF)"

definition stack_top :: "stack \<Rightarrow> u64" where
  "stack_top s = (if st_has_guard_pages s then st_memory s + 4096 else st_memory s)"

definition install_canary :: "dmem \<Rightarrow> stack \<Rightarrow> u64 \<Rightarrow> dmem" where
  "install_canary mem s canary = mem(stack_top s := canary)"

definition check_canary :: "dmem \<Rightarrow> stack \<Rightarrow> u64 \<Rightarrow> bool" where
  "check_canary mem s expected_canary \<longleftrightarrow> mem (stack_top s) = expected_canary"

text \<open>
  \<open>Drop for Stack\<close>: with the \<open>std-shim\<close> feature the block goes back to the allocator; without it
  nothing happens.
\<close>

definition layout_from_size_align :: "usize \<Rightarrow> usize \<Rightarrow> (usize \<times> usize) option" where
  "layout_from_size_align sz algn =
     (if algn \<noteq> 0 \<and> algn AND (algn - 1) = 0 \<and> unat sz \<le> 2 ^ 63 - unat algn then Some (sz, algn)
      else None)"

definition drop_stack :: "bool \<Rightarrow> ('h \<Rightarrow> u64 \<Rightarrow> 'h) \<Rightarrow> 'h \<Rightarrow> stack \<Rightarrow> 'h" where
  "drop_stack std_shim dealloc h s =
     (if std_shim then
        (case layout_from_size_align (st_usable_size s) 4096 of
           None \<Rightarrow> h
         | Some layout \<Rightarrow> dealloc h (st_memory s))
      else h)"

section \<open>The pool\<close>

record stack_pool_stats =
  sp_allocated :: usize
  sp_deallocated :: usize
  sp_in_use :: usize

record stack_pool =
  free_stacks :: "stack list spin_mutex list"
  pool_stats :: stack_pool_stats

definition new_stack_pool :: stack_pool where
  "new_stack_pool = \<lparr>free_stacks = [mutex_new [], mutex_new [], mutex_new [], mutex_new []],
     pool_stats = \<lparr>sp_allocated = 0, sp_deallocated = 0, sp_in_use = 0\<rparr>\<rparr>"

text \<open>\<open>Vec::pop\<close> takes from the end, where \<open>Vec::push\<close> puts.\<close>

definition vec_pop :: "'a list \<Rightarrow> ('a \<times> 'a list) option" where
  "vec_pop xs = (if xs = [] then None else Some (last xs, butlast xs))"

definition stats_reused :: "stack_pool_stats \<Rightarrow> stack_pool_stats" where
  "stats_reused st = st\<lparr>sp_in_use := sp_in_use st + 1\<rparr>"

definition stats_new :: "stack_pool_stats \<Rightarrow> stack_pool_stats" where
  "stats_new st = st\<lparr>sp_allocated := sp_allocated st + 1, sp_in_use := sp_in_use st + 1\<rparr>"

definition stats_returned :: "stack_pool_stats \<Rightarrow> stack_pool_stats" where
  "stats_returned st = st\<lparr>sp_in_use := sp_in_use st - 1, sp_deallocated := sp_deallocated st + 1\<rparr>"

definition allocate_new_stack ::
  "('h \<Rightarrow> usize \<Rightarrow> usize \<Rightarrow> u64 \<times> 'h) \<Rightarrow> 'h \<Rightarrow> stack_pool \<Rightarrow> stack_size_class \<Rightarrow>
   stack option \<times> stack_pool \<times> 'h" where
  "allocate_new_stack alloc h p c =
     (let usable_size = class_size c in
      case layout_from_size_align usable_size 4096 of
        None \<Rightarrow> (None, p, h)
      | Some (sz, algn) \<Rightarrow>
          (case alloc h sz algn of
             (memory, h') \<Rightarrow>
               if memory = 0 then (None, p, h')
               else
                 (Some \<lparr>st_memory = memory, st_usable_size = usable_size, st_size_class = c,
                        st_has_guard_pages = False\<rparr>,
                  p\<lparr>pool_stats := stats_new (pool_stats p)\<rparr>, h')))"

definition pool_allocate ::
  "('h \<Rightarrow> usize \<Rightarrow> usize \<Rightarrow> u64 \<times> 'h) \<Rightarrow> 'h \<Rightarrow> stack_pool \<Rightarrow> stack_size_class \<Rightarrow>
   stack option \<times> stack_pool \<times> 'h" where
  "pool_allocate alloc h p c =
     (let class_index = size_class_index c in
      case mutex_try_lock (free_stacks p ! class_index) of
        None \<Rightarrow> allocate_new_stack alloc h p c
      | Some (free_list, guard) \<Rightarrow>
          (case vec_pop free_list of
             Some (s, rest) \<Rightarrow>
               (Some s,
                p\<lparr>free_stacks := (free_stacks p)[class_index := mutex_unlock rest guard],
                  pool_stats := stats_reused (pool_stats p)\<rparr>, h)
           | None \<Rightarrow>
               allocate_new_stack alloc h
                 (p\<lparr>free_stacks := (free_stacks p)[class_index := mutex_unlock free_list guard]\<rparr>) c))"

definition pool_deallocate ::
  "bool \<Rightarrow> ('h \<Rightarrow> u64 \<Rightarrow> 'h) \<Rightarrow> 'h \<Rightarrow> stack_pool \<Rightarrow> stack \<Rightarrow> stack_pool \<times> 'h" where
  "pool_deallocate std_shim dealloc h p s =
     (let class_index = size_class_index (st_size_class s) in
      case mutex_try_lock (free_stacks p ! class_index) of
        Some (free_list, guard) \<Rightarrow>
          (p\<lparr>free_stacks := (free_stacks p)[class_index := mutex_unlock (free_list @ [s]) guard],
             pool_stats := stats_returned (pool_stats p)\<rparr>, h)
      | None \<Rightarrow> (p, drop_stack std_shim dealloc h s))"

definition stack_pool_counts :: "stack_pool \<Rightarrow> usize \<times> usize \<times> usize" where
  "stack_pool_counts p =
     (sp_allocated (pool_stats p), sp_deallocated (pool_stats p), sp_in_use (pool_stats p))"

section \<open>The pool invariant\<close>

text \<open>
  \<open>used\<close> are the stacks that clients hold.  Every stack ever created is either free or held; their
  memory is disjoint and came from the allocator; a free list holds stacks of its class only; and
  the counters say how many there are.
\<close>

definition stack_region :: "stack \<Rightarrow> nat set" where
  "stack_region s = region (st_memory s) (st_usable_size s)"

definition stack_wf :: "nat set \<Rightarrow> stack \<Rightarrow> bool" where
  "stack_wf tk s \<longleftrightarrow> st_memory s \<noteq> 0 \<and> st_usable_size s = class_size (st_size_class s) \<and>
     \<not> st_has_guard_pages s \<and> unat (st_memory s) + unat (st_usable_size s) < 2 ^ 64 \<and>
     stack_region s \<subseteq> tk"

definition stacks_apart :: "stack multiset \<Rightarrow> bool" where
  "stacks_apart M \<longleftrightarrow> (\<forall>s \<in># M. \<forall>t \<in># M - {#s#}. stack_region s \<inter> stack_region t = {})"

definition pool_free :: "stack_pool \<Rightarrow> stack list" where
  "pool_free p = concat (map m_value (free_stacks p))"

definition pool_all :: "stack_pool \<Rightarrow> stack multiset \<Rightarrow> stack multiset" where
  "pool_all p used = mset (pool_free p) + used"

definition lists_ok :: "stack_pool \<Rightarrow> bool" where
  "lists_ok p \<longleftrightarrow> length (free_stacks p) = 4 \<and>
     (\<forall>i < 4. \<not> m_locked (free_stacks p ! i) \<and>
        (\<forall>s \<in> set (m_value (free_stacks p ! i)). size_class_index (st_size_class s) = i))"

definition pool_inv :: "nat set \<Rightarrow> stack_pool \<Rightarrow> stack multiset \<Rightarrow> bool" where
  "pool_inv tk p used \<longleftrightarrow> lists_ok p \<and>
     (\<forall>s \<in># pool_all p used. stack_wf tk s) \<and> stacks_apart (pool_all p used) \<and>
     sp_in_use (pool_stats p) = of_nat (size used) \<and>
     sp_allocated (pool_stats p) = of_nat (size (pool_all p used))"

lemmas pool_step_defs =
  pool_allocate_def pool_deallocate_def mutex_lock_def mutex_try_lock_def mutex_unlock_new vec_pop_def

lemma size_class_index_less [simp]: "size_class_index c < 4"
  by (cases c) auto

lemma class_size_bounds: "unat (class_size c) < 2 ^ 62" "0 < unat (class_size c)"
  by (cases c; simp)+

lemma layout_class [simp]: "layout_from_size_align (class_size c) 4096 = Some (class_size c, 2 ^ 12)"
  by (cases c) (simp_all add: layout_from_size_align_def)

lemma mset_concat_update:
  assumes "i < length xs"
  shows "mset (concat (map f (xs[i := y]))) + mset (f (xs ! i)) = mset (concat (map f xs)) + mset (f y)"
  using assms by (induction xs arbitrary: i) (auto split: nat.split)

lemma pool_free_update:
  assumes "lists_ok p" "p' = p\<lparr>free_stacks := (free_stacks p)[size_class_index c := m], pool_stats := st\<rparr>"
  shows "mset (pool_free p') + mset (m_value (free_stacks p ! size_class_index c)) =
    mset (pool_free p) + mset (m_value m)"
  using assms mset_concat_update [of "size_class_index c" "free_stacks p" m_value m]
  by (simp add: lists_ok_def pool_free_def)

lemma lists_ok_update:
  assumes "lists_ok p" "\<not> m_locked m"
    "\<And>s. s \<in> set (m_value m) \<Longrightarrow> size_class_index (st_size_class s) = size_class_index c"
  shows "lists_ok (p\<lparr>free_stacks := (free_stacks p)[size_class_index c := m], pool_stats := st\<rparr>)"
  using assms by (simp add: lists_ok_def nth_list_update)

text \<open>Without contention the two operations are a pop and a push on the class's free list.\<close>

lemma pool_allocate_uncontended:
  fixes c :: stack_size_class
  assumes "lists_ok p"
  defines "l \<equiv> m_value (free_stacks p ! size_class_index c)"
  shows "pool_allocate alloc h p c =
    (if l = [] then allocate_new_stack alloc h p c
     else (Some (last l),
       p\<lparr>free_stacks := (free_stacks p)[size_class_index c := mutex_new (butlast l)],
         pool_stats := stats_reused (pool_stats p)\<rparr>, h))"
proof -
  have u: "\<not> m_locked (free_stacks p ! size_class_index c)" using assms by (simp add: lists_ok_def)
  have same: "p\<lparr>free_stacks := (free_stacks p)[size_class_index c := mutex_new l]\<rparr> = p"
    using mutex_new_value [OF u] by (simp add: l_def)
  show ?thesis using u same
    by (cases "l = []") (simp_all add: pool_step_defs Let_def l_def [symmetric])
qed

lemma pool_deallocate_uncontended:
  fixes s :: stack
  assumes "lists_ok p"
  defines "i \<equiv> size_class_index (st_size_class s)"
  shows "pool_deallocate std_shim dealloc h p s =
    (p\<lparr>free_stacks := (free_stacks p)[i := mutex_new (m_value (free_stacks p ! i) @ [s])],
       pool_stats := stats_returned (pool_stats p)\<rparr>, h)"
proof -
  have "\<not> m_locked (free_stacks p ! i)" using assms by (simp add: lists_ok_def)
  then show ?thesis by (simp add: pool_step_defs i_def [symmetric])
qed

lemma stacks_apart_add:
  assumes "stacks_apart M" "\<And>t. t \<in># M \<Longrightarrow> stack_region s \<inter> stack_region t = {}"
  shows "stacks_apart (add_mset s M)"
  unfolding stacks_apart_def
proof (intro ballI)
  fix a b assume a: "a \<in># add_mset s M" and b: "b \<in># add_mset s M - {#a#}"
  show "stack_region a \<inter> stack_region b = {}"
  proof (cases "a = s")
    case True
    then show ?thesis using b assms(2) by simp
  next
    case False
    then have "a \<in># M" "b \<in># add_mset s (M - {#a#})" using a b by auto
    then show ?thesis using assms(1) assms(2) [of a] by (auto simp: stacks_apart_def)
  qed
qed

lemma stack_wf_mono: "stack_wf tk s \<Longrightarrow> tk \<subseteq> tk' \<Longrightarrow> stack_wf tk' s"
  by (auto simp: stack_wf_def)

lemma pool_inv_reuse:
  assumes "pool_inv tk p used" "m_value (free_stacks p ! size_class_index c) = l" "l \<noteq> []"
    and "p' = p\<lparr>free_stacks := (free_stacks p)[size_class_index c := mutex_new (butlast l)],
      pool_stats := stats_reused (pool_stats p)\<rparr>"
  shows "pool_inv tk p' (add_mset (last l) used)" and "st_size_class (last l) = c"
proof -
  have ok: "lists_ok p" using assms(1) by (simp add: pool_inv_def)
  have cls: "size_class_index (st_size_class s) = size_class_index c" if "s \<in> set l" for s
    using ok that assms(2) by (auto simp: lists_ok_def)
  have "size_class_index (st_size_class (last l)) = size_class_index c"
    using cls assms(3) by simp
  then show "st_size_class (last l) = c" by (cases c; cases "st_size_class (last l)") auto
  have "mset l = add_mset (last l) (mset (butlast l))"
    by (metis append_butlast_last_id assms(3) add_mset_add_single mset.simps mset_append union_code)
  then have all: "pool_all p' (add_mset (last l) used) = pool_all p used"
    using pool_free_update [OF ok assms(4)] assms(2)
    by (simp add: pool_all_def mutex_new_def) 
  have "lists_ok p'" unfolding assms(4)
    by (rule lists_ok_update [OF ok]) (auto simp: mutex_new_def intro: cls dest: in_set_butlastD)
  then show "pool_inv tk p' (add_mset (last l) used)"
    using assms(1) all by (simp add: pool_inv_def assms(4) stats_reused_def)
qed

lemma pool_inv_new:
  assumes "pool_inv tk p used" "stack_wf tk' s" "stack_region s \<inter> tk = {}" "tk \<subseteq> tk'"
  shows "pool_inv tk' (p\<lparr>pool_stats := stats_new (pool_stats p)\<rparr>) (add_mset s used)"
proof -
  have all: "pool_all (p\<lparr>pool_stats := stats_new (pool_stats p)\<rparr>) (add_mset s used) =
      add_mset s (pool_all p used)"
    by (simp add: pool_all_def pool_free_def)
  have "stacks_apart (add_mset s (pool_all p used))"
    using assms by (intro stacks_apart_add) (auto simp: pool_inv_def stack_wf_def)
  moreover have "\<forall>t \<in># add_mset s (pool_all p used). stack_wf tk' t"
    using assms stack_wf_mono by (auto simp: pool_inv_def)
  moreover have "lists_ok (p\<lparr>pool_stats := stats_new (pool_stats p)\<rparr>)"
    using assms(1) by (simp add: pool_inv_def lists_ok_def)
  ultimately show ?thesis
    using assms(1) unfolding pool_inv_def all by (simp add: stats_new_def)
qed

lemma pool_inv_return:
  assumes "pool_inv tk p (add_mset s used)" "pool_deallocate std_shim dealloc h p s = (p', h')"
  shows "pool_inv tk p' used \<and> h' = h"
proof -
  have ok: "lists_ok p" using assms(1) by (simp add: pool_inv_def)
  let ?i = "size_class_index (st_size_class s)"
  have p': "p' = p\<lparr>free_stacks := (free_stacks p)[?i := mutex_new (m_value (free_stacks p ! ?i) @ [s])],
      pool_stats := stats_returned (pool_stats p)\<rparr>" and h: "h' = h"
    using assms(2) pool_deallocate_uncontended [OF ok, of std_shim dealloc h s] by auto
  have all: "pool_all p' used = pool_all p (add_mset s used)"
    using pool_free_update [OF ok p'] by (simp add: pool_all_def mutex_new_def)
  have "lists_ok p'" unfolding p'
    using ok by (intro lists_ok_update [OF ok]) (auto simp: mutex_new_def lists_ok_def)
  then show ?thesis using assms(1) all h by (simp add: pool_inv_def p' stats_returned_def)
qed

context block_allocator
begin

lemma pool_inv_allocate:
  assumes "ok h" "pool_inv (taken h) p used" "pool_allocate alloc h p c = (r, p', h')"
  shows "ok h' \<and> taken h \<subseteq> taken h' \<and>
    (case r of None \<Rightarrow> p' = p \<and> taken h' = taken h
     | Some s \<Rightarrow> st_size_class s = c \<and> pool_inv (taken h') p' (add_mset s used))"
proof (cases "m_value (free_stacks p ! size_class_index c) = []")
  case False
  have "lists_ok p" using assms(2) by (simp add: pool_inv_def)
  with False assms show ?thesis
    using pool_inv_reuse [OF assms(2) refl False refl] by (auto simp: pool_allocate_uncontended)
next
  case True
  obtain m g where m: "alloc h (class_size c) (2 ^ 12) = (m, g)" by fastforce
  have "lists_ok p" using assms(2) by (simp add: pool_inv_def)
  then have run: "(r, p', h') = (if m = 0 then (None, p, g) else
      (Some \<lparr>st_memory = m, st_usable_size = class_size c, st_size_class = c, st_has_guard_pages = False\<rparr>,
       p\<lparr>pool_stats := stats_new (pool_stats p)\<rparr>, g))"
    using assms(3) True m
    by (simp add: pool_allocate_uncontended allocate_new_stack_def del: power_numeral)
  note fresh = alloc_fresh [OF assms(1) m refl _ class_size_bounds(1)]
  note null = alloc_null [OF assms(1) _ refl _ class_size_bounds(1)]
  have "ok g" by (rule alloc_ok [OF assms(1) m refl _ class_size_bounds(1)]) simp
  show ?thesis
  proof (cases "m = 0")
    case True
    with run \<open>ok g\<close> null [of c 12] m show ?thesis by simp
  next
    case False
    then have f: "region m (class_size c) \<inter> taken h = {}" "taken h \<union> region m (class_size c) \<subseteq> taken g"
      "unat m + unat (class_size c) < 2 ^ 64"
      using fresh by simp_all
    with False run \<open>ok g\<close> show ?thesis
      by (auto intro!: pool_inv_new [OF assms(2)] simp: stack_wf_def stack_region_def)
  qed
qed

end

section \<open>Reachable pools\<close>

text \<open>
  Any sequence of \<open>allocate\<close> and \<open>deallocate\<close> calls, without lock contention, from an empty pool
  over a heap \<open>h0\<close>; a client only returns a stack it holds.
\<close>

inductive pool_reach ::
  "('h \<Rightarrow> usize \<Rightarrow> usize \<Rightarrow> u64 \<times> 'h) \<Rightarrow> ('h \<Rightarrow> u64 \<Rightarrow> 'h) \<Rightarrow> bool \<Rightarrow> 'h \<Rightarrow>
   'h \<Rightarrow> stack_pool \<Rightarrow> stack multiset \<Rightarrow> bool"
  for alloc dealloc std_shim h0 where
  reach_new: "pool_reach alloc dealloc std_shim h0 h0 new_stack_pool {#}"
| reach_alloc: "pool_reach alloc dealloc std_shim h0 h p used \<Longrightarrow>
    pool_allocate alloc h p c = (Some s, p', h') \<Longrightarrow>
    pool_reach alloc dealloc std_shim h0 h' p' (add_mset s used)"
| reach_alloc_fails: "pool_reach alloc dealloc std_shim h0 h p used \<Longrightarrow>
    pool_allocate alloc h p c = (None, p', h') \<Longrightarrow>
    pool_reach alloc dealloc std_shim h0 h' p' used"
| reach_dealloc: "pool_reach alloc dealloc std_shim h0 h p (add_mset s used) \<Longrightarrow>
    pool_deallocate std_shim dealloc h p s = (p', h') \<Longrightarrow>
    pool_reach alloc dealloc std_shim h0 h' p' used"

lemma pool_inv_initial: "pool_inv tk new_stack_pool {#}"
proof -
  have "lists_ok new_stack_pool"
    by (auto simp: lists_ok_def new_stack_pool_def nth_Cons' numeral_eq_Suc)
  then show ?thesis
    by (simp add: pool_inv_def pool_all_def pool_free_def stacks_apart_def new_stack_pool_def)
qed

context block_allocator
begin

lemma pool_reach_inv:
  assumes "pool_reach alloc dealloc std_shim h0 h p used" "ok h0"
  shows "ok h \<and> pool_inv (taken h) p used"
  using assms
proof (induction rule: pool_reach.induct)
  case reach_new
  then show ?case by (simp add: pool_inv_initial)
next
  case (reach_alloc h p used c s p' h')
  then show ?case using pool_inv_allocate [of h p used c "Some s" p' h'] by simp
next
  case (reach_alloc_fails h p used c p' h')
  then show ?case using pool_inv_allocate [of h p used c None p' h'] by simp
next
  case (reach_dealloc h p s used p' h')
  then have "ok h" "pool_inv (taken h) p (add_mset s used)" by blast+
  then show ?case using pool_inv_return [OF _ reach_dealloc.hyps(2)] by metis
qed

end

section \<open>Properties\<close>

text \<open>
  C30. Stacks are never shared.  After any sequence of \<open>allocate\<close> and \<open>deallocate\<close> calls on a pool
  over the kernels' bump allocator, all stacks, those in use and those waiting in the free lists,
  occupy pairwise disjoint memory, each is as large as its class says and lies in memory the
  allocator handed out, the counter \<open>in_use\<close> is the number of stacks clients hold, and \<open>allocated\<close>
  the number ever created.
\<close>

theorem pool_stacks_disjoint:
  assumes "pool_reach (bump_alloc []) bump_dealloc std_shim h0 h p used" "bump_ok h0"
  shows "stacks_apart (pool_all p used) \<and> (\<forall>s \<in># pool_all p used. stack_wf (bump_taken h) s) \<and>
    sp_in_use (pool_stats p) = of_nat (size used) \<and>
    sp_allocated (pool_stats p) = of_nat (size used + length (pool_free p))"
  using bump.pool_reach_inv [OF assms] by (simp add: pool_inv_def pool_all_def add.commute)

theorem pool_stacks_disjoint_witness:
  "\<exists>h p s t. pool_reach (bump_alloc []) bump_dealloc False
       \<lparr>heap_start = 0x90000, heap_next = 0\<rparr> h p {#s, t#} \<and>
     stacks_apart (pool_all p {#s, t#}) \<and> sp_in_use (pool_stats p) = 2"
proof -
  let ?h = "\<lparr>heap_start = 0x90000, heap_next = 0\<rparr>"
  define r1 where "r1 = pool_allocate (bump_alloc []) ?h new_stack_pool Small"
  define r2 where "r2 = pool_allocate (bump_alloc []) (snd (snd r1)) (fst (snd r1)) Large"
  note run = pool_allocate_def allocate_new_stack_def layout_from_size_align_def new_stack_pool_def
    mutex_try_lock_def mutex_unlock_new vec_pop_def bump_candidate_def HEAP_SIZE_def
  have "fst r1 \<noteq> None" by (simp add: r1_def run Let_def)
  then obtain s p1 h1 where 1: "r1 = (Some s, p1, h1)" by (cases r1) auto
  have "fst r2 \<noteq> None"
    by (simp add: r2_def r1_def run Let_def)
  then obtain t p2 h2 where 2: "r2 = (Some t, p2, h2)" by (cases r2) auto
  have "pool_reach (bump_alloc []) bump_dealloc False ?h h2 p2 {#t, s#}"
    using 1 2 by (auto simp: r1_def r2_def intro: pool_reach.intros)
  from pool_stacks_disjoint [OF this] this show ?thesis
    by (force simp: bump_ok_def HEAP_SIZE_def)
qed

text \<open>
  C29. Reuse is last-in first-out.  A stack that is returned and then requested again by class comes
  back as the same stack, without touching the allocator; the free lists, \<open>allocated\<close> and \<open>in_use\<close>
  are as before, and \<open>deallocated\<close> has counted one return.
\<close>

theorem pool_return_then_reuse:
  assumes "lists_ok p" "pool_deallocate std_shim dealloc h p s = (p1, h1)"
  shows "pool_allocate alloc h1 p1 (st_size_class s) =
    (Some s, p\<lparr>pool_stats := (pool_stats p)\<lparr>sp_deallocated := sp_deallocated (pool_stats p) + 1\<rparr>\<rparr>, h)"
proof -
  let ?i = "size_class_index (st_size_class s)"
  have p1: "p1 = p\<lparr>free_stacks := (free_stacks p)[?i := mutex_new (m_value (free_stacks p ! ?i) @ [s])],
      pool_stats := stats_returned (pool_stats p)\<rparr>" and h: "h1 = h"
    using assms(2) pool_deallocate_uncontended [OF assms(1), of std_shim dealloc h s] by auto
  have "lists_ok p1" unfolding p1
    using assms(1) by (intro lists_ok_update) (auto simp: lists_ok_def)
  moreover have "mutex_new (m_value (free_stacks p ! ?i)) = free_stacks p ! ?i" "?i < length (free_stacks p)"
    using assms(1) by (simp_all add: mutex_new_value lists_ok_def)
  ultimately show ?thesis
    unfolding p1 h by (simp add: pool_allocate_uncontended stats_returned_def stats_reused_def)
qed

theorem pool_return_then_reuse_witness:
  "\<exists>s p1 h1. pool_deallocate False bump_dealloc \<lparr>heap_start = 0x90000, heap_next = 0x1000\<rparr>
       new_stack_pool s = (p1, h1) \<and> st_memory s = 0x90000 \<and>
     pool_allocate (bump_alloc []) h1 p1 Small =
       (Some s, new_stack_pool\<lparr>pool_stats :=
          (pool_stats new_stack_pool)\<lparr>sp_deallocated := sp_deallocated (pool_stats new_stack_pool) + 1\<rparr>\<rparr>,
        \<lparr>heap_start = 0x90000, heap_next = 0x1000\<rparr>)"
proof -
  define s where "s = \<lparr>st_memory = 0x90000, st_usable_size = 4096, st_size_class = Small,
    st_has_guard_pages = False\<rparr>"
  obtain p1 h1 where r: "pool_deallocate False bump_dealloc
      \<lparr>heap_start = 0x90000, heap_next = 0x1000\<rparr> new_stack_pool s = (p1, h1)" by fastforce
  have "lists_ok new_stack_pool" using pool_inv_initial by (simp add: pool_inv_def)
  from pool_return_then_reuse [OF this r, of "bump_alloc []"] r show ?thesis
    by (intro exI [of _ s] exI [of _ p1] exI [of _ h1]) (simp add: s_def)
qed

text \<open>
  C1. A contended return leaks.  When the class's lock is taken, \<open>deallocate\<close> drops the stack and
  leaves the pool as it was: \<open>in_use\<close> keeps counting a stack nobody holds, and without \<open>std-shim\<close>
  the heap keeps its memory too.
\<close>

theorem contended_deallocate_leaks:
  assumes "m_locked (free_stacks p ! size_class_index (st_size_class s))"
  shows "pool_deallocate False dealloc h p s = (p, h)"
  using assms by (simp add: pool_deallocate_def mutex_try_lock_def drop_stack_def)

theorem contended_deallocate_leaks_witness:
  "\<exists>p s. m_locked (free_stacks p ! size_class_index (st_size_class s)) \<and> sp_in_use (pool_stats p) = 1 \<and>
     pool_deallocate False bump_dealloc \<lparr>heap_start = 0x90000, heap_next = 0x1000\<rparr> p s =
       (p, \<lparr>heap_start = 0x90000, heap_next = 0x1000\<rparr>)"
proof -
  define s where "s = \<lparr>st_memory = 0x90000, st_usable_size = 4096, st_size_class = Small,
    st_has_guard_pages = False\<rparr>"
  define p where "p = \<lparr>free_stacks = [\<lparr>m_locked = True, m_value = []\<rparr>, mutex_new [], mutex_new [], mutex_new []],
    pool_stats = \<lparr>sp_allocated = 1, sp_deallocated = 0, sp_in_use = 1\<rparr>\<rparr>"
  have "m_locked (free_stacks p ! size_class_index (st_size_class s))" by (simp add: p_def s_def)
  with contended_deallocate_leaks [OF this] show ?thesis
    by (intro exI [of _ p] exI [of _ s]) (simp add: p_def)
qed

text \<open>
  C17. Class selection.  \<open>for_size\<close> returns the smallest class that accommodates the request, and
  fails exactly when even the largest is too small.
\<close>

theorem for_size_smallest:
  "(for_size n = Some c \<longleftrightarrow> n \<le> class_size c \<and> (\<forall>c'. class_size c' < class_size c \<longrightarrow> class_size c' < n)) \<and>
   (for_size n = None \<longleftrightarrow> (\<forall>c'. class_size c' < n))"
proof
  have mono: "n \<le> 4096 \<Longrightarrow> n \<le> 16384" "n \<le> 16384 \<Longrightarrow> n \<le> 65536" "n \<le> 65536 \<Longrightarrow> n \<le> 262144"
    by (simp_all add: word_le_nat_alt)
  have all: "(\<forall>c'. P c') \<longleftrightarrow> P Small \<and> P Medium \<and> P Large \<and> P ExtraLarge" for P
    by (metis stack_size_class.exhaust)
  show "for_size n = Some c \<longleftrightarrow>
      n \<le> class_size c \<and> (\<forall>c'. class_size c' < class_size c \<longrightarrow> class_size c' < n)"
    unfolding all by (cases c) (use mono in \<open>auto simp: for_size_def not_le\<close>)
  show "for_size n = None \<longleftrightarrow> (\<forall>c'. class_size c' < n)"
    unfolding all using mono by (auto simp: for_size_def not_le)
qed

theorem for_size_smallest_witness:
  "for_size 8192 = Some Medium \<and> class_size Small < 8192"
  using for_size_smallest [of 8192 Medium] by (auto simp: for_size_def)

text \<open>
  Stack geometry.  For a stack of the pool the initial stack pointer is 16-byte aligned as the
  procedure-call standard requires, lies within the last 16 bytes above the block and never beyond
  it, and the canary cell at the other end is inside the block.
\<close>

theorem stack_pointer_aligned_and_inside:
  assumes "stack_wf tk s"
  shows "16 dvd unat (stack_bottom s) \<and>
    unat (stack_bottom s) \<le> unat (st_memory s) + unat (st_usable_size s) \<and>
    unat (st_memory s) + unat (st_usable_size s) < unat (stack_bottom s) + 16 \<and>
    unat (stack_top s) \<in> stack_region s"
proof -
  let ?e = "unat (st_memory s) + unat (st_usable_size s)"
  have e: "unat (st_memory s + st_usable_size s) = ?e"
  proof -
    have "?e < 2 ^ 64" using assms unfolding stack_wf_def by blast
    then show ?thesis by (simp add: unat_word_ariths(1))
  qed
  have "(0xF :: u64) = mask 4" by (simp add: mask_eq_decr_exp)
  have b: "unat (stack_bottom s) = ?e - ?e mod 16"
  proof -
    have "\<not> st_has_guard_pages s" using assms by (simp add: stack_wf_def)
    then show ?thesis
      using align_down [of "st_memory s + st_usable_size s" 4] \<open>(0xF :: u64) = mask 4\<close>
      by (simp add: stack_bottom_def e)
  qed
  have "16 dvd ?e - ?e mod 16" by (rule dvd_minus_mod)
  moreover have "?e mod 16 < 16" "?e mod 16 \<le> ?e" by simp_all
  moreover have "unat (stack_top s) \<in> stack_region s"
    using assms class_size_bounds(2) [of "st_size_class s"]
    by (simp add: stack_top_def stack_wf_def stack_region_def region_def)
  ultimately show ?thesis unfolding b by linarith
qed

theorem stack_pointer_aligned_and_inside_witness:
  "\<exists>s. st_memory s = 0x90008 \<and> stack_bottom s = 0x91000 \<and> 16 dvd unat (stack_bottom s)"
proof -
  define s where "s = \<lparr>st_memory = 0x90008, st_usable_size = 4096, st_size_class = Small,
    st_has_guard_pages = False\<rparr>"
  have "stack_wf UNIV s" by (simp add: stack_wf_def s_def)
  from stack_pointer_aligned_and_inside [OF this] show ?thesis
    by (intro exI [of _ s]) (simp add: s_def stack_bottom_def)
qed

text \<open>
  Canaries.  A canary reads back as installed, any other value is reported as corrupted, and
  installing one on a stack never disturbs the canary of another stack of the pool.
\<close>

theorem canary_detects:
  assumes "stack_wf tk s" "stack_wf tk t" "stacks_apart {#s, t#}"
  shows "(check_canary (install_canary mem s c) s d \<longleftrightarrow> c = d) \<and>
    (check_canary (install_canary mem s c) t d \<longleftrightarrow> check_canary mem t d)"
proof -
  have "stack_region s \<inter> stack_region t = {}" using assms(3) by (simp add: stacks_apart_def)
  moreover have "unat (stack_top s) \<in> stack_region s" "unat (stack_top t) \<in> stack_region t"
    using assms(1,2) class_size_bounds(2)
    by (simp_all add: stack_top_def stack_wf_def stack_region_def region_def)
  ultimately have "stack_top s \<noteq> stack_top t" by (metis disjoint_iff)
  then show ?thesis by (auto simp: check_canary_def install_canary_def)
qed

theorem canary_detects_witness:
  "\<exists>s t. check_canary (install_canary (\<lambda>a. 7) s 0xDEADBEEFCAFEBABE) s 0xDEADBEEFCAFEBABE \<and>
     \<not> check_canary (install_canary (\<lambda>a. 7) s 0xDEADBEEFCAFEBABE) s 0x1234567890ABCDEF \<and>
     check_canary (install_canary (\<lambda>a. 7) s 0xDEADBEEFCAFEBABE) t 7"
proof -
  define s where "s = \<lparr>st_memory = 0x90000, st_usable_size = 4096, st_size_class = Small,
    st_has_guard_pages = False\<rparr>"
  define t where "t = \<lparr>st_memory = 0x91000, st_usable_size = 16384, st_size_class = Medium,
    st_has_guard_pages = False\<rparr>"
  have "stack_wf UNIV s" "stack_wf UNIV t" "stacks_apart {#s, t#}"
    by (auto simp: stack_wf_def stacks_apart_def stack_region_def region_def s_def t_def)
  note c = canary_detects [OF this, of "\<lambda>a. 7" "0xDEADBEEFCAFEBABE"]
  show ?thesis
    using c [of "0xDEADBEEFCAFEBABE"] c [of "0x1234567890ABCDEF"] c [of 7]
    by (intro exI [of _ s] exI [of _ t]) (simp add: check_canary_def)
qed

end
