(* ===== verification/Aarch64.thy ===== *)
theory Aarch64
  imports Prelude
begin

text \<open>
  The processor as the assembly of \<open>arch/aarch64.rs\<close> and \<open>arch/aarch64_vectors.rs\<close> uses it: the
  general registers, the stack pointer, the fields of PSTATE, the exception registers, memory in
  8-byte cells, and an interpreter for the instructions those blocks contain.  Branches of the
  blocks only go forward, so a block is a list and running it ends.  All addresses the blocks use
  are multiples of 8, so distinct cells do not overlap.
\<close>

section \<open>Processor state\<close>

record cpu =
  gpr :: "nat \<Rightarrow> u64"
  sp :: u64
  pc :: u64
  nzcv :: u64
  daif :: u64
  el_mode :: u64
  elr_el1 :: u64
  spsr_el1 :: u64
  esr_el1 :: u64
  far_el1 :: u64
  mem :: dmem

text \<open>The fields of PSTATE at their SPSR positions.\<close>

definition NZCV_MASK :: u64 where "NZCV_MASK = 0xF0000000"
definition DAIF_MASK :: u64 where "DAIF_MASK = 0x3C0"
definition MODE_MASK :: u64 where "MODE_MASK = 0x1F"

definition pstate_of :: "cpu \<Rightarrow> u64" where
  "pstate_of s = nzcv s OR daif s OR el_mode s"

definition pstate_ok :: "cpu \<Rightarrow> bool" where
  "pstate_ok s \<longleftrightarrow> nzcv s AND NZCV_MASK = nzcv s \<and> daif s AND DAIF_MASK = daif s \<and>
     el_mode s AND MODE_MASK = el_mode s"

lemma pstate_fields:
  assumes "pstate_ok s"
  shows "pstate_of s AND NZCV_MASK = nzcv s" "pstate_of s AND DAIF_MASK = daif s"
    "pstate_of s AND MODE_MASK = el_mode s"
proof -
  have disj: "NZCV_MASK AND DAIF_MASK = 0" "NZCV_MASK AND MODE_MASK = 0" "DAIF_MASK AND MODE_MASK = 0"
    by (simp_all add: NZCV_MASK_def DAIF_MASK_def MODE_MASK_def)
  have drop: "v AND m' = 0" if "v AND m = v" "m AND m' = 0" for v m m' :: u64
    by (metis and.assoc and_zero_eq that)
  have pick: "(v OR (a OR b)) AND m = v" if "v AND m = v" "a AND m = 0" "b AND m = 0"
    for v a b m :: u64
    using that by (simp add: bit.conj_disj_distrib2)
  have e: "nzcv s AND NZCV_MASK = nzcv s" "daif s AND DAIF_MASK = daif s"
    "el_mode s AND MODE_MASK = el_mode s"
    using assms by (simp_all add: pstate_ok_def)
  have z: "daif s AND NZCV_MASK = 0" "el_mode s AND NZCV_MASK = 0" "nzcv s AND DAIF_MASK = 0"
    "el_mode s AND DAIF_MASK = 0" "nzcv s AND MODE_MASK = 0" "daif s AND MODE_MASK = 0"
    using drop [OF e(1)] drop [OF e(2)] drop [OF e(3)] disj by (metis and.commute)+
  have p: "pstate_of s = nzcv s OR (daif s OR el_mode s)"
    "pstate_of s = daif s OR (nzcv s OR el_mode s)" "pstate_of s = el_mode s OR (nzcv s OR daif s)"
    unfolding pstate_of_def by (metis or.assoc or.commute)+
  show "pstate_of s AND NZCV_MASK = nzcv s" unfolding p(1) by (rule pick) (fact e z)+
  show "pstate_of s AND DAIF_MASK = daif s" unfolding p(2) by (rule pick) (fact e z)+
  show "pstate_of s AND MODE_MASK = el_mode s" unfolding p(3) by (rule pick) (fact e z)+
qed

section \<open>Instructions\<close>

datatype base = XB nat | SPB

datatype sysreg = NZCV | DAIF | ELR_EL1 | SPSR_EL1 | ESR_EL1 | FAR_EL1

datatype instr =
    Mov nat nat
  | MovFromSP nat
  | MovToSP nat
  | AddImm nat nat u64
  | AddFromSP nat u64
  | AddSP u64
  | SubSP u64
  | Adr nat u64
  | Adrp nat u64
  | AddLo12 nat nat u64
  | Ldr nat base u64
  | Str nat base u64
  | Ldp nat nat base u64
  | Stp nat nat base u64
  | Mrs nat sysreg
  | Msr sysreg nat
  | Br nat
  | Bl
  | Cbz nat nat
  | B_self
  | Eret

primrec base_addr :: "cpu \<Rightarrow> base \<Rightarrow> u64" where
  "base_addr s (XB n) = gpr s n"
| "base_addr s SPB = sp s"

primrec read_sys :: "cpu \<Rightarrow> sysreg \<Rightarrow> u64" where
  "read_sys s NZCV = nzcv s"
| "read_sys s DAIF = daif s"
| "read_sys s ELR_EL1 = elr_el1 s"
| "read_sys s SPSR_EL1 = spsr_el1 s"
| "read_sys s ESR_EL1 = esr_el1 s"
| "read_sys s FAR_EL1 = far_el1 s"

primrec write_sys :: "sysreg \<Rightarrow> u64 \<Rightarrow> cpu \<Rightarrow> cpu" where
  "write_sys NZCV v s = s\<lparr>nzcv := v AND NZCV_MASK\<rparr>"
| "write_sys DAIF v s = s\<lparr>daif := v AND DAIF_MASK\<rparr>"
| "write_sys ELR_EL1 v s = s\<lparr>elr_el1 := v\<rparr>"
| "write_sys SPSR_EL1 v s = s\<lparr>spsr_el1 := v\<rparr>"
| "write_sys ESR_EL1 v s = s\<lparr>esr_el1 := v\<rparr>"
| "write_sys FAR_EL1 v s = s\<lparr>far_el1 := v\<rparr>"

definition set_gpr :: "nat \<Rightarrow> u64 \<Rightarrow> cpu \<Rightarrow> cpu" where
  "set_gpr r v s = s\<lparr>gpr := (gpr s)(r := v)\<rparr>"

definition store :: "u64 \<Rightarrow> u64 \<Rightarrow> cpu \<Rightarrow> cpu" where
  "store a v s = s\<lparr>mem := (mem s)(a := v)\<rparr>"

text \<open>
  Return from exception: PSTATE from SPSR, the program counter from ELR.  The kernel runs at EL1
  throughout and never enables another stack pointer, so \<open>sp\<close> stays the one in use.
\<close>

definition do_eret :: "cpu \<Rightarrow> cpu" where
  "do_eret s = s\<lparr>pc := elr_el1 s, nzcv := spsr_el1 s AND NZCV_MASK,
     daif := spsr_el1 s AND DAIF_MASK, el_mode := spsr_el1 s AND MODE_MASK\<rparr>"

text \<open>Taking an interrupt at EL1h: PSTATE and the return address are banked, DAIF is set.\<close>

definition take_irq :: "u64 \<Rightarrow> cpu \<Rightarrow> cpu" where
  "take_irq vec s = s\<lparr>elr_el1 := pc s, spsr_el1 := pstate_of s, pc := vec, daif := 0x3C0,
     el_mode := 5\<rparr>"

text \<open>Straight-line instructions; the others are handled by the block interpreter.\<close>

fun step :: "instr \<Rightarrow> cpu \<Rightarrow> cpu" where
  "step (Mov d n) s = set_gpr d (gpr s n) s"
| "step (MovFromSP d) s = set_gpr d (sp s) s"
| "step (MovToSP n) s = s\<lparr>sp := gpr s n\<rparr>"
| "step (AddImm d n i) s = set_gpr d (gpr s n + i) s"
| "step (AddFromSP d i) s = set_gpr d (sp s + i) s"
| "step (AddSP i) s = s\<lparr>sp := sp s + i\<rparr>"
| "step (SubSP i) s = s\<lparr>sp := sp s - i\<rparr>"
| "step (Adr d a) s = set_gpr d a s"
| "step (Adrp d a) s = set_gpr d (a AND NOT 0xFFF) s"
| "step (AddLo12 d n a) s = set_gpr d (gpr s n + (a AND 0xFFF)) s"
| "step (Ldr t b i) s = set_gpr t (mem s (base_addr s b + i)) s"
| "step (Str t b i) s = store (base_addr s b + i) (gpr s t) s"
| "step (Ldp t u b i) s =
     (let a = base_addr s b in set_gpr u (mem s (a + (i + 8))) (set_gpr t (mem s (a + i)) s))"
| "step (Stp t u b i) s =
     (let a = base_addr s b in store (a + (i + 8)) (gpr s u) (store (a + i) (gpr s t) s))"
| "step (Mrs t r) s = set_gpr t (read_sys s r) s"
| "step (Msr r t) s = write_sys r (gpr s t) s"
| "step _ s = s"

text \<open>
  A block: \<open>Br\<close> and \<open>Eret\<close> leave it, \<open>Cbz\<close> skips forward, \<open>b .\<close> hangs and \<open>Bl\<close> calls the one
  Rust function the block calls, given as \<open>call\<close>.  Falling off the end leaves the block too.
\<close>

function exec :: "(cpu \<Rightarrow> cpu res) \<Rightarrow> instr list \<Rightarrow> cpu \<Rightarrow> cpu res" where
  "exec call [] s = Inr s"
| "exec call (i # is) s =
     (case i of
        Br r \<Rightarrow> Inr (s\<lparr>pc := gpr s r\<rparr>)
      | Eret \<Rightarrow> Inr (do_eret s)
      | B_self \<Rightarrow> Inl Hang
      | Bl \<Rightarrow> rbind (call s) (\<lambda>s'. exec call is s')
      | Cbz r n \<Rightarrow> (if gpr s r = 0 then exec call (drop n is) s else exec call is s)
      | _ \<Rightarrow> exec call is (step i s))"
  by pat_completeness auto
termination
  by (relation "measure (\<lambda>(c, is, s). length is)") auto

fun straight :: "instr \<Rightarrow> bool" where
  "straight (Br r) = False"
| "straight Bl = False"
| "straight (Cbz r n) = False"
| "straight B_self = False"
| "straight Eret = False"
| "straight _ = True"

definition run_straight :: "instr list \<Rightarrow> cpu \<Rightarrow> cpu" where
  "run_straight is s = fold step is s"

lemma run_straight_simps [simp]:
  "run_straight [] s = s" "run_straight (i # is) s = run_straight is (step i s)"
  by (simp_all add: run_straight_def)

lemma exec_straight:
  "list_all straight is \<Longrightarrow> exec call (is @ js) s = exec call js (run_straight is s)"
proof (induction "is" arbitrary: s)
  case (Cons i "is")
  then show ?case by (cases i) simp_all
qed simp

lemma exec_leaves [simp]:
  "exec call (Br r # is) s = Inr (s\<lparr>pc := gpr s r\<rparr>)"
  "exec call (Eret # is) s = Inr (do_eret s)"
  "exec call (B_self # is) s = Inl Hang"
  "exec call (Bl # is) s = rbind (call s) (\<lambda>s'. exec call is s')"
  "exec call (Cbz r n # is) s = (if gpr s r = 0 then exec call (drop n is) s else exec call is s)"
  by simp_all

lemma adrp_add: "(a AND NOT 0xFFF) + (a AND 0xFFF) = (a :: u64)"
proof -
  have "(a AND NOT 0xFFF) + (a AND 0xFFF) = (a AND NOT 0xFFF) OR (a AND 0xFFF)"
    by (rule disjunctive_add) (auto simp: bit_simps)
  also have "\<dots> = a" by (rule bit_word_eqI) (auto simp: bit_simps)
  finally show ?thesis .
qed

lemma adrp_add_numeral: "(a AND - 4096) + (a AND 4095) = (a :: u64)"
  using adrp_add [of a] by simp

lemma step_sel [simp]:
  "gpr (set_gpr r v s) = (gpr s)(r := v)" "mem (set_gpr r v s) = mem s"
  "sp (set_gpr r v s) = sp s" "pc (set_gpr r v s) = pc s" "nzcv (set_gpr r v s) = nzcv s"
  "daif (set_gpr r v s) = daif s" "el_mode (set_gpr r v s) = el_mode s"
  "elr_el1 (set_gpr r v s) = elr_el1 s" "spsr_el1 (set_gpr r v s) = spsr_el1 s"
  "esr_el1 (set_gpr r v s) = esr_el1 s" "far_el1 (set_gpr r v s) = far_el1 s"
  "gpr (store a w s) = gpr s" "mem (store a w s) = (mem s)(a := w)"
  "sp (store a w s) = sp s" "pc (store a w s) = pc s" "nzcv (store a w s) = nzcv s"
  "daif (store a w s) = daif s" "el_mode (store a w s) = el_mode s"
  "elr_el1 (store a w s) = elr_el1 s" "spsr_el1 (store a w s) = spsr_el1 s"
  "esr_el1 (store a w s) = esr_el1 s" "far_el1 (store a w s) = far_el1 s"
  by (simp_all add: set_gpr_def store_def)

section \<open>Saved contexts\<close>

text \<open>
  \<open>Aarch64Context\<close> with its \<open>repr(C)\<close> layout: \<open>x[i]\<close> at \<open>8 i\<close>, \<open>sp\<close> at 248, \<open>pc\<close> at 256,
  \<open>pstate\<close> at 264.
\<close>

record aarch64_context =
  c_x :: "nat \<Rightarrow> u64"
  c_sp :: u64
  c_pc :: u64
  c_pstate :: u64

definition default_context :: aarch64_context where
  "default_context = \<lparr>c_x = (\<lambda>_. 0), c_sp = 0, c_pc = 0, c_pstate = 0x3c5\<rparr>"

definition ctx_at :: "dmem \<Rightarrow> u64 \<Rightarrow> aarch64_context" where
  "ctx_at m p = \<lparr>c_x = (\<lambda>i. if i < 31 then m (p + 8 * of_nat i) else 0), c_sp = m (p + 248),
     c_pc = m (p + 256), c_pstate = m (p + 264)\<rparr>"

definition ctx_cells :: "u64 \<Rightarrow> u64 set" where
  "ctx_cells p = (\<lambda>i. p + 8 * of_nat i) ` {..<34}"

definition ctx_apart :: "u64 \<Rightarrow> u64 \<Rightarrow> bool" where
  "ctx_apart p q \<longleftrightarrow> ctx_cells p \<inter> ctx_cells q = {}"

lemma ctx_at_frame:
  assumes "\<And>a. a \<in> ctx_cells p \<Longrightarrow> m a = m' a"
  shows "ctx_at m p = ctx_at m' p"
proof -
  have cell: "m (p + 8 * of_nat i) = m' (p + 8 * of_nat i)" if "i < 34" for i :: nat
    using that by (intro assms) (auto simp: ctx_cells_def)
  from cell [of 31] cell [of 32] cell [of 33] cell show ?thesis by (auto simp: ctx_at_def)
qed

lemma less31_cases:
  assumes "(i::nat) < 31"
  shows "i \<in> {0,1,2,3,4,5,6,7,8,9,10,11,12,13,14,15,16,17,18,19,20,21,22,23,24,25,26,27,28,29,30}"
proof -
  have "i \<in> {..<31}" using assms by simp
  moreover have "{..<31::nat} =
      {0,1,2,3,4,5,6,7,8,9,10,11,12,13,14,15,16,17,18,19,20,21,22,23,24,25,26,27,28,29,30}"
    by (simp add: lessThan_nat_numeral lessThan_Suc insert_commute)
  ultimately show ?thesis by (simp only:)
qed

lemma ctx_cells_explicit:
  "ctx_cells p =
    {p, p + 8, p + 16, p + 24, p + 32, p + 40, p + 48, p + 56, p + 64, p + 72, p + 80, p + 88,
     p + 96, p + 104, p + 112, p + 120, p + 128, p + 136, p + 144, p + 152, p + 160, p + 168, p
     + 176, p + 184, p + 192, p + 200, p + 208, p + 216, p + 224, p + 232, p + 240, p + 248, p
     + 256, p + 264}"
  by (simp add: ctx_cells_def lessThan_nat_numeral lessThan_Suc insert_commute)

lemma unat_ctx_cell:
  assumes "unat p + 272 \<le> 2 ^ 64" "i < 34"
  shows "unat (p + 8 * of_nat i :: u64) = unat p + 8 * i"
proof -
  have "unat (of_nat (8 * i) :: u64) = 8 * i" using assms(2) by (simp only: unat_of_nat) simp
  then show ?thesis using assms by (simp add: unat_word_ariths(1))
qed

lemma ctx_apart_below:
  assumes "unat p + 272 \<le> unat q" "unat q + 272 \<le> 2 ^ 64"
  shows "ctx_apart p q" and "ctx_apart q p"
proof -
  have "p + 8 * of_nat i \<noteq> q + 8 * of_nat j" if "i < 34" "j < 34" for i j :: nat
  proof
    assume eq: "p + 8 * of_nat i = q + 8 * of_nat j"
    have "unat p + 8 * i = unat q + 8 * j"
      using unat_ctx_cell [of p i] unat_ctx_cell [of q j] that assms unfolding eq by linarith
    then show False using that assms(1) by linarith
  qed
  then show "ctx_apart p q" by (auto simp: ctx_apart_def ctx_cells_def)
  then show "ctx_apart q p" by (auto simp: ctx_apart_def)
qed

end
