(* ===== verification/Errors.thy ===== *)
theory Errors
  imports Prelude
begin

text \<open>
  The error types of \<open>errors.rs\<close>, their \<open>Display\<close> implementations as functions to strings, the
  \<open>From\<close> conversions and the convenience constructors.  A constructor carries the name of its enum
  as a prefix, since Rust lets several enums share a variant name.
\<close>

section \<open>Formatting of integers\<close>

text \<open>\<open>{}\<close> and \<open>{:#x}\<close> of an unsigned integer.\<close>

definition digit_char :: "nat \<Rightarrow> char" where
  "digit_char d = (if d < 10 then char_of (48 + d) else char_of (87 + d))"

function show_radix :: "nat \<Rightarrow> nat \<Rightarrow> string" where
  "show_radix b n = (if b < 2 \<or> n < b then [digit_char n] else show_radix b (n div b) @ [digit_char (n mod b)])"
  by pat_completeness auto
termination
  by (relation "measure snd") (auto intro: div_less_dividend)

declare show_radix.simps [simp del]

definition show_dec :: "nat \<Rightarrow> string" where
  "show_dec n = show_radix 10 n"

definition show_hex :: "nat \<Rightarrow> string" where
  "show_hex n = ''0x'' @ show_radix 16 n"

section \<open>Error types and messages\<close>

datatype spawn_error =
    Spawn_NotInitialized
  | Spawn_OutOfMemory
  | Spawn_TooManyThreads
  | Spawn_InvalidStackSize usize
  | Spawn_InvalidPriority u8
  | Spawn_InvalidAffinity u64
  | Spawn_InvalidName string
  | Spawn_UnsupportedFeature string
  | Spawn_SchedulerRejected

datatype join_error =
    Join_AlreadyJoined
  | Join_ThreadPanicked
  | Join_Terminated
  | Join_Timeout
  | Join_StillRunning
  | Join_InvalidHandle

datatype schedule_error =
    Schedule_NoThreadsAvailable
  | Schedule_InvalidState
  | Schedule_InvalidCpu usize
  | Schedule_PriorityChangeNotAllowed
  | Schedule_QueueFull
  | Schedule_PreemptionDisabled

datatype memory_error =
    Memory_OutOfMemory
  | Memory_StackOverflow
  | Memory_StackUnderflow
  | Memory_InvalidAddress usize
  | Memory_AlignmentError
  | Memory_PoolExhausted
  | Memory_InvalidLayout

datatype arch_error =
    Arch_UnsupportedArchitecture
  | Arch_ContextSwitchFailed
  | Arch_InvalidCpuState
  | Arch_InterruptError
  | Arch_FpuError
  | Arch_InvalidInstruction

datatype tls_error =
    Tls_KeyNotFound
  | Tls_StorageExhausted
  | Tls_InvalidKey
  | Tls_DataCorrupted
  | Tls_NotSupported

datatype permission_error =
    Permission_NotPermitted
  | Permission_AccessDenied
  | Permission_InsufficientPrivileges
  | Permission_SecurityViolation
  | Permission_SecurityRisk

datatype resource_error =
    Resource_MaxThreadsPerProcess
  | Resource_MaxThreadsPerUser
  | Resource_MaxMemoryUsage
  | Resource_MaxCpuTime
  | Resource_MaxFileDescriptors
  | Resource_ResourceUnavailable

datatype invalid_operation_error =
    InvalidOperation_WrongThread
  | InvalidOperation_WrongState
  | InvalidOperation_InvalidParameter string
  | InvalidOperation_NotSupported
  | InvalidOperation_WouldDeadlock
  | InvalidOperation_AlreadyInProgress

datatype thread_error =
    Spawn spawn_error
  | Join join_error
  | Schedule schedule_error
  | Memory memory_error
  | Arch arch_error
  | Tls tls_error
  | Permission permission_error
  | Resource resource_error
  | InvalidOperation invalid_operation_error

primrec display_spawn_error :: "spawn_error \<Rightarrow> string" where
  "display_spawn_error Spawn_NotInitialized = ''Threading system not initialized''"
| "display_spawn_error Spawn_OutOfMemory = ''Out of memory for thread creation''"
| "display_spawn_error Spawn_TooManyThreads = ''Maximum number of threads reached''"
| "display_spawn_error (Spawn_InvalidStackSize sz) = ''Invalid stack size: '' @ show_dec (unat sz)"
| "display_spawn_error (Spawn_InvalidPriority prio) = ''Invalid priority: '' @ show_dec (unat prio)"
| "display_spawn_error (Spawn_InvalidAffinity affinity) = ''Invalid CPU affinity: '' @ show_hex (unat affinity)"
| "display_spawn_error (Spawn_InvalidName name) = ''Invalid thread name: '' @ name"
| "display_spawn_error (Spawn_UnsupportedFeature feature) = ''Unsupported feature: '' @ feature"
| "display_spawn_error Spawn_SchedulerRejected = ''Scheduler rejected thread creation''"

primrec display_join_error :: "join_error \<Rightarrow> string" where
  "display_join_error Join_AlreadyJoined = ''Thread has already been joined''"
| "display_join_error Join_ThreadPanicked = ''Thread panicked during execution''"
| "display_join_error Join_Terminated = ''Thread was terminated abnormally''"
| "display_join_error Join_Timeout = ''Join operation timed out''"
| "display_join_error Join_StillRunning = ''Thread is still running''"
| "display_join_error Join_InvalidHandle = ''Invalid thread handle''"

primrec display_schedule_error :: "schedule_error \<Rightarrow> string" where
  "display_schedule_error Schedule_NoThreadsAvailable = ''No schedulable threads available''"
| "display_schedule_error Schedule_InvalidState = ''Scheduler is in an invalid state''"
| "display_schedule_error (Schedule_InvalidCpu cpu) = ''Invalid CPU ID: '' @ show_dec (unat cpu)"
| "display_schedule_error Schedule_PriorityChangeNotAllowed = ''Priority change not allowed''"
| "display_schedule_error Schedule_QueueFull = ''Scheduler queue is full''"
| "display_schedule_error Schedule_PreemptionDisabled = ''Preemption is disabled''"

primrec display_memory_error :: "memory_error \<Rightarrow> string" where
  "display_memory_error Memory_OutOfMemory = ''Out of memory''"
| "display_memory_error Memory_StackOverflow = ''Stack overflow detected''"
| "display_memory_error Memory_StackUnderflow = ''Stack underflow detected''"
| "display_memory_error (Memory_InvalidAddress addr) = ''Invalid memory address: '' @ show_hex (unat addr)"
| "display_memory_error Memory_AlignmentError = ''Memory alignment error''"
| "display_memory_error Memory_PoolExhausted = ''Memory pool exhausted''"
| "display_memory_error Memory_InvalidLayout = ''Invalid memory layout''"

primrec display_arch_error :: "arch_error \<Rightarrow> string" where
  "display_arch_error Arch_UnsupportedArchitecture = ''Unsupported architecture''"
| "display_arch_error Arch_ContextSwitchFailed = ''Context switch failed''"
| "display_arch_error Arch_InvalidCpuState = ''Invalid CPU state''"
| "display_arch_error Arch_InterruptError = ''Interrupt handling error''"
| "display_arch_error Arch_FpuError = ''FPU operation error''"
| "display_arch_error Arch_InvalidInstruction = ''Invalid instruction''"

primrec display_tls_error :: "tls_error \<Rightarrow> string" where
  "display_tls_error Tls_KeyNotFound = ''TLS key not found''"
| "display_tls_error Tls_StorageExhausted = ''TLS storage exhausted''"
| "display_tls_error Tls_InvalidKey = ''Invalid TLS key''"
| "display_tls_error Tls_DataCorrupted = ''TLS data corrupted''"
| "display_tls_error Tls_NotSupported = ''TLS not supported''"

primrec display_permission_error :: "permission_error \<Rightarrow> string" where
  "display_permission_error Permission_NotPermitted = ''Operation not permitted''"
| "display_permission_error Permission_AccessDenied = ''Access denied''"
| "display_permission_error Permission_InsufficientPrivileges = ''Insufficient privileges''"
| "display_permission_error Permission_SecurityViolation = ''Security policy violation''"
| "display_permission_error Permission_SecurityRisk = ''Operation would compromise security''"

primrec display_resource_error :: "resource_error \<Rightarrow> string" where
  "display_resource_error Resource_MaxThreadsPerProcess = ''Maximum threads per process exceeded''"
| "display_resource_error Resource_MaxThreadsPerUser = ''Maximum threads per user exceeded''"
| "display_resource_error Resource_MaxMemoryUsage = ''Maximum memory usage exceeded''"
| "display_resource_error Resource_MaxCpuTime = ''Maximum CPU time exceeded''"
| "display_resource_error Resource_MaxFileDescriptors = ''Maximum file descriptors exceeded''"
| "display_resource_error Resource_ResourceUnavailable = ''Resource temporarily unavailable''"

primrec display_invalid_operation_error :: "invalid_operation_error \<Rightarrow> string" where
  "display_invalid_operation_error InvalidOperation_WrongThread = ''Operation called on wrong thread''"
| "display_invalid_operation_error InvalidOperation_WrongState = ''Operation called in wrong state''"
| "display_invalid_operation_error (InvalidOperation_InvalidParameter param) = ''Invalid parameter: '' @ param"
| "display_invalid_operation_error InvalidOperation_NotSupported = ''Operation not supported in current context''"
| "display_invalid_operation_error InvalidOperation_WouldDeadlock = ''Operation would cause deadlock''"
| "display_invalid_operation_error InvalidOperation_AlreadyInProgress = ''Operation already in progress''"

primrec display_thread_error :: "thread_error \<Rightarrow> string" where
  "display_thread_error (Spawn e) = ''Thread spawn error: '' @ display_spawn_error e"
| "display_thread_error (Join e) = ''Thread join error: '' @ display_join_error e"
| "display_thread_error (Schedule e) = ''Scheduling error: '' @ display_schedule_error e"
| "display_thread_error (Memory e) = ''Memory error: '' @ display_memory_error e"
| "display_thread_error (Arch e) = ''Architecture error: '' @ display_arch_error e"
| "display_thread_error (Tls e) = ''Thread-local storage error: '' @ display_tls_error e"
| "display_thread_error (Permission e) = ''Permission error: '' @ display_permission_error e"
| "display_thread_error (Resource e) = ''Resource error: '' @ display_resource_error e"
| "display_thread_error (InvalidOperation e) = ''Invalid operation: '' @ display_invalid_operation_error e"

section \<open>Conversions and constructors\<close>

definition from_spawn_error :: "spawn_error \<Rightarrow> thread_error" where
  "from_spawn_error error = Spawn error"

definition from_join_error :: "join_error \<Rightarrow> thread_error" where
  "from_join_error error = Join error"

definition from_schedule_error :: "schedule_error \<Rightarrow> thread_error" where
  "from_schedule_error error = Schedule error"

definition from_memory_error :: "memory_error \<Rightarrow> thread_error" where
  "from_memory_error error = Memory error"

definition from_arch_error :: "arch_error \<Rightarrow> thread_error" where
  "from_arch_error error = Arch error"

definition from_tls_error :: "tls_error \<Rightarrow> thread_error" where
  "from_tls_error error = Tls error"

definition from_permission_error :: "permission_error \<Rightarrow> thread_error" where
  "from_permission_error error = Permission error"

definition from_resource_error :: "resource_error \<Rightarrow> thread_error" where
  "from_resource_error error = Resource error"

definition from_invalid_operation_error :: "invalid_operation_error \<Rightarrow> thread_error" where
  "from_invalid_operation_error error = InvalidOperation error"

definition memory_error_new :: thread_error where
  "memory_error_new = Memory Memory_OutOfMemory"

definition resource_exhaustion :: thread_error where
  "resource_exhaustion = Resource Resource_ResourceUnavailable"

definition invalid_state :: thread_error where
  "invalid_state = Schedule Schedule_InvalidState"

definition permission_denied :: thread_error where
  "permission_denied = Permission Permission_AccessDenied"

definition unsupported_operation :: "string \<Rightarrow> thread_error" where
  "unsupported_operation msg = InvalidOperation (InvalidOperation_InvalidParameter msg)"

definition other_error :: "string \<Rightarrow> thread_error" where
  "other_error msg = InvalidOperation (InvalidOperation_InvalidParameter msg)"

section \<open>Messages identify errors\<close>

lemma unat_eq_iff: "unat (v :: 'a::len word) = unat w \<longleftrightarrow> v = w"
  by (rule unsigned_word_eqI [THEN iffI, OF _ arg_cong])

lemma digit_char_inj: "d < 16 \<Longrightarrow> e < 16 \<Longrightarrow> digit_char d = digit_char e \<Longrightarrow> d = e"
  by (auto simp: digit_char_def split: if_splits dest!: arg_cong [of _ _ "of_char :: char \<Rightarrow> nat"])

lemma show_radix_nonempty: "show_radix b n \<noteq> []"
  by (subst show_radix.simps) simp

lemma show_radix_inj:
  assumes "2 \<le> b" "b \<le> 16" "show_radix b n = show_radix b m"
  shows "n = m"
  using assms(3)
proof (induction n arbitrary: m rule: less_induct)
  case (less n)
  have unf: "show_radix b k = (if k < b then [digit_char k] else show_radix b (k div b) @ [digit_char (k mod b)])" for k
    using assms(1) by (subst show_radix.simps) simp
  have dig: "k mod b < 16" for k
    using assms by (metis mod_less_divisor less_le_trans not_gr_zero not_less_zero order_less_le_trans zero_neq_numeral le_zero_eq)
  show ?case
  proof (cases "n < b \<and> m < b")
    case True
    then show ?thesis using less.prems assms(2) digit_char_inj by (auto simp: unf)
  next
    case False
    then have big: "\<not> n < b" "\<not> m < b"
      using less.prems show_radix_nonempty [of b "n div b"] show_radix_nonempty [of b "m div b"]
      by (auto simp: unf [of n] unf [of m] split: if_splits)
    then have "show_radix b (n div b) = show_radix b (m div b)" "digit_char (n mod b) = digit_char (m mod b)"
      using less.prems by (auto simp: unf [of n] unf [of m])
    moreover have "n div b < n" using big assms(1) by (intro div_less_dividend) auto
    ultimately have "n div b = m div b" "n mod b = m mod b"
      using less.IH digit_char_inj dig by blast+
    then show ?thesis by (metis div_mult_mod_eq)
  qed
qed

lemma show_dec_inj [simp]: "show_dec n = show_dec m \<longleftrightarrow> n = m"
  using show_radix_inj [of 10 n m] by (auto simp: show_dec_def)

lemma show_hex_inj [simp]: "show_hex n = show_hex m \<longleftrightarrow> n = m"
  using show_radix_inj [of 16 n m] by (auto simp: show_hex_def)

lemma display_spawn_error_inj: "display_spawn_error e = display_spawn_error e' \<Longrightarrow> e = e'"
  by (cases e; cases e') (simp_all add: unat_eq_iff)

lemma display_join_error_inj: "display_join_error e = display_join_error e' \<Longrightarrow> e = e'"
  by (cases e; cases e') (simp_all add: unat_eq_iff)

lemma display_schedule_error_inj: "display_schedule_error e = display_schedule_error e' \<Longrightarrow> e = e'"
  by (cases e; cases e') (simp_all add: unat_eq_iff)

lemma display_memory_error_inj: "display_memory_error e = display_memory_error e' \<Longrightarrow> e = e'"
  by (cases e; cases e') (simp_all add: unat_eq_iff)

lemma display_arch_error_inj: "display_arch_error e = display_arch_error e' \<Longrightarrow> e = e'"
  by (cases e; cases e') (simp_all add: unat_eq_iff)

lemma display_tls_error_inj: "display_tls_error e = display_tls_error e' \<Longrightarrow> e = e'"
  by (cases e; cases e') (simp_all add: unat_eq_iff)

lemma display_permission_error_inj: "display_permission_error e = display_permission_error e' \<Longrightarrow> e = e'"
  by (cases e; cases e') (simp_all add: unat_eq_iff)

lemma display_resource_error_inj: "display_resource_error e = display_resource_error e' \<Longrightarrow> e = e'"
  by (cases e; cases e') (simp_all add: unat_eq_iff)

lemma display_invalid_operation_error_inj: "display_invalid_operation_error e = display_invalid_operation_error e' \<Longrightarrow> e = e'"
  by (cases e; cases e') (simp_all add: unat_eq_iff)

lemmas display_inj = display_spawn_error_inj display_join_error_inj display_schedule_error_inj display_memory_error_inj display_arch_error_inj display_tls_error_inj display_permission_error_inj display_resource_error_inj display_invalid_operation_error_inj

text \<open>
  Every error is identified by its message.  Two thread errors of any category, whatever sizes,
  addresses, names or parameters they carry, display as the same string only if they are the same
  error.
\<close>

theorem display_thread_error_injective: "inj display_thread_error"
proof (rule injI)
  fix e e' assume "display_thread_error e = display_thread_error e'"
  then show "e = e'" by (cases e; cases e') (simp_all add: display_inj)
qed

end
