(* ===== verification/Threads.thy ===== *)
theory Threads
  imports Arc_Lite Time_Slice Stack_Pool Aarch64 Errors
begin

text \<open>
  Threads, handles and the thread builder: \<open>thread/mod.rs\<close>, \<open>thread/handle.rs\<close> and
  \<open>thread/builder.rs\<close>.  A \<open>Thread\<close>, \<open>ReadyRef\<close>, \<open>RunningRef\<close> or \<open>JoinHandle\<close> is a handle to a
  reference-counted \<open>ThreadInner\<close>, so all of them are addresses into one store of
  \<open>thread_inner\<close> cells.  Operations that take \<open>self\<close> by value give the handle up at their end.
  The address of a thread's saved context is the address of its cell.
\<close>

section \<open>Thread identifiers and states\<close>

definition thread_id_new :: "u64 \<Rightarrow> usize" where
  "thread_id_new n = (let id_usize = n in if id_usize = 0 then 1 else id_usize)"

datatype thread_state = Ready | Running | Blocked | Finished

primrec state_code :: "thread_state \<Rightarrow> u8" where
  "state_code Ready = 0"
| "state_code Running = 1"
| "state_code Blocked = 2"
| "state_code Finished = 3"

definition decode_state :: "u8 \<Rightarrow> thread_state" where
  "decode_state state_val =
     (if state_val = 0 then Ready else if state_val = 1 then Running
      else if state_val = 2 then Blocked else if state_val = 3 then Finished else Ready)"

section \<open>The thread control block\<close>

record thread_inner =
  t_id :: usize
  t_state :: u8
  t_priority :: u8
  t_stack :: "stack option"
  t_context :: "aarch64_context spin_mutex"
  t_entry_point :: "usize option"
  t_join_result :: "unit option spin_mutex"
  t_time_slice :: time_slice
  t_name :: "string option spin_mutex"

type_synonym threads = "thread_inner arc_heap"

definition thread_stack_bottom :: "ptr \<Rightarrow> threads \<Rightarrow> u64 option res" where
  "thread_stack_bottom p st =
     rbind (arc_get p st) (\<lambda>t. Inr (map_option stack_bottom (t_stack t)))"

text \<open>\<open>setup_initial_context\<close>, on AArch64 without the \<open>full-fpu\<close> fields.\<close>

definition initial_context :: "usize \<Rightarrow> usize \<Rightarrow> usize \<Rightarrow> aarch64_context" where
  "initial_context entry_point sp_top arg =
     \<lparr>c_x = (\<lambda>_. 0)(0 := arg), c_sp = sp_top, c_pc = entry_point, c_pstate = 0x3c5\<rparr>"

definition setup_initial_context ::
  "usize \<Rightarrow> usize \<Rightarrow> usize \<Rightarrow> ptr \<Rightarrow> threads \<Rightarrow> threads res" where
  "setup_initial_context entry_point sp_top arg p st =
     rbind (arc_get p st) (\<lambda>t.
     rbind (mutex_lock (t_context t)) (\<lambda>(_, guard).
       arc_modify p (\<lambda>t. t\<lparr>t_context :=
         mutex_unlock (initial_context entry_point sp_top arg) guard\<rparr>) st))"

definition new_thread_inner :: "usize \<Rightarrow> stack \<Rightarrow> usize \<Rightarrow> u8 \<Rightarrow> thread_inner" where
  "new_thread_inner tid stk entry_point priority =
     \<lparr>t_id = tid, t_state = state_code Ready, t_priority = priority, t_stack = Some stk,
      t_context = mutex_new default_context, t_entry_point = Some entry_point,
      t_join_result = mutex_new None, t_time_slice = new_time_slice priority,
      t_name = mutex_new None\<rparr>"

text \<open>\<open>Thread::new\<close> returns the thread handle and the join handle.\<close>

definition thread_new ::
  "usize \<Rightarrow> stack \<Rightarrow> usize \<Rightarrow> u8 \<Rightarrow> threads \<Rightarrow> (ptr \<times> ptr \<times> threads) res" where
  "thread_new tid stk entry_point priority st =
     rbind (arc_new (new_thread_inner tid stk entry_point priority) st) (\<lambda>(inner_arc, st1).
     rbind (arc_clone inner_arc st1) (\<lambda>(thread, st2).
     rbind (thread_stack_bottom thread st2) (\<lambda>bottom.
       case bottom of
         Some sp_top \<Rightarrow>
           rbind (setup_initial_context entry_point sp_top 0 thread st2) (\<lambda>st3.
             Inr (thread, inner_arc, st3))
       | None \<Rightarrow> Inr (thread, inner_arc, st2))))"

section \<open>Operations on a thread\<close>

definition thread_id_of :: "ptr \<Rightarrow> threads \<Rightarrow> usize res" where
  "thread_id_of p st = rbind (arc_get p st) (\<lambda>t. Inr (t_id t))"

definition get_state :: "ptr \<Rightarrow> threads \<Rightarrow> thread_state res" where
  "get_state p st = rbind (arc_get p st) (\<lambda>t. Inr (decode_state (t_state t)))"

definition set_state :: "ptr \<Rightarrow> thread_state \<Rightarrow> threads \<Rightarrow> threads res" where
  "set_state p new_state st = arc_modify p (\<lambda>t. t\<lparr>t_state := state_code new_state\<rparr>) st"

definition get_priority :: "ptr \<Rightarrow> threads \<Rightarrow> u8 res" where
  "get_priority p st = rbind (arc_get p st) (\<lambda>t. Inr (t_priority t))"

definition thread_set_priority :: "ptr \<Rightarrow> u8 \<Rightarrow> threads \<Rightarrow> threads res" where
  "thread_set_priority p new_priority st =
     arc_modify p (\<lambda>t. t\<lparr>t_priority := new_priority,
       t_time_slice := ts_set_priority new_priority (t_time_slice t)\<rparr>) st"

definition is_runnable :: "ptr \<Rightarrow> threads \<Rightarrow> bool res" where
  "is_runnable p st = rbind (get_state p st) (\<lambda>s. Inr (s = Ready \<or> s = Running))"

definition thread_clone :: "ptr \<Rightarrow> threads \<Rightarrow> (ptr \<times> threads) res" where
  "thread_clone p st = arc_clone p st"

definition context_ptr :: "ptr \<Rightarrow> threads \<Rightarrow> ptr res" where
  "context_ptr p st =
     rbind (arc_get p st) (\<lambda>t. rbind (mutex_lock (t_context t)) (\<lambda>_. Inr p))"

definition check_stack_integrity :: "dmem \<Rightarrow> ptr \<Rightarrow> threads \<Rightarrow> bool res" where
  "check_stack_integrity m p st =
     rbind (arc_get p st) (\<lambda>t.
       case t_stack t of
         Some stk \<Rightarrow> Inr (check_canary m stk 0xDEADBEEFCAFEBABE)
       | None \<Rightarrow> Inr False)"

text \<open>\<open>now\<close> is what \<open>Instant::now()\<close> returns.\<close>

definition start_time_slice :: "instant \<Rightarrow> ptr \<Rightarrow> threads \<Rightarrow> threads res" where
  "start_time_slice now p st =
     arc_modify p (\<lambda>t. t\<lparr>t_time_slice := start_slice now (t_time_slice t)\<rparr>) st"

definition should_preempt :: "bool \<Rightarrow> instant \<Rightarrow> ptr \<Rightarrow> threads \<Rightarrow> (bool \<times> threads) res" where
  "should_preempt checks now p st =
     rbind (arc_get p st) (\<lambda>t.
     rbind (update_vruntime checks now (t_time_slice t)) (\<lambda>(expired, ts).
     rbind (arc_modify p (\<lambda>t. t\<lparr>t_time_slice := ts\<rparr>) st) (\<lambda>st'. Inr (expired, st'))))"

definition thread_vruntime :: "ptr \<Rightarrow> threads \<Rightarrow> u64 res" where
  "thread_vruntime p st = rbind (arc_get p st) (\<lambda>t. Inr (ts_vruntime (t_time_slice t)))"

definition set_name :: "string \<Rightarrow> ptr \<Rightarrow> threads \<Rightarrow> threads res" where
  "set_name nm p st =
     rbind (arc_get p st) (\<lambda>t.
       case mutex_try_lock (t_name t) of
         None \<Rightarrow> Inr st
       | Some (_, guard) \<Rightarrow> arc_modify p (\<lambda>t. t\<lparr>t_name := mutex_unlock (Some nm) guard\<rparr>) st)"

definition get_name :: "ptr \<Rightarrow> threads \<Rightarrow> string option res" where
  "get_name p st =
     rbind (arc_get p st) (\<lambda>t.
       case mutex_try_lock (t_name t) of None \<Rightarrow> Inr None | Some (nm, _) \<Rightarrow> Inr nm)"

section \<open>Ready and running references\<close>

definition start_running :: "instant \<Rightarrow> ptr \<Rightarrow> threads \<Rightarrow> (ptr \<times> threads) res" where
  "start_running now p st =
     rbind (set_state p Running st) (\<lambda>st1.
     rbind (start_time_slice now p st1) (\<lambda>st2. Inr (p, st2)))"

definition stop_running :: "ptr \<Rightarrow> threads \<Rightarrow> (ptr \<times> threads) res" where
  "stop_running p st = rbind (set_state p Ready st) (\<lambda>st1. Inr (p, st1))"

definition block_running :: "bool \<Rightarrow> ptr \<Rightarrow> threads \<Rightarrow> threads res" where
  "block_running std_shim p st =
     rbind (set_state p Blocked st) (\<lambda>st1. arc_drop std_shim p st1)"

definition finish_running :: "bool \<Rightarrow> ptr \<Rightarrow> threads \<Rightarrow> threads res" where
  "finish_running std_shim p st =
     rbind (set_state p Finished st) (\<lambda>st1.
     rbind (arc_get p st1) (\<lambda>t.
     rbind (case mutex_try_lock (t_join_result t) of
              None \<Rightarrow> Inr st1
            | Some (_, guard) \<Rightarrow>
                arc_modify p (\<lambda>t. t\<lparr>t_join_result := mutex_unlock (Some ()) guard\<rparr>) st1) (\<lambda>st2.
       arc_drop std_shim p st2)))"

definition prepare_preemption :: "ptr \<Rightarrow> threads \<Rightarrow> (ptr \<times> threads) res" where
  "prepare_preemption p st =
     rbind (arc_clone p st) (\<lambda>(ready, st1).
     rbind (set_state ready Ready st1) (\<lambda>st2. Inr (ready, st2)))"

definition last_cpu :: "ptr \<Rightarrow> usize" where
  "last_cpu p = 0"

section \<open>Join handles\<close>

definition is_alive :: "ptr \<Rightarrow> threads \<Rightarrow> bool res" where
  "is_alive p st = rbind (arc_get p st) (\<lambda>t. Inr (t_state t \<noteq> state_code Finished))"

text \<open>The end of \<open>join\<close> and \<open>try_join\<close>: \<open>True\<close> is \<open>Ok(())\<close>.\<close>

definition join_outcome :: "thread_inner \<Rightarrow> bool" where
  "join_outcome t =
     (case mutex_try_lock (t_join_result t) of None \<Rightarrow> False | Some (r, _) \<Rightarrow> r \<noteq> None)"

definition try_join :: "ptr \<Rightarrow> threads \<Rightarrow> bool option res" where
  "try_join p st =
     rbind (arc_get p st) (\<lambda>t.
       if t_state t = state_code Finished then Inr (Some (join_outcome t)) else Inr None)"

text \<open>
  \<open>join\<close> polls and yields.  \<open>yield_now\<close> runs other threads, so it transforms the whole system \<open>w\<close>,
  of which \<open>threads_of\<close> reads the thread store and \<open>with_threads\<close> replaces it; the handle is
  dropped on return.
\<close>

primrec join_loop ::
  "nat \<Rightarrow> ('w \<Rightarrow> 'w res) \<Rightarrow> ('w \<Rightarrow> threads) \<Rightarrow> ptr \<Rightarrow> 'w \<Rightarrow> 'w res" where
  "join_loop 0 yield_now threads_of p w = Inl OutOfFuel"
| "join_loop (Suc fuel) yield_now threads_of p w =
     rbind (arc_get p (threads_of w)) (\<lambda>t.
       if t_state t = state_code Finished then Inr w
       else rbind (yield_now w) (\<lambda>w'. join_loop fuel yield_now threads_of p w'))"

definition join ::
  "bool \<Rightarrow> nat \<Rightarrow> ('w \<Rightarrow> 'w res) \<Rightarrow> ('w \<Rightarrow> threads) \<Rightarrow> (threads \<Rightarrow> 'w \<Rightarrow> 'w) \<Rightarrow> ptr \<Rightarrow> 'w \<Rightarrow>
   (bool \<times> 'w) res" where
  "join std_shim fuel yield_now threads_of with_threads p w =
     rbind (join_loop fuel yield_now threads_of p w) (\<lambda>w1.
     rbind (arc_get p (threads_of w1)) (\<lambda>t.
     rbind (arc_drop std_shim p (threads_of w1)) (\<lambda>st.
       Inr (join_outcome t, with_threads st w1))))"

section \<open>The builder\<close>

record thread_builder =
  b_stack_size :: stack_size_class
  b_priority :: u8
  b_name :: "string option"

definition new_builder :: thread_builder where
  "new_builder = \<lparr>b_stack_size = Medium, b_priority = 128, b_name = None\<rparr>"

definition with_stack_size :: "stack_size_class \<Rightarrow> thread_builder \<Rightarrow> thread_builder" where
  "with_stack_size sz b = b\<lparr>b_stack_size := sz\<rparr>"

definition with_priority :: "u8 \<Rightarrow> thread_builder \<Rightarrow> thread_builder" where
  "with_priority priority b = b\<lparr>b_priority := priority\<rparr>"

definition with_name :: "string \<Rightarrow> thread_builder \<Rightarrow> thread_builder" where
  "with_name nm b = b\<lparr>b_name := Some nm\<rparr>"

text \<open>
  \<open>ThreadBuilder::spawn\<close> ignores the closure it is given: the new thread's entry point is the empty
  function, whose address is \<open>empty_fn\<close>.
\<close>

definition builder_spawn ::
  "('h \<Rightarrow> usize \<Rightarrow> usize \<Rightarrow> u64 \<times> 'h) \<Rightarrow> usize \<Rightarrow> thread_builder \<Rightarrow> 'f \<Rightarrow> usize \<Rightarrow>
   stack_pool \<Rightarrow> threads \<Rightarrow> 'h \<Rightarrow> ((spawn_error + ptr \<times> ptr) \<times> stack_pool \<times> threads \<times> 'h) res" where
  "builder_spawn alloc empty_fn b f next_id pool st h =
     (case pool_allocate alloc h pool (b_stack_size b) of
        (None, pool1, h1) \<Rightarrow> Inr (Inl Spawn_OutOfMemory, pool1, st, h1)
      | (Some stk, pool1, h1) \<Rightarrow>
          rbind (thread_new next_id stk empty_fn (b_priority b) st) (\<lambda>(thread, handle, st1).
          rbind (case b_name b of
                   None \<Rightarrow> Inr st1
                 | Some nm \<Rightarrow> set_name nm thread st1) (\<lambda>st2.
            Inr (Inr (thread, handle), pool1, st2, h1))))"

section \<open>Effects on the store\<close>

text \<open>The store with one thread's data or reference count changed; every operation on a live
  thread amounts to such changes.\<close>

definition tmod :: "ptr \<Rightarrow> (thread_inner \<Rightarrow> thread_inner) \<Rightarrow> threads \<Rightarrow> threads" where
  "tmod p f st = (let c = the (ah_cells st p) in
     st\<lparr>ah_cells := (ah_cells st)(p \<mapsto> c\<lparr>arc_data := f (arc_data c)\<rparr>)\<rparr>)"

definition cmod :: "ptr \<Rightarrow> (usize \<Rightarrow> usize) \<Rightarrow> threads \<Rightarrow> threads" where
  "cmod p f st = (let c = the (ah_cells st p) in
     st\<lparr>ah_cells := (ah_cells st)(p \<mapsto> c\<lparr>arc_count := f (arc_count c)\<rparr>)\<rparr>)"

lemma arc_modify_tmod [simp]: "arc_live st p \<Longrightarrow> arc_modify p f st = Inr (tmod p f st)"
  by (auto simp: arc_live_def arc_modify_def tmod_def Let_def)

lemma arc_clone_cmod [simp]: "arc_live st p \<Longrightarrow> arc_clone p st = Inr (p, cmod p (\<lambda>n. n + 1) st)"
  by (auto simp: arc_live_def arc_clone_def arc_set_count_def cmod_def Let_def)

lemma arc_drop_cmod:
  "arc_live st p \<Longrightarrow> arc_cnt st p \<noteq> 1 \<Longrightarrow> arc_drop std_shim p st = Inr (cmod p (\<lambda>n. n - 1) st)"
  by (auto simp: arc_live_def arc_cnt_def arc_drop_def arc_dec_def arc_set_count_def cmod_def Let_def)

lemma tmod_obs [simp]:
  "arc_live st p \<Longrightarrow> arc_live (tmod p f st) q = arc_live st q"
  "arc_live st p \<Longrightarrow> arc_cnt (tmod p f st) q = arc_cnt st q"
  "arc_live st p \<Longrightarrow> arc_val (tmod p f st) q = (if q = p then f (arc_val st p) else arc_val st q)"
  "ah_next (tmod p f st) = ah_next st" "ah_room (tmod p f st) = ah_room st"
  by (auto simp: arc_obs tmod_def Let_def)

lemma cmod_obs [simp]:
  "arc_live st p \<Longrightarrow> arc_live (cmod p f st) q = arc_live st q"
  "arc_live st p \<Longrightarrow> arc_cnt (cmod p f st) q = (if q = p then f (arc_cnt st p) else arc_cnt st q)"
  "arc_live st p \<Longrightarrow> arc_val (cmod p f st) q = arc_val st q"
  "ah_next (cmod p f st) = ah_next st" "ah_room (cmod p f st) = ah_room st"
  by (auto simp: arc_obs cmod_def Let_def)

lemma decode_state_code [simp]: "decode_state (state_code s) = s"
  by (cases s) (simp_all add: decode_state_def)

declare state_code.simps [simp del]

lemma state_code_inj [simp]: "state_code s = state_code s' \<longleftrightarrow> s = s'"
  by (metis decode_state_code)

lemmas thread_ops = thread_id_of_def get_state_def set_state_def get_priority_def
  thread_set_priority_def is_runnable_def context_ptr_def start_time_slice_def
  start_running_def stop_running_def block_running_def finish_running_def prepare_preemption_def
  is_alive_def try_join_def mutex_lock_def mutex_try_lock_def mutex_unlock_new

text \<open>A fresh thread: where it is, what it holds, and that nothing else changed.\<close>

text \<open>A clone is another owner of the same control block; dropping it gives the store back as it was.\<close>

lemma thread_clone_drop:
  assumes "arc_live st p" "arc_cnt st p \<noteq> 0"
  shows "\<exists>st'. thread_clone p st = Inr (p, st') \<and> arc_cnt st' p = arc_cnt st p + 1 \<and> arc_drop std_shim p st' = Inr st"
proof -
  let ?st = "cmod p (\<lambda>n. n + 1) st"
  have "arc_cnt ?st p \<noteq> 1" using assms by simp
  then have "arc_drop std_shim p ?st = Inr (cmod p (\<lambda>n. n - 1) ?st)" using assms(1) by (simp add: arc_drop_cmod)
  moreover have "cmod p (\<lambda>n. n - 1) ?st = st"
    using assms(1) by (auto simp: arc_live_def cmod_def Let_def fun_upd_idem)
  ultimately show ?thesis using assms(1) by (simp add: thread_clone_def)
qed

lemma thread_new_run:
  assumes "ah_room st \<noteq> 0" "0 < ah_next st"
  obtains st' where
    "thread_new tid stk entry priority st = Inr (ah_next st, ah_next st, st')"
    "arc_live st' (ah_next st)" "arc_cnt st' (ah_next st) = 2"
    "arc_val st' (ah_next st) = (new_thread_inner tid stk entry priority)
       \<lparr>t_context := mutex_new (initial_context entry (stack_bottom stk) 0)\<rparr>"
    "\<And>q. q \<noteq> ah_next st \<Longrightarrow> arc_live st' q = arc_live st q"
    "\<And>q. q \<noteq> ah_next st \<Longrightarrow> arc_val st' q = arc_val st q"
    "\<And>q. q \<noteq> ah_next st \<Longrightarrow> arc_cnt st' q = arc_cnt st q"
    "ah_next st' = Suc (ah_next st)" "ah_room st' = ah_room st - 1"
proof -
  let ?p = "ah_next st"
  define st1 where "st1 = st\<lparr>ah_cells := (ah_cells st)(?p \<mapsto>
      \<lparr>arc_count = 1, arc_data = new_thread_inner tid stk entry priority\<rparr>),
      ah_next := Suc ?p, ah_room := ah_room st - 1\<rparr>"
  define st2 where "st2 = cmod ?p (\<lambda>n. n + 1) st1"
  have l1: "arc_live st1 ?p" and v1: "arc_val st1 ?p = new_thread_inner tid stk entry priority"
    and c1: "arc_cnt st1 ?p = 1"
    using assms by (simp_all add: st1_def arc_obs)
  have o1: "q \<noteq> ?p \<Longrightarrow> arc_live st1 q = arc_live st q \<and> arc_val st1 q = arc_val st q \<and> arc_cnt st1 q = arc_cnt st q" for q
    by (simp add: st1_def arc_obs)
  have l2: "arc_live st2 ?p" using l1 by (simp add: st2_def)
  define st3 where "st3 = tmod ?p (\<lambda>t. t\<lparr>t_context := mutex_new (initial_context entry (stack_bottom stk) 0)\<rparr>) st2"
  have "arc_new (new_thread_inner tid stk entry priority) st = Inr (?p, st1)"
    using assms by (simp add: arc_new_def st1_def)
  moreover have "setup_initial_context entry (stack_bottom stk) 0 ?p st2 = Inr st3"
    using l1 l2 v1 by (simp add: setup_initial_context_def st2_def st3_def new_thread_inner_def
        mutex_lock_def mutex_unlock_new)
  ultimately have run: "thread_new tid stk entry priority st = Inr (?p, ?p, st3)"
    using l1 l2 v1 by (simp add: thread_new_def thread_stack_bottom_def st2_def new_thread_inner_def)
  show ?thesis
    by (rule that [OF run]) (use l1 l2 v1 c1 o1 in \<open>simp_all add: st3_def st2_def\<close>,
        simp_all add: st1_def)
qed

section \<open>Properties\<close>

text \<open>
  C23. A new thread.  As long as the allocator has room, \<open>Thread::new\<close> succeeds and yields a thread
  that is Ready, runnable and alive, has the requested identifier and priority, is referenced by
  exactly the thread handle and the join handle, and whose context enters the entry point on the
  16-byte aligned end of its stack; the join handle reports no result yet and no other thread is
  affected.  Without room the allocation failure is a panic.
\<close>

theorem new_thread_starts_ready:
  assumes "0 < ah_next st"
  shows "(ah_room st = 0 \<longrightarrow> thread_new tid stk entry priority st = Inl AllocFailure) \<and>
    (ah_room st \<noteq> 0 \<longrightarrow> (\<exists>p st'. thread_new tid stk entry priority st = Inr (p, p, st') \<and>
       get_state p st' = Inr Ready \<and> is_runnable p st' = Inr True \<and> is_alive p st' = Inr True \<and>
       try_join p st' = Inr None \<and> thread_id_of p st' = Inr tid \<and> get_priority p st' = Inr priority \<and>
       ref_count p st' = Inr 2 \<and>
       m_value (t_context (arc_val st' p)) = initial_context entry (stack_bottom stk) 0 \<and>
       (\<forall>q. q \<noteq> p \<longrightarrow> arc_live st' q = arc_live st q \<and> arc_val st' q = arc_val st q)))"
proof (cases "ah_room st = 0")
  case True
  then show ?thesis by (simp add: thread_new_def arc_new_def)
next
  case False
  obtain st' where st': "thread_new tid stk entry priority st = Inr (ah_next st, ah_next st, st')"
    "arc_live st' (ah_next st)" "arc_cnt st' (ah_next st) = 2"
    "arc_val st' (ah_next st) = (new_thread_inner tid stk entry priority)
       \<lparr>t_context := mutex_new (initial_context entry (stack_bottom stk) 0)\<rparr>"
    "\<And>q. q \<noteq> ah_next st \<Longrightarrow> arc_live st' q = arc_live st q"
    "\<And>q. q \<noteq> ah_next st \<Longrightarrow> arc_val st' q = arc_val st q"
    by (rule thread_new_run [OF False assms, of tid stk entry priority]) blast
  have "ref_count (ah_next st) st' = Inr 2"
    using st'(2,3) by (auto simp: ref_count_def arc_obs)
  then show ?thesis
    using st' False by (intro conjI impI exI [of _ "ah_next st"] exI [of _ st'])
      (simp_all add: thread_ops new_thread_inner_def)
qed

theorem new_thread_starts_ready_witness:
  "\<exists>stk p st'. thread_new 7 stk 0x4000 128 (arc_empty 3 []) = Inr (p, p, st') \<and>
     get_state p st' = Inr Ready \<and> ref_count p st' = Inr 2 \<and>
     c_sp (m_value (t_context (arc_val st' p))) = 0x91000"
proof -
  define stk where "stk = \<lparr>st_memory = 0x90000, st_usable_size = 4096, st_size_class = Small,
    st_has_guard_pages = False\<rparr>"
  have "0 < ah_next (arc_empty 3 [] :: threads)" by (simp add: arc_empty_def)
  from new_thread_starts_ready [OF this, of 7 stk "0x4000" 128] show ?thesis
    by (auto simp: arc_empty_def initial_context_def stk_def stack_bottom_def intro!: exI [of _ stk])
qed

text \<open>
  C26. What a joiner learns.  A thread that ends through \<open>RunningRef::finish\<close> reports \<open>Ok(())\<close> to its
  join handle.  A thread whose state is only set to Finished, which is all that
  \<open>Kernel::finish_and_yield\<close> does, reports \<open>Err(())\<close>, although it ended normally.
\<close>

theorem join_result_needs_finish:
  assumes "arc_live st p" "arc_cnt st p \<noteq> 1" "\<not> m_locked (t_join_result (arc_val st p))"
    and "m_value (t_join_result (arc_val st p)) = None"
  shows "(\<exists>st'. finish_running std_shim p st = Inr st' \<and> is_alive p st' = Inr False \<and>
      try_join p st' = Inr (Some True)) \<and>
    (\<exists>st'. set_state p Finished st = Inr st' \<and> is_alive p st' = Inr False \<and>
      try_join p st' = Inr (Some False))"
  using assms by (simp add: thread_ops arc_drop_cmod join_outcome_def)

theorem join_result_needs_finish_witness:
  "\<exists>st p. (\<exists>st'. finish_running False p st = Inr st' \<and> try_join p st' = Inr (Some True)) \<and>
     (\<exists>st'. set_state p Finished st = Inr st' \<and> try_join p st' = Inr (Some False))"
proof -
  define stk where "stk = \<lparr>st_memory = 0x90000, st_usable_size = 4096, st_size_class = Small,
    st_has_guard_pages = False\<rparr>"
  obtain st :: threads where st: "arc_live st 1" "arc_cnt st 1 = 2"
    "arc_val st 1 = (new_thread_inner 7 stk 0x4000 128)
       \<lparr>t_context := mutex_new (initial_context 0x4000 (stack_bottom stk) 0)\<rparr>"
    by (rule thread_new_run [of "arc_empty 3 [] :: threads" 7 stk "0x4000" 128])
      (auto simp: arc_empty_def)
  then have "arc_cnt st 1 \<noteq> 1" "\<not> m_locked (t_join_result (arc_val st 1))"
    "m_value (t_join_result (arc_val st 1)) = None"
    by (simp_all add: new_thread_inner_def)
  from join_result_needs_finish [OF st(1) this, of False] show ?thesis by blast
qed

text \<open>The system after a number of yields.\<close>

primrec yield_n :: "('w \<Rightarrow> 'w res) \<Rightarrow> nat \<Rightarrow> 'w \<Rightarrow> 'w res" where
  "yield_n y 0 w = Inr w"
| "yield_n y (Suc n) w = rbind (y w) (yield_n y n)"

definition finished_in :: "('w \<Rightarrow> threads) \<Rightarrow> ptr \<Rightarrow> 'w \<Rightarrow> bool" where
  "finished_in threads_of p w \<longleftrightarrow> t_state (arc_val (threads_of w) p) = state_code Finished"



text \<open>
  C1. The builder.  \<open>ThreadBuilder::spawn\<close> reports \<open>OutOfMemory\<close> when the pool has no stack of the
  requested class and then creates no thread.  Otherwise the thread it creates has the chosen
  priority and name and a stack of the chosen class, but it runs the empty function whatever
  closure was passed.
\<close>

theorem builder_spawn_result:
  assumes "ah_room st \<noteq> 0" "0 < ah_next st"
  shows "case pool_allocate alloc h pool (b_stack_size b) of
    (None, pool1, h1) \<Rightarrow> builder_spawn alloc empty_fn b f tid pool st h = Inr (Inl Spawn_OutOfMemory, pool1, st, h1)
  | (Some stk, pool1, h1) \<Rightarrow>
      (\<exists>p st'. builder_spawn alloc empty_fn b f tid pool st h = Inr (Inr (p, p), pool1, st', h1) \<and>
        get_priority p st' = Inr (b_priority b) \<and> get_name p st' = Inr (b_name b) \<and>
        t_stack (arc_val st' p) = Some stk \<and>
        c_pc (m_value (t_context (arc_val st' p))) = empty_fn)"
proof -
  obtain r pool1 h1 where r: "pool_allocate alloc h pool (b_stack_size b) = (r, pool1, h1)"
    by (cases "pool_allocate alloc h pool (b_stack_size b)") auto
  show ?thesis
  proof (cases r)
    case None
    with r show ?thesis by (simp add: builder_spawn_def)
  next
    case (Some stk)
    let ?p = "ah_next st"
    obtain st' where st': "thread_new tid stk empty_fn (b_priority b) st = Inr (?p, ?p, st')"
      "arc_live st' ?p"
      "arc_val st' ?p = (new_thread_inner tid stk empty_fn (b_priority b))
         \<lparr>t_context := mutex_new (initial_context empty_fn (stack_bottom stk) 0)\<rparr>"
      by (rule thread_new_run [OF assms, of tid stk empty_fn "b_priority b"]) blast
    define st2 where "st2 = (case b_name b of None \<Rightarrow> st'
      | Some nm \<Rightarrow> tmod ?p (\<lambda>t. t\<lparr>t_name := mutex_new (Some nm)\<rparr>) st')"
    have "builder_spawn alloc empty_fn b f tid pool st h = Inr (Inr (?p, ?p), pool1, st2, h1)"
      using r Some st' by (simp add: builder_spawn_def set_name_def mutex_try_lock_def
          mutex_unlock_new new_thread_inner_def st2_def split: option.split)
    then show ?thesis
      using r Some st' by (auto simp: st2_def get_priority_def get_name_def mutex_try_lock_def
          new_thread_inner_def initial_context_def split: option.splits)
  qed
qed

theorem builder_spawn_result_witness:
  "\<exists>p pool1 st' h1. builder_spawn (bump_alloc []) 0x5000 (with_name ''worker'' (with_priority 200 new_builder))
       (\<lambda>x::nat. x) 9 new_stack_pool (arc_empty 3 []) \<lparr>heap_start = 0x90000, heap_next = 0\<rparr>
     = Inr (Inr (p, p), pool1, st', h1) \<and> get_priority p st' = Inr 200 \<and>
     get_name p st' = Inr (Some ''worker'')"
proof -
  let ?b = "with_name ''worker'' (with_priority 200 new_builder)"
  let ?h = "\<lparr>heap_start = 0x90000, heap_next = 0\<rparr>"
  obtain r pool1 h1 where r: "pool_allocate (bump_alloc []) ?h new_stack_pool (b_stack_size ?b) = (r, pool1, h1)"
    by (cases "pool_allocate (bump_alloc []) ?h new_stack_pool (b_stack_size ?b)") auto
  moreover have "fst (pool_allocate (bump_alloc []) ?h new_stack_pool (b_stack_size ?b)) \<noteq> None"
    by (simp add: pool_allocate_def allocate_new_stack_def layout_from_size_align_def
        new_stack_pool_def mutex_try_lock_def mutex_unlock_new vec_pop_def bump_candidate_def
        HEAP_SIZE_def with_name_def with_priority_def new_builder_def)
  ultimately obtain stk where "r = Some stk" by auto
  with builder_spawn_result [where st = "arc_empty 3 []" and alloc = "bump_alloc []" and h = ?h
      and pool = new_stack_pool and b = ?b and empty_fn = "0x5000" and f = "\<lambda>x::nat. x" and tid = 9] r
  show ?thesis by (auto simp: arc_empty_def with_name_def with_priority_def new_builder_def)
qed

end
