(* ===== verification/Scheduler.thy ===== *)
theory Scheduler
  imports Lock_Free_Queue Threads
begin

text \<open>
  The \<open>Scheduler\<close> trait (\<open>sched/trait_def.rs\<close>) as a record of operations, the two schedulers that
  implement it (\<open>sched/rr.rs\<close>) and the contract a kernel relies on.  A queue holds thread handles,
  that is addresses into the thread store; reading a thread's priority or identifier reads that
  store.  CPU numbers are natural numbers: the boxed slice of run queues bounds them far below the
  range of \<open>usize\<close>.  Counters are 64-bit words and wrap like the atomics.
\<close>

section \<open>The trait\<close>

type_synonym cpu_id = nat

record 's scheduler_ops =
  so_enqueue :: "ptr \<Rightarrow> 's \<Rightarrow> threads \<Rightarrow> 's res"
  so_pick_next :: "cpu_id \<Rightarrow> 's \<Rightarrow> threads \<Rightarrow> (ptr option \<times> 's) res"
  so_on_tick :: "bool \<Rightarrow> bool \<Rightarrow> instant \<Rightarrow> ptr \<Rightarrow> 's \<Rightarrow> threads \<Rightarrow> (ptr option \<times> 's \<times> threads) res"
  so_set_priority :: "usize \<Rightarrow> u8 \<Rightarrow> 's \<Rightarrow> 's"
  so_on_yield :: "ptr \<Rightarrow> 's \<Rightarrow> threads \<Rightarrow> ('s \<times> threads) res"
  so_on_block :: "bool \<Rightarrow> ptr \<Rightarrow> 's \<Rightarrow> threads \<Rightarrow> ('s \<times> threads) res"
  so_wake_up :: "ptr \<Rightarrow> 's \<Rightarrow> threads \<Rightarrow> 's res"
  so_stats :: "'s \<Rightarrow> usize \<times> usize \<times> usize"

text \<open>The default methods of the trait.\<close>

definition default_on_yield ::
  "(ptr \<Rightarrow> 's \<Rightarrow> threads \<Rightarrow> 's res) \<Rightarrow> ptr \<Rightarrow> 's \<Rightarrow> threads \<Rightarrow> ('s \<times> threads) res" where
  "default_on_yield enqueue current s st =
     rbind (stop_running current st) (\<lambda>(ready, st1).
     rbind (enqueue ready s st1) (\<lambda>s1. Inr (s1, st1)))"

definition default_on_block :: "bool \<Rightarrow> ptr \<Rightarrow> 's \<Rightarrow> threads \<Rightarrow> ('s \<times> threads) res" where
  "default_on_block std_shim current s st =
     rbind (block_running std_shim current st) (\<lambda>st1. Inr (s, st1))"

definition default_stats :: "'s \<Rightarrow> usize \<times> usize \<times> usize" where
  "default_stats s = (0, 0, 0)"

definition IDLE :: u8 where "IDLE = 0"
definition LOW :: u8 where "LOW = 64"
definition NORMAL :: u8 where "NORMAL = 128"
definition HIGH :: u8 where "HIGH = 192"
definition REALTIME :: u8 where "REALTIME = 255"

section \<open>First come first served\<close>

record fcfs =
  fc_queue :: "ptr lock_free_queue"
  fc_runnable :: usize

definition fcfs_new :: "bool list \<Rightarrow> fcfs" where
  "fcfs_new w = \<lparr>fc_queue = new_queue w, fc_runnable = 0\<rparr>"

text \<open>The identifier the log lines print for a queued thread.\<close>

definition logged_id :: "threads \<Rightarrow> ptr \<Rightarrow> usize" where
  "logged_id st p = (case thread_id_of p st of Inr n \<Rightarrow> n | Inl _ \<Rightarrow> 0)"

definition fcfs_enqueue :: "ptr \<Rightarrow> fcfs \<Rightarrow> threads \<Rightarrow> fcfs res" where
  "fcfs_enqueue thread s st =
     rbind (thread_id_of thread st) (\<lambda>tid.
     rbind (debug_list_threads (logged_id st) (fc_queue s)) (\<lambda>before.
     rbind (push thread (fc_queue s)) (\<lambda>q.
     rbind (debug_list_threads (logged_id st) q) (\<lambda>after.
       Inr (s\<lparr>fc_queue := q, fc_runnable := fc_runnable s + 1\<rparr>)))))"

definition fcfs_pick_next :: "cpu_id \<Rightarrow> fcfs \<Rightarrow> threads \<Rightarrow> (ptr option \<times> fcfs) res" where
  "fcfs_pick_next cpu s st =
     rbind (debug_list_threads (logged_id st) (fc_queue s)) (\<lambda>before.
     rbind (try_pop (fc_queue s)) (\<lambda>(t, q).
       case t of
         None \<Rightarrow> Inr (None, s\<lparr>fc_queue := q\<rparr>)
       | Some thread \<Rightarrow>
           rbind (thread_id_of thread st) (\<lambda>tid.
           rbind (debug_list_threads (logged_id st) q) (\<lambda>after.
             Inr (Some thread, s\<lparr>fc_queue := q, fc_runnable := fc_runnable s - 1\<rparr>)))))"

definition fcfs_on_tick ::
  "bool \<Rightarrow> bool \<Rightarrow> instant \<Rightarrow> ptr \<Rightarrow> fcfs \<Rightarrow> threads \<Rightarrow> (ptr option \<times> fcfs \<times> threads) res" where
  "fcfs_on_tick std_shim checks now current s st = Inr (None, s, st)"

definition fcfs_ops :: "fcfs scheduler_ops" where
  "fcfs_ops =
     \<lparr>so_enqueue = fcfs_enqueue, so_pick_next = fcfs_pick_next, so_on_tick = fcfs_on_tick,
      so_set_priority = (\<lambda>tid prio s. s), so_on_yield = default_on_yield fcfs_enqueue,
      so_on_block = default_on_block, so_wake_up = fcfs_enqueue, so_stats = default_stats\<rparr>"

section \<open>Round robin with priorities\<close>

datatype priority_level = High | Normal | Low | Idle

record cpu_run_queue =
  high_priority :: "ptr lock_free_queue"
  normal_priority :: "ptr lock_free_queue"
  low_priority :: "ptr lock_free_queue"
  idle_priority :: "ptr lock_free_queue"
  thread_count :: usize

record round_robin =
  num_cpus :: nat
  run_queues :: "cpu_run_queue list"
  total_threads :: usize
  runnable_threads :: usize

definition new_cpu_run_queue :: "(priority_level \<Rightarrow> bool list) \<Rightarrow> cpu_run_queue" where
  "new_cpu_run_queue w =
     \<lparr>high_priority = new_queue (w High), normal_priority = new_queue (w Normal),
      low_priority = new_queue (w Low), idle_priority = new_queue (w Idle), thread_count = 0\<rparr>"

definition rr_new :: "(nat \<Rightarrow> priority_level \<Rightarrow> bool list) \<Rightarrow> nat \<Rightarrow> round_robin" where
  "rr_new w n =
     \<lparr>num_cpus = n, run_queues = map (\<lambda>i. new_cpu_run_queue (w i)) [0..<n],
      total_threads = 0, runnable_threads = 0\<rparr>"

definition priority_level_of :: "u8 \<Rightarrow> priority_level" where
  "priority_level_of priority =
     (if priority = 0 then Idle else if priority \<le> 63 then Low
      else if priority \<le> 191 then Normal else High)"

primrec level_queue :: "priority_level \<Rightarrow> cpu_run_queue \<Rightarrow> ptr lock_free_queue" where
  "level_queue High q = high_priority q"
| "level_queue Normal q = normal_priority q"
| "level_queue Low q = low_priority q"
| "level_queue Idle q = idle_priority q"

primrec set_level_queue ::
  "priority_level \<Rightarrow> ptr lock_free_queue \<Rightarrow> cpu_run_queue \<Rightarrow> cpu_run_queue" where
  "set_level_queue High v q = q\<lparr>high_priority := v\<rparr>"
| "set_level_queue Normal v q = q\<lparr>normal_priority := v\<rparr>"
| "set_level_queue Low v q = q\<lparr>low_priority := v\<rparr>"
| "set_level_queue Idle v q = q\<lparr>idle_priority := v\<rparr>"

definition index :: "'a list \<Rightarrow> nat \<Rightarrow> 'a res" where
  "index xs i = (if i < length xs then Inr (xs ! i) else Inl IndexOutOfBounds)"

primrec select_cpu_loop :: "cpu_run_queue list \<Rightarrow> cpu_id \<Rightarrow> cpu_id \<Rightarrow> usize \<Rightarrow> cpu_id" where
  "select_cpu_loop [] cpu best min_threads = best"
| "select_cpu_loop (q # qs) cpu best min_threads =
     (if thread_count q < min_threads then select_cpu_loop qs (Suc cpu) cpu (thread_count q)
      else select_cpu_loop qs (Suc cpu) best min_threads)"

definition select_cpu :: "round_robin \<Rightarrow> cpu_id res" where
  "select_cpu s =
     rbind (index (run_queues s) 0) (\<lambda>q0.
       Inr (select_cpu_loop (drop 1 (run_queues s)) 1 0 (thread_count q0)))"

text \<open>Pop from one queue of one CPU; a hit lowers that CPU's count.\<close>

definition pop_level :: "priority_level \<Rightarrow> cpu_id \<Rightarrow> round_robin \<Rightarrow> (ptr option \<times> round_robin) res" where
  "pop_level lvl cpu s =
     rbind (index (run_queues s) cpu) (\<lambda>q.
     rbind (try_pop (level_queue lvl q)) (\<lambda>(t, v).
       let q1 = set_level_queue lvl v q;
           q2 = (case t of None \<Rightarrow> q1 | Some _ \<Rightarrow> q1\<lparr>thread_count := thread_count q1 - 1\<rparr>)
       in Inr (t, s\<lparr>run_queues := (run_queues s)[cpu := q2]\<rparr>)))"

primrec steal_loop ::
  "nat \<Rightarrow> nat \<Rightarrow> cpu_id \<Rightarrow> cpu_id \<Rightarrow> round_robin \<Rightarrow> (ptr option \<times> round_robin) res" where
  "steal_loop 0 i start_cpu requesting_cpu s = Inr (None, s)"
| "steal_loop (Suc k) i start_cpu requesting_cpu s =
     (let victim_cpu = (start_cpu + i) mod num_cpus s
      in if victim_cpu = requesting_cpu then steal_loop k (Suc i) start_cpu requesting_cpu s
         else
           rbind (pop_level Normal victim_cpu s) (\<lambda>(t, s1).
             case t of
               Some thread \<Rightarrow> Inr (Some thread, s1)
             | None \<Rightarrow>
                 rbind (pop_level Low victim_cpu s1) (\<lambda>(t, s2).
                   case t of
                     Some thread \<Rightarrow> Inr (Some thread, s2)
                   | None \<Rightarrow> steal_loop k (Suc i) start_cpu requesting_cpu s2)))"

definition try_steal_work :: "cpu_id \<Rightarrow> round_robin \<Rightarrow> (ptr option \<times> round_robin) res" where
  "try_steal_work requesting_cpu s =
     (if num_cpus s = 0 then Inl DivByZero
      else steal_loop (num_cpus s) 0 ((requesting_cpu + 1) mod num_cpus s) requesting_cpu s)"

definition rr_enqueue :: "ptr \<Rightarrow> round_robin \<Rightarrow> threads \<Rightarrow> round_robin res" where
  "rr_enqueue thread s st =
     rbind (get_priority thread st) (\<lambda>priority.
     rbind (select_cpu s) (\<lambda>cpu.
     rbind (index (run_queues s) cpu) (\<lambda>q.
       let lvl = priority_level_of priority
       in rbind (push thread (level_queue lvl q)) (\<lambda>v.
         let q1 = set_level_queue lvl v q
         in Inr (s\<lparr>run_queues := (run_queues s)[cpu := q1\<lparr>thread_count := thread_count q1 + 1\<rparr>],
                   runnable_threads := runnable_threads s + 1\<rparr>)))))"

definition dec_runnable :: "round_robin \<Rightarrow> round_robin" where
  "dec_runnable s = s\<lparr>runnable_threads := runnable_threads s - 1\<rparr>"

definition rr_pick_next :: "cpu_id \<Rightarrow> round_robin \<Rightarrow> threads \<Rightarrow> (ptr option \<times> round_robin) res" where
  "rr_pick_next cpu s st =
     (if num_cpus s \<le> cpu then Inr (None, s)
      else
        rbind (pop_level High cpu s) (\<lambda>(t, s1). case t of
          Some thread \<Rightarrow> Inr (Some thread, dec_runnable s1)
        | None \<Rightarrow>
        rbind (pop_level Normal cpu s1) (\<lambda>(t, s2). case t of
          Some thread \<Rightarrow> Inr (Some thread, dec_runnable s2)
        | None \<Rightarrow>
        rbind (pop_level Low cpu s2) (\<lambda>(t, s3). case t of
          Some thread \<Rightarrow> Inr (Some thread, dec_runnable s3)
        | None \<Rightarrow>
        rbind (pop_level Idle cpu s3) (\<lambda>(t, s4). case t of
          Some thread \<Rightarrow> Inr (Some thread, dec_runnable s4)
        | None \<Rightarrow>
        rbind (try_steal_work cpu s4) (\<lambda>(t, s5). case t of
          Some thread \<Rightarrow> Inr (Some thread, dec_runnable s5)
        | None \<Rightarrow> Inr (None, s5)))))))"

text \<open>Whether a queue of the given CPU has a waiting thread (\<open>peek().is_some()\<close>).\<close>

definition waiting :: "priority_level \<Rightarrow> cpu_run_queue \<Rightarrow> bool res" where
  "waiting lvl q = rbind (peek (level_queue lvl q)) (\<lambda>t. Inr (t \<noteq> None))"

text \<open>\<open>||\<close> evaluates its right operand only when the left one is false.\<close>

primrec any_waiting :: "priority_level list \<Rightarrow> cpu_run_queue \<Rightarrow> bool res" where
  "any_waiting [] q = Inr False"
| "any_waiting (l # ls) q = rbind (waiting l q) (\<lambda>b. if b then Inr True else any_waiting ls q)"

primrec preempting_levels :: "priority_level \<Rightarrow> priority_level list" where
  "preempting_levels Idle = [Low, Normal, High]"
| "preempting_levels Low = [Normal, High]"
| "preempting_levels Normal = [High]"
| "preempting_levels High = []"

text \<open>
  \<open>on_tick\<close>.  When nothing is returned although the slice has expired, the prepared reference is
  dropped; the thread's state stays Ready.
\<close>

definition rr_on_tick ::
  "bool \<Rightarrow> bool \<Rightarrow> instant \<Rightarrow> ptr \<Rightarrow> round_robin \<Rightarrow> threads \<Rightarrow>
   (ptr option \<times> round_robin \<times> threads) res" where
  "rr_on_tick std_shim checks now current s st =
     rbind (should_preempt checks now current st) (\<lambda>(expired, st1).
       if \<not> expired then Inr (None, s, st1)
       else
         rbind (prepare_preemption current st1) (\<lambda>(ready, st2).
           let cpu = unat (last_cpu current);
               nothing = rbind (arc_drop std_shim ready st2) (\<lambda>st3. Inr (None, s, st3))
           in if cpu < num_cpus s then
                rbind (index (run_queues s) cpu) (\<lambda>q.
                rbind (get_priority current st2) (\<lambda>current_priority.
                  let lvl = priority_level_of current_priority
                  in if lvl = High then Inr (Some ready, s, st2)
                     else rbind (any_waiting (preempting_levels lvl) q) (\<lambda>b.
                       if b then Inr (Some ready, s, st2) else nothing)))
              else nothing))"

definition rr_stats :: "round_robin \<Rightarrow> usize \<times> usize \<times> usize" where
  "rr_stats s =
     (let total = total_threads s; runnable = runnable_threads s;
          blocked = saturating_sub total runnable
      in (total, runnable, blocked))"

definition rr_ops :: "round_robin scheduler_ops" where
  "rr_ops =
     \<lparr>so_enqueue = rr_enqueue, so_pick_next = rr_pick_next, so_on_tick = rr_on_tick,
      so_set_priority = (\<lambda>tid prio s. s), so_on_yield = default_on_yield rr_enqueue,
      so_on_block = default_on_block, so_wake_up = rr_enqueue, so_stats = rr_stats\<rparr>"

section \<open>The contract of a scheduler\<close>

text \<open>
  \<open>ready\<close> lists the waiting threads in the order CPU 0 will be given them.  Enqueueing adds the
  thread somewhere without reordering the others; picking takes the first and returns nothing only
  when nobody waits.
\<close>

locale scheduler_contract =
  fixes ops :: "'s scheduler_ops"
    and ready :: "'s \<Rightarrow> ptr list"
    and ok :: "'s \<Rightarrow> bool"
  assumes enqueue_ok: "ok s \<Longrightarrow> arc_live st p \<Longrightarrow>
      \<exists>s' xs ys. so_enqueue ops p s st = Inr s' \<and> ok s' \<and> ready s = xs @ ys \<and> ready s' = xs @ p # ys"
    and pick_some: "ok s \<Longrightarrow> ready s = p # rs \<Longrightarrow> list_all (arc_live st) (ready s) \<Longrightarrow>
      \<exists>s'. so_pick_next ops 0 s st = Inr (Some p, s') \<and> ok s' \<and> ready s' = rs"
    and pick_none: "ok s \<Longrightarrow> ready s = [] \<Longrightarrow>
      \<exists>s'. so_pick_next ops 0 s st = Inr (None, s') \<and> ok s' \<and> ready s' = []"
begin

lemma enqueueE:
  assumes "ok s" "arc_live st p"
  obtains s' xs ys where "so_enqueue ops p s st = Inr s'" "ok s'" "ready s = xs @ ys"
    "ready s' = xs @ p # ys"
  using enqueue_ok [OF assms] by blast

lemma enqueue_mset:
  "ok s \<Longrightarrow> so_enqueue ops p s st = Inr s' \<Longrightarrow> arc_live st p \<Longrightarrow>
    ok s' \<and> mset (ready s') = add_mset p (mset (ready s)) \<and> ready s' \<noteq> []"
  using enqueue_ok [of s st p] by fastforce

text \<open>After an enqueue a pick always finds a thread.\<close>

lemma pick_after_enqueue:
  assumes "ok s" "arc_live st p" "list_all (arc_live st) (ready s)"
  obtains s1 n s2 where "so_enqueue ops p s st = Inr s1"
    "so_pick_next ops 0 s1 st = Inr (Some n, s2)" "ok s2"
    "add_mset n (mset (ready s2)) = add_mset p (mset (ready s))"
proof -
  obtain s1 xs ys where s1: "so_enqueue ops p s st = Inr s1" "ok s1" "ready s = xs @ ys"
    "ready s1 = xs @ p # ys"
    using assms(1,2) by (rule enqueueE)
  obtain n rs where n: "ready s1 = n # rs" using s1(4) by (cases xs) auto
  have "list_all (arc_live st) (ready s1)" using s1 assms(2,3) by (simp add: list_all_iff)
  from pick_some [OF s1(2) n this] obtain s2 where
    s2: "so_pick_next ops 0 s1 st = Inr (Some n, s2)" "ok s2" "ready s2 = rs" by blast
  have "add_mset n (mset rs) = mset (ready s1)" using n by simp
  also have "\<dots> = add_mset p (mset (ready s))" using s1 by simp
  finally show ?thesis using that s1(1) s2 by simp
qed

end

section \<open>FCFS fulfils the contract\<close>

definition fcfs_ready :: "fcfs \<Rightarrow> ptr list" where
  "fcfs_ready s = queue_list (fc_queue s)"

definition fcfs_ok :: "fcfs \<Rightarrow> bool" where
  "fcfs_ok s \<longleftrightarrow> queue_inv (fc_queue s) \<and> fc_runnable s = of_nat (length (fcfs_ready s))"

lemma fcfs_enqueue_run:
  assumes "fcfs_ok s" "arc_live st p"
  shows "\<exists>s'. fcfs_enqueue p s st = Inr s' \<and> fcfs_ok s' \<and> fcfs_ready s' = fcfs_ready s @ [p]"
proof -
  have inv: "queue_inv (fc_queue s)" using assms(1) by (simp add: fcfs_ok_def)
  from lfq.enq_ok [OF inv, of p] obtain q where
    q: "push p (fc_queue s) = Inr q" "queue_inv q" "queue_list q = queue_list (fc_queue s) @ [p]"
    by blast
  with assms inv show ?thesis
    by (simp add: fcfs_enqueue_def thread_id_of_def debug_list_threads_list fcfs_ok_def fcfs_ready_def)
qed

lemma fcfs_pick_run:
  assumes "fcfs_ok s" "list_all (arc_live st) (fcfs_ready s)"
  shows "\<exists>s'. fcfs_pick_next cpu s st =
      Inr (case fcfs_ready s of [] \<Rightarrow> None | p # _ \<Rightarrow> Some p, s') \<and> fcfs_ok s' \<and>
      fcfs_ready s' = tl (fcfs_ready s)"
proof -
  have inv: "queue_inv (fc_queue s)" using assms(1) by (simp add: fcfs_ok_def)
  from lfq.deq_ok [OF inv] obtain q where
    q: "try_pop (fc_queue s) = Inr (case fcfs_ready s of [] \<Rightarrow> None | y # _ \<Rightarrow> Some y, q)"
    "queue_inv q" "queue_list q = tl (fcfs_ready s)"
    by (auto simp: fcfs_ready_def)
  show ?thesis
    using assms inv q
    by (cases "fcfs_ready s")
      (simp_all add: fcfs_pick_next_def thread_id_of_def debug_list_threads_list fcfs_ok_def
        fcfs_ready_def)
qed

interpretation fcfs: scheduler_contract fcfs_ops fcfs_ready fcfs_ok
proof
  fix s :: fcfs and st :: threads and p
  assume "fcfs_ok s" "arc_live st p"
  from fcfs_enqueue_run [OF this]
  show "\<exists>s' xs ys. so_enqueue fcfs_ops p s st = Inr s' \<and> fcfs_ok s' \<and>
      fcfs_ready s = xs @ ys \<and> fcfs_ready s' = xs @ p # ys"
    by (force simp: fcfs_ops_def)
next
  fix s :: fcfs and st :: threads and p rs
  assume "fcfs_ok s" "fcfs_ready s = p # rs" "list_all (arc_live st) (fcfs_ready s)"
  with fcfs_pick_run [of s st 0]
  show "\<exists>s'. so_pick_next fcfs_ops 0 s st = Inr (Some p, s') \<and> fcfs_ok s' \<and> fcfs_ready s' = rs"
    by (simp add: fcfs_ops_def)
next
  fix s :: fcfs and st :: threads
  assume "fcfs_ok s" "fcfs_ready s = []"
  with fcfs_pick_run [of s st 0]
  show "\<exists>s'. so_pick_next fcfs_ops 0 s st = Inr (None, s') \<and> fcfs_ok s' \<and> fcfs_ready s' = []"
    by (simp add: fcfs_ops_def)
qed

section \<open>Invariant of the round-robin scheduler\<close>

text \<open>The threads of one CPU in the order of service, and the well-formedness of its queues.\<close>

definition cq_list :: "priority_level \<Rightarrow> cpu_run_queue \<Rightarrow> ptr list" where
  "cq_list lvl q = queue_list (level_queue lvl q)"

definition cq_ready :: "cpu_run_queue \<Rightarrow> ptr list" where
  "cq_ready q = cq_list High q @ cq_list Normal q @ cq_list Low q @ cq_list Idle q"

definition cq_inv :: "cpu_run_queue \<Rightarrow> bool" where
  "cq_inv q \<longleftrightarrow> (\<forall>lvl. queue_inv (level_queue lvl q)) \<and>
     thread_count q = of_nat (length (cq_ready q))"

definition rr_all :: "round_robin \<Rightarrow> ptr list" where
  "rr_all s = concat (map cq_ready (run_queues s))"

definition rr_inv :: "round_robin \<Rightarrow> bool" where
  "rr_inv s \<longleftrightarrow> length (run_queues s) = num_cpus s \<and> list_all cq_inv (run_queues s) \<and>
     runnable_threads s = of_nat (length (rr_all s))"

lemma level_queue_set [simp]:
  "level_queue l (set_level_queue m v q) = (if l = m then v else level_queue l q)"
  "level_queue l (q\<lparr>thread_count := n\<rparr>) = level_queue l q"
  "thread_count (set_level_queue m v q) = thread_count q"
  by (cases l; cases m; simp)+

lemma rr_new_inv: "rr_inv (rr_new w n)" "rr_all (rr_new w n) = []"
proof -
  have e: "cq_list l (new_cpu_run_queue u) = []" "queue_inv (level_queue l (new_cpu_run_queue u))" for l u
    by (cases l; simp add: cq_list_def new_cpu_run_queue_def lfq.items_fresh lfq.ok_fresh)+
  have r: "cq_ready (new_cpu_run_queue u) = []" for u by (simp add: cq_ready_def e)
  then show "rr_all (rr_new w n) = []" by (simp add: rr_all_def rr_new_def comp_def)
  moreover have "cq_inv (new_cpu_run_queue u)" for u
    by (simp add: cq_inv_def e r) (simp add: new_cpu_run_queue_def)
  ultimately show "rr_inv (rr_new w n)"
    by (simp add: rr_inv_def list_all_iff) (auto simp: rr_new_def)
qed

text \<open>Popping from one level.\<close>

lemma pop_level_run:
  assumes "cpu < length (run_queues s)" "cq_inv (run_queues s ! cpu)"
  obtains q where
    "pop_level lvl cpu s = Inr (case cq_list lvl (run_queues s ! cpu) of [] \<Rightarrow> None | p # _ \<Rightarrow> Some p,
       s\<lparr>run_queues := (run_queues s)[cpu := q]\<rparr>)"
    "cq_inv q" "cq_list lvl q = tl (cq_list lvl (run_queues s ! cpu))"
    "\<And>l. l \<noteq> lvl \<Longrightarrow> cq_list l q = cq_list l (run_queues s ! cpu)"
proof -
  let ?q = "run_queues s ! cpu"
  have inv: "queue_inv (level_queue lvl ?q)" using assms(2) by (simp add: cq_inv_def)
  from lfq.deq_ok [OF inv] obtain v where
    v: "try_pop (level_queue lvl ?q) = Inr (case cq_list lvl ?q of [] \<Rightarrow> None | y # _ \<Rightarrow> Some y, v)"
    "queue_inv v" "queue_list v = tl (cq_list lvl ?q)"
    by (auto simp: cq_list_def)
  define q1 where "q1 = set_level_queue lvl v ?q"
  define q where "q = (if cq_list lvl ?q = [] then q1 else q1\<lparr>thread_count := thread_count q1 - 1\<rparr>)"
  have lists: "cq_list l q = (if l = lvl then tl (cq_list lvl ?q) else cq_list l ?q)" for l
    using v(3) by (simp add: q_def q1_def cq_list_def)
  have "length (cq_ready ?q) = length (cq_ready q) + (if cq_list lvl ?q = [] then 0 else 1)"
    by (cases lvl; cases "cq_list lvl ?q") (simp_all add: cq_ready_def lists)
  moreover have "thread_count ?q = of_nat (length (cq_ready ?q))" using assms(2) by (simp add: cq_inv_def)
  moreover have "thread_count q = thread_count ?q - (if cq_list lvl ?q = [] then 0 else 1)"
    by (simp add: q_def q1_def)
  ultimately have "thread_count q = of_nat (length (cq_ready q))" by simp
  moreover have "queue_inv (level_queue l q)" for l
    using assms(2) v(2) by (simp add: cq_inv_def q_def q1_def)
  ultimately have "cq_inv q" by (simp add: cq_inv_def)
  moreover have "pop_level lvl cpu s =
      Inr (case cq_list lvl ?q of [] \<Rightarrow> None | p # _ \<Rightarrow> Some p, s\<lparr>run_queues := (run_queues s)[cpu := q]\<rparr>)"
    using v(1) assms(1) by (cases "cq_list lvl ?q")
      (simp_all add: pop_level_def index_def q_def q1_def Let_def)
  ultimately show ?thesis using that lists by simp
qed

text \<open>Two schedulers with the same queues, up to where the queue nodes lie.\<close>

definition same_lists :: "cpu_run_queue \<Rightarrow> cpu_run_queue \<Rightarrow> bool" where
  "same_lists q q' \<longleftrightarrow> cq_inv q' \<and> (\<forall>l. cq_list l q' = cq_list l q)"

definition rr_sim :: "round_robin \<Rightarrow> round_robin \<Rightarrow> bool" where
  "rr_sim s s' \<longleftrightarrow> num_cpus s' = num_cpus s \<and> runnable_threads s' = runnable_threads s \<and>
     total_threads s' = total_threads s \<and>
     list_all2 same_lists (run_queues s) (run_queues s')"

lemma same_lists_ready: "same_lists q q' \<Longrightarrow> cq_ready q' = cq_ready q"
  by (simp add: same_lists_def cq_ready_def)

lemma rr_sim_refl: "rr_inv s \<Longrightarrow> rr_sim s s"
  by (auto simp: rr_sim_def rr_inv_def same_lists_def list_all_iff list.rel_refl_strong)

lemma rr_sim_trans: "rr_sim s s' \<Longrightarrow> rr_sim s' s'' \<Longrightarrow> rr_sim s s''"
  by (simp add: rr_sim_def list_all2_conv_all_nth same_lists_def)

lemma rr_sim_nth:
  assumes "rr_sim s s'" "c < length (run_queues s)"
  shows "c < length (run_queues s')" "same_lists (run_queues s ! c) (run_queues s' ! c)"
  using assms by (auto simp: rr_sim_def list_all2_lengthD list_all2_nthD)

lemma rr_sim_all: "rr_sim s s' \<Longrightarrow> rr_all s' = rr_all s"
  unfolding rr_all_def rr_sim_def
  by (intro arg_cong [of _ _ concat])
    (auto simp: list_eq_iff_nth_eq list_all2_conv_all_nth same_lists_ready)

lemma rr_sim_inv: "rr_inv s \<Longrightarrow> rr_sim s s' \<Longrightarrow> rr_inv s'"
  using rr_sim_all [of s s']
  by (auto simp: rr_inv_def rr_sim_def list_all2_conv_all_nth same_lists_def list_all_length)

lemma rr_inv_nth: "rr_inv s \<Longrightarrow> c < num_cpus s \<Longrightarrow> c < length (run_queues s) \<and> cq_inv (run_queues s ! c)"
  by (simp add: rr_inv_def list_all_length)

lemma pop_level_none:
  assumes "rr_inv s" "cpu < num_cpus s" "cq_list lvl (run_queues s ! cpu) = []"
  shows "\<exists>s'. pop_level lvl cpu s = Inr (None, s') \<and> rr_sim s s'"
proof -
  have c: "cpu < length (run_queues s)" "cq_inv (run_queues s ! cpu)"
    using rr_inv_nth [OF assms(1,2)] by auto
  obtain q where q: "pop_level lvl cpu s = Inr (None, s\<lparr>run_queues := (run_queues s)[cpu := q]\<rparr>)"
    "cq_inv q" "cq_list lvl q = []" "\<And>l. l \<noteq> lvl \<Longrightarrow> cq_list l q = cq_list l (run_queues s ! cpu)"
    by (rule pop_level_run [OF c, of lvl]) (use assms(3) in simp)
  have "same_lists (run_queues s ! cpu) q"
    unfolding same_lists_def using q(2-4) assms(3) by metis
  then have "rr_sim s (s\<lparr>run_queues := (run_queues s)[cpu := q]\<rparr>)"
    using assms(1) c(1) by (auto simp: rr_sim_def rr_inv_def list_all2_conv_all_nth nth_list_update
        same_lists_def list_all_length)
  with q(1) show ?thesis by blast
qed

text \<open>Taking the first thread of one level of one CPU.\<close>

definition taken_from :: "priority_level \<Rightarrow> cpu_id \<Rightarrow> ptr \<Rightarrow> round_robin \<Rightarrow> round_robin \<Rightarrow> bool" where
  "taken_from lvl cpu p s s' \<longleftrightarrow>
     (\<exists>q ps. cq_list lvl (run_queues s ! cpu) = p # ps \<and> cq_inv q \<and> cq_list lvl q = ps \<and>
        (\<forall>l. l \<noteq> lvl \<longrightarrow> cq_list l q = cq_list l (run_queues s ! cpu)) \<and>
        s' = s\<lparr>run_queues := (run_queues s)[cpu := q]\<rparr>)"

lemma pop_level_some:
  assumes "rr_inv s" "cpu < num_cpus s" "cq_list lvl (run_queues s ! cpu) = p # ps"
  shows "\<exists>s'. pop_level lvl cpu s = Inr (Some p, s') \<and> taken_from lvl cpu p s s'"
proof -
  have c: "cpu < length (run_queues s)" "cq_inv (run_queues s ! cpu)"
    using rr_inv_nth [OF assms(1,2)] by auto
  obtain q where "pop_level lvl cpu s = Inr (Some p, s\<lparr>run_queues := (run_queues s)[cpu := q]\<rparr>)"
    "cq_inv q" "cq_list lvl q = ps" "\<And>l. l \<noteq> lvl \<Longrightarrow> cq_list l q = cq_list l (run_queues s ! cpu)"
    by (rule pop_level_run [OF c, of lvl]) (use assms(3) in simp)
  with assms(3) show ?thesis by (auto simp: taken_from_def)
qed

lemma mset_cq_ready:
  "mset (cq_ready q) = mset (cq_list High q) + mset (cq_list Normal q) + mset (cq_list Low q) + mset (cq_list Idle q)"
  by (simp add: cq_ready_def)

lemma taken_from_inv:
  assumes "rr_inv s" "cpu < num_cpus s" "taken_from lvl cpu p s s'"
  shows "rr_inv (dec_runnable s')" and "add_mset p (mset (rr_all s')) = mset (rr_all s)"
proof -
  obtain q ps where q: "cq_list lvl (run_queues s ! cpu) = p # ps" "cq_inv q" "cq_list lvl q = ps"
    "\<And>l. l \<noteq> lvl \<Longrightarrow> cq_list l q = cq_list l (run_queues s ! cpu)"
    "s' = s\<lparr>run_queues := (run_queues s)[cpu := q]\<rparr>"
    using assms(3) by (auto simp: taken_from_def)
  have c: "cpu < length (run_queues s)" using rr_inv_nth [OF assms(1,2)] by auto
  have "mset (cq_ready (run_queues s ! cpu)) = add_mset p (mset (cq_ready q))"
    using q by (cases lvl) (simp_all add: mset_cq_ready)
  then show m: "add_mset p (mset (rr_all s')) = mset (rr_all s)"
    using mset_concat_update [OF c, of cq_ready q] q(5) by (simp add: rr_all_def)
  from arg_cong [OF m, of size] have len: "length (rr_all s) = Suc (length (rr_all s'))" by simp
  have "list_all cq_inv (run_queues s')"
    using assms(1) q(2,5) c by (auto simp: rr_inv_def list_all_length nth_list_update)
  then show "rr_inv (dec_runnable s')"
    using assms(1) len q(5) by (simp add: rr_inv_def dec_runnable_def rr_all_def)
qed

lemma taken_from_sim:
  assumes "rr_sim s0 s" "cpu < length (run_queues s0)" "taken_from lvl cpu p s s'"
  shows "\<exists>ps. cq_list lvl (run_queues s0 ! cpu) = p # ps"
  using assms rr_sim_nth [OF assms(1,2)] by (auto simp: taken_from_def same_lists_def)

section \<open>Work stealing and picking\<close>

text \<open>What other CPUs may take: the Normal and Low queues only.\<close>

definition stealable :: "cpu_run_queue \<Rightarrow> ptr list" where
  "stealable q = cq_list Normal q @ cq_list Low q"

lemma stealable_sim: "rr_sim s s' \<Longrightarrow> c < length (run_queues s) \<Longrightarrow>
    stealable (run_queues s' ! c) = stealable (run_queues s ! c)"
  using rr_sim_nth by (auto simp: stealable_def same_lists_def)

text \<open>A stolen thread comes from the Normal or Low queue of another CPU.\<close>

definition stolen :: "cpu_id \<Rightarrow> ptr \<Rightarrow> round_robin \<Rightarrow> round_robin \<Rightarrow> bool" where
  "stolen cpu p s s' \<longleftrightarrow> (\<exists>v lvl s1. v \<noteq> cpu \<and> v < num_cpus s \<and> lvl \<in> {Normal, Low} \<and>
     rr_sim s s1 \<and> taken_from lvl v p s1 s')"

lemma rr_sim_cpus: "rr_sim s s' \<Longrightarrow> num_cpus s' = num_cpus s"
  by (simp add: rr_sim_def)

lemma steal_loop_run:
  assumes "rr_inv s" "0 < num_cpus s"
  shows "\<exists>t s'. steal_loop k i start cpu s = Inr (t, s') \<and>
    (case t of
       Some p \<Rightarrow> stolen cpu p s s'
     | None \<Rightarrow> rr_sim s s' \<and>
         (\<forall>j. i \<le> j \<and> j < i + k \<and> (start + j) mod num_cpus s \<noteq> cpu \<longrightarrow>
            stealable (run_queues s ! ((start + j) mod num_cpus s)) = []))"
  using assms
proof (induction k arbitrary: i s)
  case 0
  then show ?case by (auto simp: rr_sim_refl)
next
  case (Suc k)
  let ?v = "(start + i) mod num_cpus s"
  have v: "?v < num_cpus s" using Suc.prems(2) by simp
  note len = rr_inv_nth [OF Suc.prems(1)]
  have step: "(\<forall>j. i \<le> j \<and> j < i + Suc k \<and> X j \<longrightarrow> Y j) \<longleftrightarrow>
      (X i \<longrightarrow> Y i) \<and> (\<forall>j. Suc i \<le> j \<and> j < Suc i + k \<and> X j \<longrightarrow> Y j)" for X Y :: "nat \<Rightarrow> bool"
    by (auto simp: Suc_le_eq) (metis le_eq_less_or_eq)+
  show ?case
  proof (cases "?v = cpu")
    case True
    obtain t s' where t: "steal_loop k (Suc i) start cpu s = Inr (t, s')"
      "case t of Some p \<Rightarrow> stolen cpu p s s'
       | None \<Rightarrow> rr_sim s s' \<and> (\<forall>j. Suc i \<le> j \<and> j < Suc i + k \<and> (start + j) mod num_cpus s \<noteq> cpu \<longrightarrow>
            stealable (run_queues s ! ((start + j) mod num_cpus s)) = [])"
      using Suc.IH [OF Suc.prems, of "Suc i"] by blast
    have "steal_loop (Suc k) i start cpu s = Inr (t, s')" using t(1) True by simp
    with t(2) True show ?thesis
      unfolding step by (intro exI [of _ t] exI [of _ s']) (auto split: option.splits)
  next
    case other: False
    show ?thesis
    proof (cases "cq_list Normal (run_queues s ! ?v)")
      case (Cons p ps)
      from pop_level_some [OF Suc.prems(1) v Cons] obtain s' where
        "pop_level Normal ?v s = Inr (Some p, s')" "taken_from Normal ?v p s s'" by blast
      note pop = this
      have "steal_loop (Suc k) i start cpu s = Inr (Some p, s')" using pop(1) other by simp
      moreover have "stolen cpu p s s'"
        using pop(2) other v rr_sim_refl [OF Suc.prems(1)] unfolding stolen_def by blast
      ultimately show ?thesis by (intro exI [of _ "Some p"] exI [of _ s']) simp
    next
      case noN: Nil
      from pop_level_none [OF Suc.prems(1) v noN] obtain s1 where
        s1: "pop_level Normal ?v s = Inr (None, s1)" "rr_sim s s1" by blast
      note inv1 = rr_sim_inv [OF Suc.prems(1) s1(2)] and n1 = rr_sim_cpus [OF s1(2)]
      have low: "cq_list Low (run_queues s1 ! ?v) = cq_list Low (run_queues s ! ?v)"
        using rr_sim_nth(2) [OF s1(2)] len [OF v] by (simp add: same_lists_def)
      show ?thesis
      proof (cases "cq_list Low (run_queues s ! ?v)")
        case (Cons p ps)
        with low have "cq_list Low (run_queues s1 ! ?v) = p # ps" by simp
        from pop_level_some [OF inv1 _ this] v n1 obtain s' where
          "pop_level Low ?v s1 = Inr (Some p, s')" "taken_from Low ?v p s1 s'" by auto
        note pop = this
        have "steal_loop (Suc k) i start cpu s = Inr (Some p, s')" using pop(1) other s1(1) by simp
        moreover have "stolen cpu p s s'"
          using pop(2) other v s1(2) unfolding stolen_def by blast
        ultimately show ?thesis by (intro exI [of _ "Some p"] exI [of _ s']) simp
      next
        case noL: Nil
        with low have "cq_list Low (run_queues s1 ! ?v) = []" by simp
        from pop_level_none [OF inv1 _ this] v n1 obtain s2 where
          s2: "pop_level Low ?v s1 = Inr (None, s2)" "rr_sim s1 s2" by auto
        have sim: "rr_sim s s2" by (rule rr_sim_trans [OF s1(2) s2(2)])
        have n2: "num_cpus s2 = num_cpus s" by (rule rr_sim_cpus [OF sim])
        have eq: "steal_loop (Suc k) i start cpu s = steal_loop k (Suc i) start cpu s2"
          using other s1(1) s2(1) by (simp add: n1)
        obtain t s' where t: "steal_loop k (Suc i) start cpu s2 = Inr (t, s')"
          "case t of Some p \<Rightarrow> stolen cpu p s2 s'
           | None \<Rightarrow> rr_sim s2 s' \<and> (\<forall>j. Suc i \<le> j \<and> j < Suc i + k \<and> (start + j) mod num_cpus s2 \<noteq> cpu \<longrightarrow>
                stealable (run_queues s2 ! ((start + j) mod num_cpus s2)) = [])"
          using Suc.IH [OF rr_sim_inv [OF Suc.prems(1) sim], of "Suc i"] Suc.prems(2) n2 by auto
        have "stealable (run_queues s ! ?v) = []" using noN noL by (simp add: stealable_def)
        moreover have "stealable (run_queues s2 ! c) = stealable (run_queues s ! c)" if "c < num_cpus s" for c
          using stealable_sim [OF sim] len [OF that] by simp
        ultimately show ?thesis
          using t Suc.prems(2) sim unfolding eq n2 step
          by (intro exI [of _ t] exI [of _ s'])
            (auto simp: stolen_def n2 intro: rr_sim_trans split: option.splits)
      qed
    qed
  qed
qed

lemma all_victims:
  assumes "c < n" "cpu < n"
  shows "\<exists>j < n. ((cpu + 1) mod n + j) mod n = (c :: nat)"
proof -
  define j where "j = (c + n - (cpu + 1) mod n) mod n"
  have "(cpu + 1) mod n < n" using assms by simp
  then have "((cpu + 1) mod n + j) mod n = (c + n) mod n"
    unfolding j_def by (simp add: mod_add_right_eq)
  then show ?thesis using assms by (intro exI [of _ j]) (auto simp: j_def)
qed

lemma try_steal_run:
  assumes "rr_inv s" "cpu < num_cpus s"
  shows "\<exists>t s'. try_steal_work cpu s = Inr (t, s') \<and>
    (case t of
       Some p \<Rightarrow> stolen cpu p s s'
     | None \<Rightarrow> rr_sim s s' \<and> (\<forall>c < num_cpus s. c \<noteq> cpu \<longrightarrow> stealable (run_queues s ! c) = []))"
proof -
  have pos: "0 < num_cpus s" using assms(2) by simp
  obtain t s' where t: "steal_loop (num_cpus s) 0 ((cpu + 1) mod num_cpus s) cpu s = Inr (t, s')"
    "case t of Some p \<Rightarrow> stolen cpu p s s'
     | None \<Rightarrow> rr_sim s s' \<and> (\<forall>j. 0 \<le> j \<and> j < 0 + num_cpus s \<and>
          ((cpu + 1) mod num_cpus s + j) mod num_cpus s \<noteq> cpu \<longrightarrow>
          stealable (run_queues s ! (((cpu + 1) mod num_cpus s + j) mod num_cpus s)) = [])"
    using steal_loop_run [OF assms(1) pos] by blast
  have "\<forall>c < num_cpus s. c \<noteq> cpu \<longrightarrow> stealable (run_queues s ! c) = []" if "t = None"
    using t(2) that all_victims [OF _ assms(2)] by fastforce
  with t pos show ?thesis
    by (intro exI [of _ t] exI [of _ s']) (auto simp: try_steal_work_def split: option.splits)
qed

lemma rr_sim_list:
  "rr_inv s \<Longrightarrow> rr_sim s s' \<Longrightarrow> c < num_cpus s \<Longrightarrow>
    cq_list l (run_queues s' ! c) = cq_list l (run_queues s ! c)"
  using rr_sim_nth(2) rr_inv_nth by (fastforce simp: same_lists_def)

text \<open>One link of the chain in \<open>pick_next\<close>: the level is empty and the next one is tried, or its
  first thread is returned.\<close>

lemma pop_chain:
  assumes "rr_inv s" "cpu < num_cpus s" "rr_sim s s1"
  shows "(cq_list lvl (run_queues s ! cpu) = [] \<and>
      (\<exists>s2. pop_level lvl cpu s1 = Inr (None, s2) \<and> rr_sim s s2)) \<or>
    (\<exists>p s2. pop_level lvl cpu s1 = Inr (Some p, s2) \<and> taken_from lvl cpu p s1 s2)"
proof -
  have inv: "rr_inv s1" "cpu < num_cpus s1"
    using rr_sim_inv [OF assms(1,3)] rr_sim_cpus [OF assms(3)] assms(2) by auto
  have l: "cq_list lvl (run_queues s1 ! cpu) = cq_list lvl (run_queues s ! cpu)"
    by (rule rr_sim_list [OF assms(1,3,2)])
  show ?thesis
  proof (cases "cq_list lvl (run_queues s ! cpu)")
    case Nil
    with pop_level_none [OF inv] l rr_sim_trans [OF assms(3)] show ?thesis by metis
  next
    case (Cons p ps)
    with pop_level_some [OF inv] l show ?thesis by metis
  qed
qed

lemma taken_from_ready:
  assumes "rr_inv s" "cpu < num_cpus s" "rr_sim s s1" "taken_from lvl cpu p s1 s2"
    and "lvl = High \<or> cq_list High (run_queues s ! cpu) = []"
    and "lvl \<in> {High, Normal} \<or> cq_list Normal (run_queues s ! cpu) = []"
    and "lvl \<noteq> Idle \<or> cq_list Low (run_queues s ! cpu) = []"
  shows "cq_ready (run_queues s ! cpu) = p # cq_ready (run_queues s2 ! cpu)"
proof -
  have c: "cpu < length (run_queues s1)"
    using rr_inv_nth rr_sim_inv [OF assms(1,3)] rr_sim_cpus [OF assms(3)] assms(2) by auto
  obtain q ps where q: "cq_list lvl (run_queues s1 ! cpu) = p # ps" "cq_list lvl q = ps"
    "\<And>l. l \<noteq> lvl \<Longrightarrow> cq_list l q = cq_list l (run_queues s1 ! cpu)"
    "s2 = s1\<lparr>run_queues := (run_queues s1)[cpu := q]\<rparr>"
    using assms(4) by (auto simp: taken_from_def)
  have "run_queues s2 ! cpu = q" using q(4) c by simp
  then show ?thesis
    using q(1-3) assms(5-7) rr_sim_list [OF assms(1,3,2)]
    by (cases lvl) (auto simp: cq_ready_def)
qed

text \<open>The chain of \<open>pick_next\<close> as a walk over the levels.\<close>

primrec pop_levels :: "priority_level list \<Rightarrow> cpu_id \<Rightarrow> round_robin \<Rightarrow> (ptr option \<times> round_robin) res" where
  "pop_levels [] cpu s = Inr (None, s)"
| "pop_levels (l # ls) cpu s =
     rbind (pop_level l cpu s) (\<lambda>(t, s1).
       case t of Some p \<Rightarrow> Inr (Some p, s1) | None \<Rightarrow> pop_levels ls cpu s1)"

lemma rr_pick_next_levels:
  "rr_pick_next cpu s st =
     (if num_cpus s \<le> cpu then Inr (None, s)
      else rbind (pop_levels [High, Normal, Low, Idle] cpu s) (\<lambda>(t, s1).
        case t of
          Some p \<Rightarrow> Inr (Some p, dec_runnable s1)
        | None \<Rightarrow> rbind (try_steal_work cpu s1) (\<lambda>(t, s5).
            case t of Some p \<Rightarrow> Inr (Some p, dec_runnable s5) | None \<Rightarrow> Inr (None, s5))))"
  by (auto simp: rr_pick_next_def rbind_assoc intro!: rbind_cong split: option.split)

lemma pop_levels_run:
  assumes "rr_inv s" "cpu < num_cpus s" "rr_sim s s1"
  shows "(\<exists>s2. pop_levels ls cpu s1 = Inr (None, s2) \<and> rr_sim s s2 \<and>
      (\<forall>l \<in> set ls. cq_list l (run_queues s ! cpu) = [])) \<or>
    (\<exists>p s2 s3 pre lvl post. pop_levels ls cpu s1 = Inr (Some p, s3) \<and> ls = pre @ lvl # post \<and>
      (\<forall>l \<in> set pre. cq_list l (run_queues s ! cpu) = []) \<and> rr_sim s s2 \<and> taken_from lvl cpu p s2 s3)"
  using assms(3)
proof (induction ls arbitrary: s1)
  case (Cons l ls)
  from pop_chain [OF assms(1,2) Cons.prems, of l] show ?case
  proof (elim disjE exE conjE)
    fix s2 assume e: "cq_list l (run_queues s ! cpu) = []" "pop_level l cpu s1 = Inr (None, s2)" "rr_sim s s2"
    from Cons.IH [OF e(3)] show ?thesis
    proof (elim disjE exE conjE)
      fix p s3 s4 pre lvl post
      assume "pop_levels ls cpu s2 = Inr (Some p, s4)" "ls = pre @ lvl # post"
        "\<forall>l \<in> set pre. cq_list l (run_queues s ! cpu) = []" "rr_sim s s3" "taken_from lvl cpu p s3 s4"
      with e have "pop_levels (l # ls) cpu s1 = Inr (Some p, s4) \<and> l # ls = (l # pre) @ lvl # post \<and>
        (\<forall>k \<in> set (l # pre). cq_list k (run_queues s ! cpu) = []) \<and> rr_sim s s3 \<and> taken_from lvl cpu p s3 s4"
        by simp
      then show ?thesis by blast
    qed (use e in auto)
  next
    fix p s2 assume "pop_level l cpu s1 = Inr (Some p, s2)" "taken_from l cpu p s1 s2"
    then have "pop_levels (l # ls) cpu s1 = Inr (Some p, s2) \<and> l # ls = [] @ l # ls \<and>
        (\<forall>k \<in> set []. cq_list k (run_queues s ! cpu) = []) \<and> rr_sim s s1 \<and> taken_from l cpu p s1 s2"
      using Cons.prems by simp
    then show ?thesis by blast
  qed
qed simp

text \<open>The three ways a pick can end.\<close>

lemma rr_pick_run:
  assumes "rr_inv s" "cpu < num_cpus s"
  obtains
    (own) p lvl s1 s2 where "rr_pick_next cpu s st = Inr (Some p, dec_runnable s2)" "rr_sim s s1"
      "taken_from lvl cpu p s1 s2"
      "cq_ready (run_queues s ! cpu) = p # cq_ready (run_queues s2 ! cpu)"
  | (stole) p s1 s2 where "rr_pick_next cpu s st = Inr (Some p, dec_runnable s2)" "rr_sim s s1"
      "stolen cpu p s1 s2" "cq_ready (run_queues s ! cpu) = []"
  | (none) s' where "rr_pick_next cpu s st = Inr (None, s')" "rr_sim s s'"
      "cq_ready (run_queues s ! cpu) = []"
      "\<And>c. c < num_cpus s \<Longrightarrow> c \<noteq> cpu \<Longrightarrow> stealable (run_queues s ! c) = []"
  using pop_levels_run [OF assms rr_sim_refl [OF assms(1)], of "[High, Normal, Low, Idle]"]
proof (elim disjE exE conjE)
  fix p s2 s3 pre lvl post
  assume e: "pop_levels [High, Normal, Low, Idle] cpu s = Inr (Some p, s3)"
    "[High, Normal, Low, Idle] = pre @ lvl # post"
    "\<forall>l \<in> set pre. cq_list l (run_queues s ! cpu) = []" "rr_sim s s2" "taken_from lvl cpu p s2 s3"
  have "lvl = High \<or> High \<in> set pre" "lvl \<in> {High, Normal} \<or> Normal \<in> set pre" "lvl \<noteq> Idle \<or> Low \<in> set pre"
    using e(2) by (auto simp: Cons_eq_append_conv)
  then have "cq_ready (run_queues s ! cpu) = p # cq_ready (run_queues s3 ! cpu)"
    using e(3) by (intro taken_from_ready [OF assms e(4,5)]) auto
  then show thesis
    using e assms by (intro own [of p s3 s2 lvl]) (simp_all add: rr_pick_next_levels)
next
  fix s4
  assume e: "pop_levels [High, Normal, Low, Idle] cpu s = Inr (None, s4)" "rr_sim s s4"
    "\<forall>l \<in> set [High, Normal, Low, Idle]. cq_list l (run_queues s ! cpu) = []"
  have empty: "cq_ready (run_queues s ! cpu) = []" using e(3) by (simp add: cq_ready_def)
  have inv4: "rr_inv s4" "cpu < num_cpus s4"
    using rr_sim_inv [OF assms(1) e(2)] rr_sim_cpus [OF e(2)] assms(2) by auto
  from try_steal_run [OF inv4] obtain t s5 where t: "try_steal_work cpu s4 = Inr (t, s5)"
    "case t of Some p \<Rightarrow> stolen cpu p s4 s5
     | None \<Rightarrow> rr_sim s4 s5 \<and> (\<forall>c < num_cpus s4. c \<noteq> cpu \<longrightarrow> stealable (run_queues s4 ! c) = [])"
    by blast
  show thesis
  proof (cases t)
    case (Some p)
    then show ?thesis
      using t e assms empty by (intro stole [of p s5 s4]) (simp_all add: rr_pick_next_levels)
  next
    case None
    have "stealable (run_queues s ! c) = []" if "c < num_cpus s" "c \<noteq> cpu" for c
      using t(2) None that stealable_sim [OF e(2), of c] rr_inv_nth [OF assms(1)]
        rr_sim_cpus [OF e(2)] by auto
    then show ?thesis
      using t None e assms empty rr_sim_trans [OF e(2), of s5]
      by (intro none [of s5]) (simp_all add: rr_pick_next_levels)
  qed
qed

section \<open>Enqueueing\<close>

text \<open>The first of the CPUs with the fewest threads.\<close>

definition least_loaded :: "round_robin \<Rightarrow> cpu_id \<Rightarrow> bool" where
  "least_loaded s c \<longleftrightarrow> c < num_cpus s \<and>
     (\<forall>i < num_cpus s. thread_count (run_queues s ! c) \<le> thread_count (run_queues s ! i)) \<and>
     (\<forall>i < c. thread_count (run_queues s ! c) < thread_count (run_queues s ! i))"

lemma select_cpu_loop_least:
  assumes "best < length done" "m = thread_count (done ! best)"
    and "\<forall>i < length done. m \<le> thread_count (done ! i)" "\<forall>i < best. m < thread_count (done ! i)"
    and "r = select_cpu_loop qs (length done) best m"
  shows "r < length (done @ qs) \<and>
    (\<forall>i < length (done @ qs). thread_count ((done @ qs) ! r) \<le> thread_count ((done @ qs) ! i)) \<and>
    (\<forall>i < r. thread_count ((done @ qs) ! r) < thread_count ((done @ qs) ! i))"
  using assms
proof (induction qs arbitrary: "done" best m)
  case Nil
  then show ?case by simp
next
  case (Cons q qs)
  show ?case
  proof (cases "thread_count q < m")
    case True
    then have "r = select_cpu_loop qs (length (done @ [q])) (length done) (thread_count q)"
      using Cons.prems(5) by simp
    moreover have "\<forall>i < length (done @ [q]). thread_count q \<le> thread_count ((done @ [q]) ! i)"
      "\<forall>i < length done. thread_count q < thread_count ((done @ [q]) ! i)"
      using True Cons.prems(3) by (auto simp: nth_append less_Suc_eq intro: order_less_imp_le)
    ultimately show ?thesis
      using Cons.IH [of "length done" "done @ [q]" "thread_count q"] by simp
  next
    case False
    then have "r = select_cpu_loop qs (length (done @ [q])) best m" using Cons.prems(5) by simp
    moreover have "\<forall>i < length (done @ [q]). m \<le> thread_count ((done @ [q]) ! i)"
      "\<forall>i < best. m < thread_count ((done @ [q]) ! i)"
      using False Cons.prems by (auto simp: nth_append less_Suc_eq)
    ultimately show ?thesis
      using Cons.IH [of best "done @ [q]" m] Cons.prems(1,2) by (simp add: nth_append)
  qed
qed

lemma select_cpu_run:
  assumes "length (run_queues s) = num_cpus s" "0 < num_cpus s"
  shows "\<exists>c. select_cpu s = Inr c \<and> least_loaded s c"
proof -
  obtain q0 qs where q: "run_queues s = q0 # qs" using assms by (cases "run_queues s") auto
  define c where "c = select_cpu_loop qs (length [q0]) 0 (thread_count q0)"
  have "least_loaded s c"
    using select_cpu_loop_least [of 0 "[q0]" "thread_count q0" c qs] q assms(1)
    by (simp add: least_loaded_def c_def)
  moreover have "select_cpu s = Inr c" by (simp add: select_cpu_def index_def q c_def)
  ultimately show ?thesis by blast
qed

lemma rr_enqueue_run:
  assumes "rr_inv s" "arc_live st p" "0 < num_cpus s"
  obtains c q where "least_loaded s c"
    "rr_enqueue p s st = Inr (s\<lparr>run_queues := (run_queues s)[c := q],
       runnable_threads := runnable_threads s + 1\<rparr>)"
    "cq_inv q"
    "\<And>l. cq_list l q = (if l = priority_level_of (t_priority (arc_val st p))
       then cq_list l (run_queues s ! c) @ [p] else cq_list l (run_queues s ! c))"
proof -
  let ?l = "priority_level_of (t_priority (arc_val st p))"
  obtain c where c: "select_cpu s = Inr c" "least_loaded s c"
    using select_cpu_run assms(1,3) by (auto simp: rr_inv_def)
  have cl: "c < length (run_queues s)" "cq_inv (run_queues s ! c)"
    using rr_inv_nth [OF assms(1)] c(2) by (auto simp: least_loaded_def)
  then have "queue_inv (level_queue ?l (run_queues s ! c))" by (simp add: cq_inv_def)
  from lfq.enq_ok [OF this, of p] obtain v where v: "push p (level_queue ?l (run_queues s ! c)) = Inr v"
    "queue_inv v" "queue_list v = cq_list ?l (run_queues s ! c) @ [p]"
    by (auto simp: cq_list_def)
  define q where "q = (set_level_queue ?l v (run_queues s ! c))\<lparr>thread_count := thread_count (run_queues s ! c) + 1\<rparr>"
  have lists: "cq_list l q = (if l = ?l then cq_list l (run_queues s ! c) @ [p] else cq_list l (run_queues s ! c))" for l
    using v(3) by (simp add: q_def cq_list_def)
  have "length (cq_ready q) = Suc (length (cq_ready (run_queues s ! c)))"
    by (cases ?l) (simp_all add: cq_ready_def lists)
  moreover have "queue_inv (level_queue l q)" for l using cl(2) v(2) by (simp add: q_def cq_inv_def)
  ultimately have "cq_inv q" using cl(2) by (simp add: cq_inv_def q_def)
  moreover have "rr_enqueue p s st = Inr (s\<lparr>run_queues := (run_queues s)[c := q],
       runnable_threads := runnable_threads s + 1\<rparr>)"
    using assms(2) c(1) cl(1) v(1) by (simp add: rr_enqueue_def get_priority_def index_def q_def Let_def)
  ultimately show ?thesis using that [OF c(2)] lists by blast
qed

lemma rr_enqueue_inv:
  assumes "rr_inv s" "arc_live st p" "rr_enqueue p s st = Inr s'" "0 < num_cpus s"
  shows "rr_inv s'" "mset (rr_all s') = add_mset p (mset (rr_all s))"
proof -
  obtain c q where q: "least_loaded s c"
    "rr_enqueue p s st = Inr (s\<lparr>run_queues := (run_queues s)[c := q],
       runnable_threads := runnable_threads s + 1\<rparr>)" "cq_inv q"
    "\<And>l. cq_list l q = (if l = priority_level_of (t_priority (arc_val st p))
       then cq_list l (run_queues s ! c) @ [p] else cq_list l (run_queues s ! c))"
    by (rule rr_enqueue_run [OF assms(1,2,4)]) blast
  have c: "c < length (run_queues s)" using rr_inv_nth [OF assms(1)] q(1) by (simp add: least_loaded_def)
  have s': "s' = s\<lparr>run_queues := (run_queues s)[c := q], runnable_threads := runnable_threads s + 1\<rparr>"
    using assms(3) q(2) by simp
  have "mset (cq_ready q) = add_mset p (mset (cq_ready (run_queues s ! c)))"
    by (cases "priority_level_of (t_priority (arc_val st p))") (simp_all add: mset_cq_ready q(4))
  then show m: "mset (rr_all s') = add_mset p (mset (rr_all s))"
    using mset_concat_update [OF c, of cq_ready q] s' by (simp add: rr_all_def)
  from arg_cong [OF m, of size] have "length (rr_all s') = Suc (length (rr_all s))" by simp
  moreover have "list_all cq_inv (run_queues s')"
    using assms(1) q(3) s' c by (auto simp: rr_inv_def list_all_length nth_list_update)
  ultimately show "rr_inv s'" using assms(1) s' by (simp add: rr_inv_def)
qed

section \<open>One CPU: the contract\<close>

text \<open>The kernels create the scheduler with \<open>RoundRobinScheduler::new(1)\<close>.\<close>

definition rr1_ok :: "round_robin \<Rightarrow> bool" where
  "rr1_ok s \<longleftrightarrow> rr_inv s \<and> num_cpus s = 1"

definition rr1_ready :: "round_robin \<Rightarrow> ptr list" where
  "rr1_ready s = cq_ready (run_queues s ! 0)"

lemma rr1_all: "rr1_ok s \<Longrightarrow> rr_all s = rr1_ready s"
  by (cases "run_queues s") (auto simp: rr1_ok_def rr_inv_def rr_all_def rr1_ready_def)

lemma stolen_one_cpu: "num_cpus s = 1 \<Longrightarrow> \<not> stolen 0 p s s'"
  by (simp add: stolen_def)

lemma rr1_enqueue_run:
  assumes "rr1_ok s" "arc_live st p"
  shows "\<exists>s'. rr_enqueue p s st = Inr s' \<and> rr1_ok s' \<and>
    (\<forall>l. cq_list l (run_queues s' ! 0) = (if l = priority_level_of (t_priority (arc_val st p))
       then cq_list l (run_queues s ! 0) @ [p] else cq_list l (run_queues s ! 0)))"
proof -
  have a: "rr_inv s" "0 < num_cpus s" using assms(1) by (auto simp: rr1_ok_def)
  obtain c q where q: "least_loaded s c"
    "rr_enqueue p s st = Inr (s\<lparr>run_queues := (run_queues s)[c := q],
       runnable_threads := runnable_threads s + 1\<rparr>)"
    "\<And>l. cq_list l q = (if l = priority_level_of (t_priority (arc_val st p))
       then cq_list l (run_queues s ! c) @ [p] else cq_list l (run_queues s ! c))"
    by (rule rr_enqueue_run [OF a(1) assms(2) a(2)]) blast
  have c: "c = 0" "0 < length (run_queues s)"
    using q(1) assms(1) rr_inv_nth [OF a(1) a(2)] by (auto simp: least_loaded_def rr1_ok_def)
  show ?thesis
    using rr_enqueue_inv(1) [OF a(1) assms(2) q(2) a(2)] q c assms(1)
    by (auto simp: rr1_ok_def)
qed

lemma rr1_pick_run:
  assumes "rr1_ok s"
  shows "\<exists>s'. rr_pick_next 0 s st =
      Inr (case rr1_ready s of [] \<Rightarrow> None | p # _ \<Rightarrow> Some p, s') \<and> rr1_ok s' \<and>
      rr1_ready s' = tl (rr1_ready s)"
proof -
  have a: "rr_inv s" "0 < num_cpus s" "num_cpus s = 1" using assms by (auto simp: rr1_ok_def)
  from a(1,2) show ?thesis
  proof (cases rule: rr_pick_run [where st = st])
    case (own p lvl s1 s2)
    have "num_cpus s2 = num_cpus s1" using own(3) by (auto simp: taken_from_def)
    with taken_from_inv(1) [OF rr_sim_inv [OF a(1) own(2)] _ own(3)] rr_sim_cpus [OF own(2)] a own
    show ?thesis by (auto simp: rr1_ok_def rr1_ready_def dec_runnable_def)
  next
    case (stole p s1 s2)
    then show ?thesis using stolen_one_cpu rr_sim_cpus a(3) by metis
  next
    case (none s')
    then show ?thesis
      using rr_sim_inv [OF a(1) none(2)] rr_sim_cpus [OF none(2)] a(3)
        same_lists_ready [OF rr_sim_nth(2) [OF none(2), of 0]] rr_inv_nth [OF a(1,2)]
      by (auto simp: rr1_ok_def rr1_ready_def)
  qed
qed

interpretation rr1: scheduler_contract rr_ops rr1_ready rr1_ok
proof
  fix s :: round_robin and st :: threads and p
  assume a: "rr1_ok s" "arc_live st p"
  obtain s' where s': "rr_enqueue p s st = Inr s'" "rr1_ok s'"
    "\<And>l. cq_list l (run_queues s' ! 0) = (if l = priority_level_of (t_priority (arc_val st p))
       then cq_list l (run_queues s ! 0) @ [p] else cq_list l (run_queues s ! 0))"
    using rr1_enqueue_run [OF a] by blast
  have "\<exists>xs ys. rr1_ready s = xs @ ys \<and> rr1_ready s' = xs @ p # ys"
  proof -
    let ?q = "run_queues s ! 0"
    let ?H = "cq_list High ?q" and ?N = "cq_list Normal ?q" and ?L = "cq_list Low ?q"
      and ?I = "cq_list Idle ?q"
    consider "rr1_ready s' = ?H @ p # (?N @ ?L @ ?I)" | "rr1_ready s' = (?H @ ?N) @ p # (?L @ ?I)"
      | "rr1_ready s' = (?H @ ?N @ ?L) @ p # ?I" | "rr1_ready s' = (?H @ ?N @ ?L @ ?I) @ p # []"
      by (cases "priority_level_of (t_priority (arc_val st p))")
        (simp_all add: rr1_ready_def cq_ready_def s'(3))
    moreover have "rr1_ready s = ?H @ (?N @ ?L @ ?I)" "rr1_ready s = (?H @ ?N) @ (?L @ ?I)"
      "rr1_ready s = (?H @ ?N @ ?L) @ ?I" "rr1_ready s = (?H @ ?N @ ?L @ ?I) @ []"
      by (simp_all add: rr1_ready_def cq_ready_def)
    ultimately show ?thesis by metis
  qed
  with s' show "\<exists>s' xs ys. so_enqueue rr_ops p s st = Inr s' \<and> rr1_ok s' \<and>
      rr1_ready s = xs @ ys \<and> rr1_ready s' = xs @ p # ys"
    by (auto simp: rr_ops_def)
next
  fix s :: round_robin and st :: threads and p rs
  assume "rr1_ok s" "rr1_ready s = p # rs"
  with rr1_pick_run [of s st]
  show "\<exists>s'. so_pick_next rr_ops 0 s st = Inr (Some p, s') \<and> rr1_ok s' \<and> rr1_ready s' = rs"
    by (simp add: rr_ops_def)
next
  fix s :: round_robin and st :: threads
  assume "rr1_ok s" "rr1_ready s = []"
  with rr1_pick_run [of s st]
  show "\<exists>s'. so_pick_next rr_ops 0 s st = Inr (None, s') \<and> rr1_ok s' \<and> rr1_ready s' = []"
    by (simp add: rr_ops_def)
qed

section \<open>Reachable schedulers\<close>

text \<open>\<open>rr_reach w n s m\<close>: after some calls on a new scheduler for \<open>n\<close> CPUs its state is \<open>s\<close>, and
  \<open>m\<close> are the threads enqueued and not yet handed out.\<close>

inductive rr_reach ::
  "(nat \<Rightarrow> priority_level \<Rightarrow> bool list) \<Rightarrow> nat \<Rightarrow> round_robin \<Rightarrow> ptr multiset \<Rightarrow> bool"
  for w n where
  rr_start: "rr_reach w n (rr_new w n) {#}"
| rr_enq: "rr_reach w n s m \<Longrightarrow> arc_live st p \<Longrightarrow> rr_enqueue p s st = Inr s' \<Longrightarrow>
    rr_reach w n s' (add_mset p m)"
| rr_pick: "rr_reach w n s m \<Longrightarrow> rr_pick_next cpu s st = Inr (t, s') \<Longrightarrow>
    rr_reach w n s' (case t of None \<Rightarrow> m | Some p \<Rightarrow> m - {#p#})"

lemma rr_enqueue_total: "rr_enqueue p s st = Inr s' \<Longrightarrow> total_threads s' = total_threads s \<and> num_cpus s' = num_cpus s"
  by (auto simp: rr_enqueue_def rbind_eq_Inr Let_def)

text \<open>What any pick does to the set of waiting threads, on any number of CPUs.\<close>

lemma rr_pick_effect:
  assumes "rr_inv s" "rr_pick_next cpu s st = Inr (t, s')"
  shows "rr_inv s' \<and> num_cpus s' = num_cpus s \<and> total_threads s' = total_threads s \<and>
    mset (rr_all s) = mset (rr_all s') + (case t of None \<Rightarrow> {#} | Some p \<Rightarrow> {#p#})"
proof (cases "cpu < num_cpus s")
  case False
  then show ?thesis using assms by (simp add: rr_pick_next_def)
next
  case True
  have taken: "rr_inv (dec_runnable s2) \<and> num_cpus s2 = num_cpus s \<and> total_threads s2 = total_threads s \<and>
      mset (rr_all s) = add_mset p (mset (rr_all (dec_runnable s2)))"
    if "rr_sim s s1" "taken_from lvl v p s1 s2" "v < num_cpus s" for s1 s2 lvl v p
  proof -
    have i: "rr_inv s1" "v < num_cpus s1" using rr_sim_inv [OF assms(1)] rr_sim_cpus that by auto
    have "num_cpus s2 = num_cpus s1" "total_threads s2 = total_threads s1" "total_threads s1 = total_threads s"
      using that(1,2) by (auto simp: taken_from_def rr_sim_def)
    then show ?thesis
      using taken_from_inv [OF i that(2)] rr_sim_all [OF that(1)] rr_sim_cpus [OF that(1)]
      by (simp add: rr_all_def dec_runnable_def)
  qed
  from assms(1) True show ?thesis
  proof (cases rule: rr_pick_run [where st = st])
    case (own p lvl s1 s2)
    then show ?thesis using taken [OF own(2,3) True] assms(2) by (auto simp: dec_runnable_def)
  next
    case (stole p s1 s2)
    then obtain v lvl s3 where "v < num_cpus s1" "rr_sim s1 s3" "taken_from lvl v p s3 s2"
      by (auto simp: stolen_def)
    then show ?thesis
      using taken [OF rr_sim_trans [OF stole(2)]] rr_sim_cpus [OF stole(2)] stole(1) assms(2)
      by (auto simp: dec_runnable_def)
  next
    case (none s1)
    then show ?thesis
      using assms(2) rr_sim_inv [OF assms(1) none(2)] rr_sim_all [OF none(2)]
      by (simp add: rr_sim_def)
  qed
qed

section \<open>Properties\<close>

text \<open>
  C23. No thread is lost or duplicated by the scheduler.  After any sequence of \<open>enqueue\<close> and
  \<open>pick_next\<close> calls, by any CPUs, on a round-robin scheduler for any positive number of CPUs, the
  queues hold exactly the threads enqueued and not yet handed out, \<open>runnable_threads\<close> counts them,
  and every further call returns without fault.  \<open>total_threads\<close> is never counted, so \<open>stats\<close>
  reports no threads in total and none blocked.
\<close>

theorem rr_conserves_threads:
  assumes "rr_reach w n s m" "0 < n"
  shows "mset (rr_all s) = m \<and> rr_stats s = (0, of_nat (size m), 0) \<and>
    (\<exists>r. rr_pick_next cpu s st = Inr r) \<and> (arc_live st p \<longrightarrow> (\<exists>s'. rr_enqueue p s st = Inr s'))"
proof -
  have inv: "rr_inv s \<and> num_cpus s = n \<and> mset (rr_all s) = m \<and> total_threads s = 0"
    using assms
  proof (induction rule: rr_reach.induct)
    case rr_start
    then show ?case using rr_new_inv [of w n] by (simp add: rr_new_def)
  next
    case (rr_enq s m st p s')
    then show ?case using rr_enqueue_inv [of s st p s'] rr_enqueue_total by auto
  next
    case (rr_pick s m cpu st t s')
    then show ?case using rr_pick_effect [of s cpu st t s']
      by (auto split: option.splits)
  qed
  have "\<exists>r. rr_pick_next cpu s st = Inr r"
  proof (cases "cpu < num_cpus s")
    case True
    with inv show ?thesis by (blast elim: rr_pick_run [where st = st])
  qed (simp add: rr_pick_next_def)
  moreover have "\<exists>s'. rr_enqueue p s st = Inr s'" if "arc_live st p"
    using rr_enqueue_run [of s st p] inv that assms(2) by blast
  moreover have "rr_stats s = (0, of_nat (size m), 0)"
    using inv by (auto simp: rr_stats_def rr_inv_def saturating_sub_def Let_def word_gt_0)
  ultimately show ?thesis using inv by blast
qed

definition example_threads :: "u8 \<Rightarrow> threads" where
  "example_threads prio = \<lparr>ah_cells = (\<lambda>p. if p = 0 \<or> 3 < p then None else
     Some \<lparr>arc_count = 2, arc_data = new_thread_inner (of_nat p)
       \<lparr>st_memory = 0x90000, st_usable_size = 4096, st_size_class = Small, st_has_guard_pages = False\<rparr>
       0x4000 prio\<rparr>),
     ah_next = 4, ah_room = 10, ah_weak = []\<rparr>"

lemma example_threads_live: "arc_live (example_threads prio) p \<longleftrightarrow> p \<in> {1, 2, 3}"
  "p \<in> {1, 2, 3} \<Longrightarrow> t_priority (arc_val (example_threads prio) p) = prio"
  by (auto simp: arc_obs example_threads_def dom_def new_thread_inner_def)

theorem rr_conserves_threads_witness:
  "\<exists>s. rr_reach (\<lambda>i l. []) 2 s {#1, 2#} \<and> rr_stats s = (0, 2, 0)"
proof -
  let ?st = "example_threads 200"
  have l: "arc_live ?st 1" "arc_live ?st 2" by (simp_all add: example_threads_live)
  have r0: "rr_reach (\<lambda>i l. []) 2 (rr_new (\<lambda>i l. []) 2) {#}" by (rule rr_start)
  obtain s1 where s1: "rr_enqueue 2 (rr_new (\<lambda>i l. []) 2) ?st = Inr s1"
    using rr_conserves_threads [OF r0, of _ ?st 2] l by auto
  have r1: "rr_reach (\<lambda>i l. []) 2 s1 {#2#}" using rr_enq [OF r0 l(2) s1] by simp
  obtain s2 where s2: "rr_enqueue 1 s1 ?st = Inr s2"
    using rr_conserves_threads [OF r1, of _ ?st 1] l by auto
  have r2: "rr_reach (\<lambda>i l. []) 2 s2 {#1, 2#}" using rr_enq [OF r1 l(1) s2] by simp
  show ?thesis using r2 rr_conserves_threads [OF r2] by auto
qed

text \<open>
  C21. Strict priorities, round robin within a level.  On one CPU, as the kernels run it, \<open>enqueue\<close>
  appends a thread to the queue of its priority level and leaves the other levels alone, and
  \<open>pick_next\<close> returns the longest-waiting thread of the highest level that has one, and nothing
  exactly when all four levels are empty.
\<close>

theorem rr_priority_round_robin:
  assumes "rr1_ok s"
  shows "(arc_live st p \<longrightarrow> (\<exists>s'. rr_enqueue p s st = Inr s' \<and> rr1_ok s' \<and>
      (\<forall>l. cq_list l (run_queues s' ! 0) = cq_list l (run_queues s ! 0) @
         (if l = priority_level_of (t_priority (arc_val st p)) then [p] else [])))) \<and>
    (\<exists>s'. rr_pick_next 0 s st = Inr (case rr1_ready s of [] \<Rightarrow> None | p # _ \<Rightarrow> Some p, s') \<and>
       rr1_ok s' \<and> rr1_ready s' = tl (rr1_ready s)) \<and>
    rr1_ready s = cq_list High (run_queues s ! 0) @ cq_list Normal (run_queues s ! 0) @
      cq_list Low (run_queues s ! 0) @ cq_list Idle (run_queues s ! 0)"
proof -
  have "\<exists>s'. rr_enqueue p s st = Inr s' \<and> rr1_ok s' \<and>
      (\<forall>l. cq_list l (run_queues s' ! 0) = cq_list l (run_queues s ! 0) @
         (if l = priority_level_of (t_priority (arc_val st p)) then [p] else []))"
    if "arc_live st p"
    using rr1_enqueue_run [OF assms that] by auto
  with rr1_pick_run [OF assms, of st] show ?thesis by (simp add: rr1_ready_def cq_ready_def)
qed

lemma rr1_ok_new: "rr1_ok (rr_new w 1)" "rr1_ready (rr_new w 1) = []"
  using rr_new_inv [of w 1] rr1_all [of "rr_new w 1"] by (auto simp: rr1_ok_def rr_new_def)

theorem rr_priority_round_robin_witness:
  "\<exists>s'. rr_enqueue 2 (rr_new (\<lambda>i l. [True]) 1) (example_threads 200) = Inr s' \<and> rr1_ok s' \<and>
     cq_list High (run_queues s' ! 0) = [2] \<and> cq_list Low (run_queues s' ! 0) = []"
proof -
  let ?s = "rr_new (\<lambda>i l. [True]) 1"
  have e: "cq_list l (run_queues ?s ! 0) = []" for l
    using rr1_ok_new(2) [of "\<lambda>i l. [True]"] by (cases l) (simp_all add: rr1_ready_def cq_ready_def)
  have "priority_level_of 200 = High" by (simp add: priority_level_of_def)
  with rr_priority_round_robin [OF rr1_ok_new(1), of "example_threads 200" 2 "\<lambda>i l. [True]"] e
  show ?thesis by (force simp: example_threads_live)
qed

text \<open>
  C16. Threads stranded on other CPUs.  With several CPUs \<open>pick_next\<close> returns nothing exactly when the
  CPU's own queues are empty and no other CPU has a Normal or Low thread; High and Idle threads
  queued on other CPUs are never taken, although they are ready.
\<close>

theorem rr_pick_none_iff:
  assumes "rr_inv s" "cpu < num_cpus s"
  shows "(\<exists>s'. rr_pick_next cpu s st = Inr (None, s')) \<longleftrightarrow>
    cq_ready (run_queues s ! cpu) = [] \<and>
    (\<forall>c < num_cpus s. c \<noteq> cpu \<longrightarrow>
       cq_list Normal (run_queues s ! c) = [] \<and> cq_list Low (run_queues s ! c) = [])"
  using assms
proof (cases rule: rr_pick_run [where st = st])
  case (own p lvl s1 s2)
  then show ?thesis by simp
next
  case (stole p s1 s2)
  then obtain v lvl s3 ps where v: "v \<noteq> cpu" "v < num_cpus s1" "lvl \<in> {Normal, Low}" "rr_sim s1 s3"
    "cq_list lvl (run_queues s3 ! v) = p # ps"
    by (auto simp: stolen_def taken_from_def)
  then have "cq_list lvl (run_queues s ! v) = p # ps"
    using rr_sim_list [OF assms(1) rr_sim_trans [OF stole(2) v(4)]] rr_sim_cpus [OF stole(2)] by simp
  then show ?thesis using stole(1) v rr_sim_cpus [OF stole(2)] by auto
next
  case (none s')
  then show ?thesis by (auto simp: stealable_def)
qed

text \<open>Two CPUs; a High thread waits on the second.\<close>

definition stranded :: "ptr lock_free_queue \<Rightarrow> round_robin" where
  "stranded v = \<lparr>num_cpus = 2, run_queues =
     [new_cpu_run_queue (\<lambda>l. []), (new_cpu_run_queue (\<lambda>l. []))\<lparr>high_priority := v, thread_count := 1\<rparr>],
     total_threads = 0, runnable_threads = 1\<rparr>"

lemma new_cq_lists: "cq_list l (new_cpu_run_queue w) = []" "queue_inv (level_queue l (new_cpu_run_queue w))"
  by (cases l; simp add: cq_list_def new_cpu_run_queue_def lfq.items_fresh lfq.ok_fresh)+

lemma stranded_inv:
  assumes "queue_inv v" "queue_list v = [2]"
  shows "rr_inv (stranded v)" "rr_all (stranded v) = [2]"
    "cq_list l (run_queues (stranded v) ! 0) = []"
    "cq_list l (run_queues (stranded v) ! 1) = (if l = High then [2] else [])"
proof -
  show 0: "cq_list l (run_queues (stranded v) ! 0) = []" for l by (simp add: stranded_def new_cq_lists)
  show 1: "cq_list l (run_queues (stranded v) ! 1) = (if l = High then [2] else [])" for l
    using assms by (cases l) (simp_all add: stranded_def cq_list_def new_cpu_run_queue_def lfq.items_fresh)
  have r: "cq_ready (run_queues (stranded v) ! 0) = []" "cq_ready (run_queues (stranded v) ! 1) = [2]"
    unfolding cq_ready_def 0 1 by simp_all
  have rq: "run_queues (stranded v) = [run_queues (stranded v) ! 0, run_queues (stranded v) ! 1]"
    by (simp add: stranded_def)
  show all: "rr_all (stranded v) = [2]" unfolding rr_all_def by (subst rq) (simp add: r [unfolded One_nat_def])
  have "queue_inv (level_queue l (run_queues (stranded v) ! 1))" for l
    using assms by (cases l) (simp_all add: stranded_def new_cpu_run_queue_def lfq.ok_fresh)
  moreover have "queue_inv (level_queue l (run_queues (stranded v) ! 0))" for l
    by (simp add: stranded_def new_cq_lists)
  ultimately have "cq_inv (run_queues (stranded v) ! 0)" "cq_inv (run_queues (stranded v) ! 1)"
    unfolding cq_inv_def r by (simp_all add: stranded_def new_cpu_run_queue_def)
  then show "rr_inv (stranded v)"
    unfolding rr_inv_def all by (subst rq) (simp add: stranded_def)
qed

theorem rr_pick_none_iff_witness:
  "\<exists>v s'. rr_all (stranded v) = [2] \<and> rr_pick_next 0 (stranded v) (example_threads 200) = Inr (None, s')"
proof -
  obtain v :: "ptr lock_free_queue" where v: "queue_inv v" "queue_list v = [2]"
    using lfq.enq_ok [OF lfq.ok_fresh, of 2 "[]"] by (auto simp: lfq.items_fresh)
  have "cq_ready (run_queues (stranded v) ! 0) = []"
    by (simp add: cq_ready_def stranded_inv(3) [OF v])
  moreover have "num_cpus (stranded v) = 2" by (simp add: stranded_def)
  ultimately show ?thesis
    using rr_pick_none_iff [OF stranded_inv(1) [OF v], of 0 "example_threads 200"]
      stranded_inv(4) [OF v] stranded_inv(2) [OF v]
    by (auto simp: less_2_cases_iff)
qed

text \<open>
  First come, first served.  The FCFS scheduler hands threads out in the order they were
  enqueued, whatever their priorities, its counter is the number of waiting threads, and its log
  lines never fault.
\<close>

theorem fcfs_is_fifo:
  assumes "fcfs_ok s" "list_all (arc_live st) (fcfs_ready s)" "arc_live st p"
  shows "(\<exists>s'. fcfs_enqueue p s st = Inr s' \<and> fcfs_ok s' \<and> fcfs_ready s' = fcfs_ready s @ [p]) \<and>
    (\<exists>s'. fcfs_pick_next cpu s st = Inr (case fcfs_ready s of [] \<Rightarrow> None | p # _ \<Rightarrow> Some p, s') \<and>
       fcfs_ok s' \<and> fcfs_ready s' = tl (fcfs_ready s))"
  using fcfs_enqueue_run [OF assms(1,3)] fcfs_pick_run [OF assms(1,2)] by blast

theorem fcfs_is_fifo_witness:
  "\<exists>s'. fcfs_enqueue 3 (fcfs_new [True]) (example_threads 0) = Inr s' \<and> fcfs_ready s' = [3]"
proof -
  have "fcfs_ok (fcfs_new [True])" "fcfs_ready (fcfs_new [True]) = []"
    by (simp_all add: fcfs_ok_def fcfs_ready_def fcfs_new_def lfq.ok_fresh lfq.items_fresh)
  with fcfs_is_fifo [of "fcfs_new [True]" "example_threads 0" 3 0] show ?thesis
    by (auto simp: example_threads_live)
qed

text \<open>
  C17. The tick.  When the running thread's slice has expired, \<open>on_tick\<close> asks for preemption exactly
  if the thread is of High level or a thread of a higher level is waiting on CPU 0; a thread of
  equal level never triggers it below High, so equal-priority threads do not rotate by ticks.  In
  either case the running thread's state is left Ready, also when it keeps the CPU.
\<close>

theorem rr_tick_decision:
  assumes "rr_inv s" "0 < num_cpus s" "arc_live st p" "arc_cnt st p \<noteq> 0"
    and "should_preempt checks now p st = Inr (True, st1)"
  shows "\<exists>t st'. rr_on_tick std_shim checks now p s st = Inr (t, s, st') \<and>
    get_state p st' = Inr Ready \<and>
    (t = Some p \<or> t = None) \<and>
    (t = Some p \<longleftrightarrow> (let lvl = priority_level_of (t_priority (arc_val st p)) in
       lvl = High \<or> (\<exists>l \<in> set (preempting_levels lvl). cq_list l (run_queues s ! 0) \<noteq> [])))"
proof -
  have aw: "any_waiting ls (run_queues s ! 0) = Inr (\<exists>l \<in> set ls. cq_list l (run_queues s ! 0) \<noteq> [])" for ls
  proof (induction ls)
    case (Cons l ls)
    have "queue_inv (level_queue l (run_queues s ! 0))"
      using rr_inv_nth [OF assms(1,2)] by (simp add: cq_inv_def)
    from lfq.front_ok [OF this] Cons show ?case
      by (auto simp: waiting_def cq_list_def split: list.splits)
  qed simp
  obtain ts where "update_vruntime checks now (t_time_slice (arc_val st p)) = Inr (True, ts)"
    "st1 = tmod p (\<lambda>t. t\<lparr>t_time_slice := ts\<rparr>) st"
    using assms(3,5) by (auto simp: should_preempt_def rbind_eq_Inr)
  then have st1: "arc_live st1 p" "arc_cnt st1 p = arc_cnt st p"
    "t_priority (arc_val st1 p) = t_priority (arc_val st p)"
    using assms(3) by auto
  define st2 where "st2 = tmod p (\<lambda>t. t\<lparr>t_state := state_code Ready\<rparr>) (cmod p (\<lambda>n. n + 1) st1)"
  have pp: "prepare_preemption p st1 = Inr (p, st2)" "arc_live st2 p" "arc_cnt st2 p = arc_cnt st p + 1"
    "t_priority (arc_val st2 p) = t_priority (arc_val st p)" "t_state (arc_val st2 p) = state_code Ready"
    using st1 by (simp_all add: prepare_preemption_def set_state_def st2_def)
  have "arc_drop std_shim p st2 = Inr (cmod p (\<lambda>n. n - 1) st2)"
    using pp assms(4) by (intro arc_drop_cmod) auto
  then show ?thesis
    using assms(1,2,5) pp aw rr_inv_nth [OF assms(1,2)]
    by (auto simp: rr_on_tick_def last_cpu_def index_def get_priority_def get_state_def Let_def)
qed

theorem rr_tick_decision_witness:
  "\<exists>st1 t st'. should_preempt False (Instant 1000000000) 1
       (tmod 1 (\<lambda>t. t\<lparr>t_time_slice := start_slice (Instant 1) (t_time_slice t)\<rparr>) (example_threads 128))
       = Inr (True, st1) \<and>
     rr_on_tick False False (Instant 1000000000) 1 (rr_new (\<lambda>i l. []) 1)
       (tmod 1 (\<lambda>t. t\<lparr>t_time_slice := start_slice (Instant 1) (t_time_slice t)\<rparr>) (example_threads 128))
       = Inr (t, rr_new (\<lambda>i l. []) 1, st') \<and>
     t = None \<and> get_state 1 st' = Inr Ready"
proof -
  define st where "st = tmod 1 (\<lambda>t. t\<lparr>t_time_slice := start_slice (Instant 1) (t_time_slice t)\<rparr>) (example_threads 128)"
  have l: "arc_live (example_threads 128) 1" by (simp add: example_threads_live)
  have v: "arc_live st 1" "arc_cnt st 1 = 2" "t_priority (arc_val st 1) = 128"
    "t_time_slice (arc_val st 1) = start_slice (Instant 1) (new_time_slice 128)"
    using l by (simp_all add: st_def example_threads_live) (simp_all add: arc_obs example_threads_def new_thread_inner_def)
  have "\<exists>ts. update_vruntime False (Instant 1000000000) (start_slice (Instant 1) (new_time_slice 128)) = Inr (True, ts)"
    by (simp add: update_vruntime_def start_slice_def new_time_slice_def saturating_sub_def mul_u_def
        calculate_quantum_def DEFAULT_QUANTUM_NS_def)
  then obtain st1 where e: "should_preempt False (Instant 1000000000) 1 st = Inr (True, st1)"
    using v by (auto simp: should_preempt_def)
  let ?s = "rr_new (\<lambda>i l. []) 1"
  have ok: "rr_inv ?s" "0 < num_cpus ?s" by (rule rr_new_inv(1)) (simp add: rr_new_def)
  have emp: "cq_list High (run_queues ?s ! 0) = []"
    by (simp add: rr_new_def new_cq_lists)
  have lvl: "priority_level_of 128 = Normal" by (simp add: priority_level_of_def)
  obtain t st' where "rr_on_tick False False (Instant 1000000000) 1 ?s st = Inr (t, ?s, st')"
    "get_state 1 st' = Inr Ready" "t = Some 1 \<or> t = None" "t \<noteq> Some 1"
    using rr_tick_decision [OF ok v(1) _ e, of False] v emp lvl by auto
  with e show ?thesis unfolding st_def by auto
qed

text \<open>The documented constant for low priority falls into the Normal level.\<close>

lemma low_constant_is_normal:
  "priority_level_of LOW = Normal" "priority_level_of IDLE = Idle"
  "priority_level_of NORMAL = Normal" "priority_level_of HIGH = High"
  "priority_level_of REALTIME = High"
  by (simp_all add: priority_level_of_def LOW_def IDLE_def NORMAL_def HIGH_def REALTIME_def)

text \<open>A scheduler for no CPUs panics at the first enqueue.\<close>

lemma rr_zero_cpus_panics: "arc_live st p \<Longrightarrow> rr_enqueue p (rr_new w 0) st = Inl IndexOutOfBounds"
  by (simp add: rr_enqueue_def get_priority_def select_cpu_def index_def rr_new_def)

end
