(* ===== verification/Irq_Entry.thy ===== *)
theory Irq_Entry
  imports Aarch64
begin

text \<open>
  The interrupt entry \<open>irq_el1h\<close> of \<open>arch/aarch64_vectors.rs\<close>, instruction by instruction.  The
  statics it names are given by their addresses; \<open>bl irq_handler\<close> calls a Rust function, which is
  the parameter \<open>call\<close> of the block interpreter.
\<close>

record irq_symbols =
  sym_save :: u64
  sym_load :: u64
  sym_stack :: u64

definition irq_spill :: "irq_symbols \<Rightarrow> instr list" where
  "irq_spill y =
    [SubSP 64, Stp 0 1 SPB 0, Stp 2 3 SPB 16, Stp 29 30 SPB 32,
     Mrs 0 ELR_EL1, Mrs 1 SPSR_EL1, Stp 0 1 SPB 48,
     AddFromSP 0 64,
     Adrp 29 (sym_stack y), AddLo12 29 29 (sym_stack y), AddImm 29 29 4096,
     MovFromSP 2, MovToSP 29,
     Adrp 29 (sym_save y), AddLo12 29 29 (sym_save y), Ldr 29 (XB 29) 0]"

definition irq_save :: "instr list" where
  "irq_save =
    [Ldp 3 1 (XB 2) 0,
     Ldr 3 (XB 2) 0, Str 3 (XB 29) 0,
     Ldr 3 (XB 2) 8, Str 3 (XB 29) 8,
     Ldr 3 (XB 2) 16, Str 3 (XB 29) 16,
     Ldr 3 (XB 2) 24, Str 3 (XB 29) 24,
     Stp 4 5 (XB 29) 32, Stp 6 7 (XB 29) 48, Stp 8 9 (XB 29) 64, Stp 10 11 (XB 29) 80,
     Stp 12 13 (XB 29) 96, Stp 14 15 (XB 29) 112, Stp 16 17 (XB 29) 128,
     Stp 18 19 (XB 29) 144, Stp 20 21 (XB 29) 160, Stp 22 23 (XB 29) 176,
     Stp 24 25 (XB 29) 192, Stp 26 27 (XB 29) 208, Str 28 (XB 29) 224,
     Ldp 3 1 (XB 2) 32, Str 3 (XB 29) 232, Str 1 (XB 29) 240,
     Str 0 (XB 29) 248,
     Ldp 3 1 (XB 2) 48, Str 3 (XB 29) 256, Str 1 (XB 29) 264]"

definition irq_find_load :: "irq_symbols \<Rightarrow> instr list" where
  "irq_find_load y = [Adrp 29 (sym_load y), AddLo12 29 29 (sym_load y), Ldr 29 (XB 29) 0]"

definition irq_restore :: "instr list" where
  "irq_restore =
    [Ldr 0 (XB 29) 264, Msr SPSR_EL1 0, Ldr 0 (XB 29) 256, Msr ELR_EL1 0,
     Ldr 0 (XB 29) 248, MovToSP 0,
     Ldp 0 1 (XB 29) 0, Ldp 2 3 (XB 29) 16, Ldp 4 5 (XB 29) 32, Ldp 6 7 (XB 29) 48,
     Ldp 8 9 (XB 29) 64, Ldp 10 11 (XB 29) 80, Ldp 12 13 (XB 29) 96, Ldp 14 15 (XB 29) 112,
     Ldp 16 17 (XB 29) 128, Ldp 18 19 (XB 29) 144, Ldp 20 21 (XB 29) 160,
     Ldp 22 23 (XB 29) 176, Ldp 24 25 (XB 29) 192, Ldp 26 27 (XB 29) 208,
     Ldr 28 (XB 29) 224, Ldr 30 (XB 29) 240, Ldr 29 (XB 29) 232]"

definition irq_el1h_asm :: "irq_symbols \<Rightarrow> instr list" where
  "irq_el1h_asm y =
     irq_spill y @ [Cbz 29 (length irq_save)] @ irq_save @
     [Bl] @ irq_find_load y @ [Cbz 29 (length irq_restore + 1)] @ irq_restore @ [Eret] @
     [B_self]"

definition irq_el1h :: "(cpu \<Rightarrow> cpu res) \<Rightarrow> irq_symbols \<Rightarrow> cpu \<Rightarrow> cpu res" where
  "irq_el1h irq_handler y = exec irq_handler (irq_el1h_asm y)"

section \<open>The phases\<close>

text \<open>The 64 bytes below the interrupted stack pointer that the entry uses.\<close>

definition spill_cells :: "u64 \<Rightarrow> u64 set" where
  "spill_cells f = {f, f + 8, f + 16, f + 24, f + 32, f + 40, f + 48, f + 56}"

definition interrupted_context :: "cpu \<Rightarrow> aarch64_context" where
  "interrupted_context s = \<lparr>c_x = (\<lambda>i. if i < 31 then gpr s i else 0), c_sp = sp s, c_pc = pc s,
     c_pstate = pstate_of s\<rparr>"

definition irq_resumed :: "aarch64_context \<Rightarrow> cpu \<Rightarrow> bool" where
  "irq_resumed c s \<longleftrightarrow> (\<forall>i < 31. gpr s i = c_x c i) \<and> sp s = c_sp c \<and> pc s = c_pc c \<and>
     nzcv s = c_pstate c AND NZCV_MASK \<and> daif s = c_pstate c AND DAIF_MASK \<and>
     el_mode s = c_pstate c AND MODE_MASK"

lemma spill_run:
  assumes f: "sp s = f + 64" and "sym_save y \<notin> spill_cells f"
    and h: "h = run_straight (irq_spill y) (take_irq vec s)"
  shows "gpr h = (gpr s)(0 := f + 64, 1 := pstate_of s, 2 := f, 29 := mem s (sym_save y))"
    and "mem h = (mem s)(f := gpr s 0, f + 8 := gpr s 1, f + 16 := gpr s 2, f + 24 := gpr s 3,
      f + 32 := gpr s 29, f + 40 := gpr s 30, f + 48 := pc s, f + 56 := pstate_of s)"
  unfolding h using assms(2)
  by (simp_all add: irq_spill_def take_irq_def spill_cells_def f adrp_add_numeral Let_def fun_eq_iff)

lemma ctx_cells_mem [simp]:
  "q \<in> ctx_cells q" "q + 8 \<in> ctx_cells q" "q + 16 \<in> ctx_cells q" "q + 24 \<in> ctx_cells q"
  "q + 32 \<in> ctx_cells q" "q + 40 \<in> ctx_cells q" "q + 48 \<in> ctx_cells q" "q + 56 \<in> ctx_cells q"
  "q + 64 \<in> ctx_cells q" "q + 72 \<in> ctx_cells q" "q + 80 \<in> ctx_cells q" "q + 88 \<in> ctx_cells q"
  "q + 96 \<in> ctx_cells q" "q + 104 \<in> ctx_cells q" "q + 112 \<in> ctx_cells q" "q + 120 \<in> ctx_cells q"
  "q + 128 \<in> ctx_cells q" "q + 136 \<in> ctx_cells q" "q + 144 \<in> ctx_cells q" "q + 152 \<in> ctx_cells q"
  "q + 160 \<in> ctx_cells q" "q + 168 \<in> ctx_cells q" "q + 176 \<in> ctx_cells q" "q + 184 \<in> ctx_cells q"
  "q + 192 \<in> ctx_cells q" "q + 200 \<in> ctx_cells q" "q + 208 \<in> ctx_cells q" "q + 216 \<in> ctx_cells q"
  "q + 224 \<in> ctx_cells q" "q + 232 \<in> ctx_cells q" "q + 240 \<in> ctx_cells q" "q + 248 \<in> ctx_cells q"
  "q + 256 \<in> ctx_cells q" "q + 264 \<in> ctx_cells q"
  by (simp_all add: ctx_cells_explicit)

lemma spill_cells_mem [simp]:
  "f \<in> spill_cells f" "f + 8 \<in> spill_cells f" "f + 16 \<in> spill_cells f" "f + 24 \<in> spill_cells f"
  "f + 32 \<in> spill_cells f" "f + 40 \<in> spill_cells f" "f + 48 \<in> spill_cells f" "f + 56 \<in> spill_cells f"
  by (simp_all add: spill_cells_def)

lemma save_run:
  assumes "gpr s 29 = q" "gpr s 2 = f" "ctx_cells q \<inter> spill_cells f = {}"
    and h: "h = run_straight irq_save s"
  shows "a \<notin> ctx_cells q \<Longrightarrow> mem h a = mem s a"
    and "ctx_at (mem h) q =
      \<lparr>c_x = (\<lambda>i. if i < 31 then ((gpr s)(0 := mem s f, 1 := mem s (f + 8), 2 := mem s (f + 16),
          3 := mem s (f + 24), 29 := mem s (f + 32), 30 := mem s (f + 40))) i else 0),
       c_sp = gpr s 0, c_pc = mem s (f + 48), c_pstate = mem s (f + 56)\<rparr>"
proof -
  have "f \<notin> ctx_cells q" "q \<notin> spill_cells f"
    using assms(3) by (meson ctx_cells_mem(1) spill_cells_mem(1) disjoint_iff)+
  then have "\<forall>c \<in> ctx_cells q. f \<noteq> c" "\<forall>c \<in> ctx_cells q. c \<noteq> f"
    "\<forall>c \<in> spill_cells f. q \<noteq> c" "\<forall>c \<in> spill_cells f. c \<noteq> q"
    by blast+
  note apart = this [unfolded ctx_cells_explicit spill_cells_def, simplified]
    this [unfolded ctx_cells_explicit spill_cells_def add.commute [of f] add.commute [of q], simplified]
  note run = h irq_save_def assms(1,2) Let_def apart
  show "a \<notin> ctx_cells q \<Longrightarrow> mem h a = mem s a"
    unfolding ctx_cells_explicit by (simp add: h irq_save_def assms(1,2) Let_def)
  have "c_x (ctx_at (mem h) q) i = (if i < 31 then ((gpr s)(0 := mem s f, 1 := mem s (f + 8),
      2 := mem s (f + 16), 3 := mem s (f + 24), 29 := mem s (f + 32), 30 := mem s (f + 40))) i else 0)" for i
  proof (cases "i < 31")
    case True
    then have "i \<in> {0,1,2,3,4,5,6,7,8,9,10,11,12,13,14,15,16,17,18,19,20,21,22,23,24,25,26,27,28,29,30}"
      by (rule less31_cases)
    then show ?thesis
      by (elim insertE emptyE) (simp_all add: ctx_at_def run)
  qed (simp add: ctx_at_def)
  then show "ctx_at (mem h) q =
      \<lparr>c_x = (\<lambda>i. if i < 31 then ((gpr s)(0 := mem s f, 1 := mem s (f + 8), 2 := mem s (f + 16),
          3 := mem s (f + 24), 29 := mem s (f + 32), 30 := mem s (f + 40))) i else 0),
       c_sp = gpr s 0, c_pc = mem s (f + 48), c_pstate = mem s (f + 56)\<rparr>"
    by (simp add: fun_eq_iff ctx_at_def run)
qed

lemma restore_run:
  assumes "gpr s 29 = q" "h = run_straight irq_restore s"
  shows "irq_resumed (ctx_at (mem s) q) (do_eret h)" and "mem h = mem s"
proof -
  have "gpr h i = c_x (ctx_at (mem s) q) i" if "i < 31" for i
    using less31_cases [OF that]
    by (elim insertE emptyE)
      (simp_all add: assms ctx_at_def irq_restore_def Let_def)
  moreover have "sp h = c_sp (ctx_at (mem s) q)" "elr_el1 h = c_pc (ctx_at (mem s) q)"
    "spsr_el1 h = c_pstate (ctx_at (mem s) q)"
    by (simp_all add: assms ctx_at_def irq_restore_def Let_def)
  ultimately show "irq_resumed (ctx_at (mem s) q) (do_eret h)"
    by (simp add: irq_resumed_def do_eret_def)
  show "mem h = mem s" by (simp add: assms(2) irq_restore_def Let_def)
qed

section \<open>The whole entry\<close>

lemma irq_el1h_phases:
  assumes "h0 = run_straight (irq_spill y) (take_irq vec s)"
  shows "irq_el1h irq_handler y (take_irq vec s) =
    rbind (irq_handler (if gpr h0 29 = 0 then h0 else run_straight irq_save h0)) (\<lambda>h.
      let h1 = run_straight (irq_find_load y) h
      in if gpr h1 29 = 0 then Inl Hang else Inr (do_eret (run_straight irq_restore h1)))"
proof -
  have st: "list_all straight (irq_spill y)" "list_all straight irq_save"
    "list_all straight (irq_find_load y)" "list_all straight irq_restore"
    by (simp_all add: irq_spill_def irq_save_def irq_find_load_def irq_restore_def)
  note ex = st [THEN exec_straight]
  define rest where
    "rest = irq_find_load y @ [Cbz 29 (length irq_restore + 1)] @ irq_restore @ [Eret] @ [B_self]"
  have fin: "exec irq_handler rest h =
     (let h1 = run_straight (irq_find_load y) h
      in if gpr h1 29 = 0 then Inl Hang else Inr (do_eret (run_straight irq_restore h1)))" for h
    by (simp add: rest_def ex Let_def del: exec.simps)
  show ?thesis
    unfolding irq_el1h_def irq_el1h_asm_def ex(1) assms [symmetric] rest_def [symmetric]
    by (simp add: ex fin del: exec.simps)
qed

lemma find_load_run:
  "gpr (run_straight (irq_find_load y) h) = (gpr h)(29 := mem h (sym_load y))"
  "mem (run_straight (irq_find_load y) h) = mem h"
  by (simp_all add: irq_find_load_def adrp_add_numeral fun_eq_iff)

lemma irq_entry_run:
  assumes "spill_cells (sp s - 64) \<inter> (insert (sym_save y) (ctx_cells (mem s (sym_save y)))) = {}"
    and "mem s (sym_save y) \<noteq> 0"
  obtains h where "ctx_at (mem h) (mem s (sym_save y)) = interrupted_context s"
    "\<And>a. a \<notin> ctx_cells (mem s (sym_save y)) \<union> spill_cells (sp s - 64) \<Longrightarrow> mem h a = mem s a"
    "irq_el1h irq_handler y (take_irq vec s) =
       rbind (irq_handler h) (\<lambda>h. let h1 = run_straight (irq_find_load y) h
         in if gpr h1 29 = 0 then Inl Hang else Inr (do_eret (run_straight irq_restore h1)))"
proof -
  define f where "f = sp s - 64"
  define q where "q = mem s (sym_save y)"
  define h0 where "h0 = run_straight (irq_spill y) (take_irq vec s)"
  have f: "sp s = f + 64" by (simp add: f_def)
  have ns: "sym_save y \<notin> spill_cells f" using assms(1) by (auto simp: f_def)
  note sp = spill_run [OF f ns h0_def]
  have g: "gpr h0 29 = q" "gpr h0 2 = f" using sp(1) by (simp_all add: q_def)
  have dj: "ctx_cells q \<inter> spill_cells f = {}" using assms(1) by (auto simp: f_def q_def)
  note sv = save_run [OF g dj refl]
  show ?thesis
  proof (rule that [of "run_straight irq_save h0"])
    show "ctx_at (mem (run_straight irq_save h0)) (mem s (sym_save y)) = interrupted_context s"
      unfolding q_def [symmetric] sv(2) by (simp add: sp interrupted_context_def f fun_eq_iff)
    show "mem (run_straight irq_save h0) a = mem s a"
      if "a \<notin> ctx_cells (mem s (sym_save y)) \<union> spill_cells (sp s - 64)" for a
      using that sv(1) [of a] sp(2)
      by (simp add: q_def [symmetric] f_def [symmetric] spill_cells_def)
    show "irq_el1h irq_handler y (take_irq vec s) =
       rbind (irq_handler (run_straight irq_save h0)) (\<lambda>h. let h1 = run_straight (irq_find_load y) h
         in if gpr h1 29 = 0 then Inl Hang else Inr (do_eret (run_straight irq_restore h1)))"
      using irq_el1h_phases [OF h0_def, of irq_handler] g(1) assms(2) by (simp add: q_def)
  qed
qed

lemma irq_exit_run:
  assumes "mem h (sym_load y) = d" "d \<noteq> 0"
  shows "\<exists>s'. (let h1 = run_straight (irq_find_load y) h
      in if gpr h1 29 = 0 then Inl Hang else Inr (do_eret (run_straight irq_restore h1))) = Inr s' \<and>
    mem s' = mem h \<and> irq_resumed (ctx_at (mem h) d) s'"
proof -
  let ?h = "run_straight (irq_find_load y) h"
  have "gpr ?h 29 = d" "mem ?h = mem h" using assms(1) by (simp_all add: find_load_run)
  with restore_run [OF this(1) refl] assms(2) show ?thesis by (simp add: Let_def do_eret_def)
qed

section \<open>Properties\<close>

text \<open>
  C1. Preemption by interrupt.  When an interrupt is taken while \<open>IRQ_SAVE_CTX\<close> points to a context
  record (apart from the 64 bytes below the stack pointer), \<open>irq_handler\<close> runs with the complete
  state of the interrupted thread stored in that record and no other memory changed beyond those
  64 bytes; when it returns, the processor continues with exactly the state stored in the record
  that \<open>IRQ_LOAD_CTX\<close> then points to, registers, stack pointer, program counter and PSTATE, and
  memory as the handler left it.  If that pointer is null the processor hangs.
\<close>

theorem irq_entry_switches_contexts:
  assumes "spill_cells (sp s - 64) \<inter> (insert (sym_save y) (ctx_cells (mem s (sym_save y)))) = {}"
    and "mem s (sym_save y) \<noteq> 0"
  shows "\<exists>h. ctx_at (mem h) (mem s (sym_save y)) = interrupted_context s \<and>
    (\<forall>a. a \<notin> ctx_cells (mem s (sym_save y)) \<union> spill_cells (sp s - 64) \<longrightarrow> mem h a = mem s a) \<and>
    (\<forall>e. irq_handler h = Inl e \<longrightarrow> irq_el1h irq_handler y (take_irq vec s) = Inl e) \<and>
    (\<forall>h'. irq_handler h = Inr h' \<longrightarrow>
       (if mem h' (sym_load y) = 0 then irq_el1h irq_handler y (take_irq vec s) = Inl Hang
        else \<exists>s'. irq_el1h irq_handler y (take_irq vec s) = Inr s' \<and> mem s' = mem h' \<and>
               irq_resumed (ctx_at (mem h') (mem h' (sym_load y))) s'))"
proof -
  obtain h where h: "ctx_at (mem h) (mem s (sym_save y)) = interrupted_context s"
    "\<And>a. a \<notin> ctx_cells (mem s (sym_save y)) \<union> spill_cells (sp s - 64) \<Longrightarrow> mem h a = mem s a"
    "irq_el1h irq_handler y (take_irq vec s) =
       rbind (irq_handler h) (\<lambda>h. let h1 = run_straight (irq_find_load y) h
         in if gpr h1 29 = 0 then Inl Hang else Inr (do_eret (run_straight irq_restore h1)))"
    by (rule irq_entry_run [OF assms, where irq_handler = irq_handler and vec = vec]) blast
  have "if mem h' (sym_load y) = 0 then irq_el1h irq_handler y (take_irq vec s) = Inl Hang
        else \<exists>s'. irq_el1h irq_handler y (take_irq vec s) = Inr s' \<and> mem s' = mem h' \<and>
               irq_resumed (ctx_at (mem h') (mem h' (sym_load y))) s'" if "irq_handler h = Inr h'" for h'
    using that h(3) irq_exit_run [OF refl, of h' y] by (auto simp: find_load_run Let_def)
  with h show ?thesis by (intro exI [of _ h]) auto
qed

definition example_irq_cpu :: cpu where
  "example_irq_cpu = \<lparr>gpr = (\<lambda>i. of_nat i), sp = 0x8000, pc = 0x400, nzcv = 0x60000000, daif = 0,
     el_mode = 5, elr_el1 = 0, spsr_el1 = 0, esr_el1 = 0, far_el1 = 0,
     mem = (\<lambda>a. 0)(0x100 := 0x1000, 0x108 := 0x1000)\<rparr>"

definition example_symbols :: irq_symbols where
  "example_symbols = \<lparr>sym_save = 0x100, sym_load = 0x108, sym_stack = 0x9000\<rparr>"

lemma example_irq:
  "sym_save example_symbols = 0x100" "sym_load example_symbols = 0x108"
  "mem example_irq_cpu 0x100 = 0x1000" "mem example_irq_cpu 0x108 = 0x1000"
  "sp example_irq_cpu - 64 = 0x7FC0"
  by (simp_all add: example_irq_cpu_def example_symbols_def)

lemma example_irq_apart:
  "spill_cells (sp example_irq_cpu - 64) \<inter>
     insert (sym_save example_symbols) (ctx_cells (mem example_irq_cpu (sym_save example_symbols))) = {}"
  "mem example_irq_cpu (sym_save example_symbols) \<noteq> 0"
  unfolding example_irq by (simp_all add: spill_cells_def ctx_cells_explicit)

theorem irq_entry_switches_contexts_witness:
  "\<exists>s'. irq_el1h Inr example_symbols (take_irq 0x280 example_irq_cpu) = Inr s' \<and>
     ctx_at (mem s') 0x1000 = interrupted_context example_irq_cpu"
proof -
  from irq_entry_switches_contexts [OF example_irq_apart, where irq_handler = Inr and vec = "0x280"]
  obtain h :: cpu where h: "ctx_at (mem h) 0x1000 = interrupted_context example_irq_cpu"
    "\<forall>a. a \<notin> ctx_cells 0x1000 \<union> spill_cells 0x7FC0 \<longrightarrow> mem h a = mem example_irq_cpu a"
    "if mem h 0x108 = 0 then irq_el1h Inr example_symbols (take_irq 0x280 example_irq_cpu) = Inl Hang
     else \<exists>s'. irq_el1h Inr example_symbols (take_irq 0x280 example_irq_cpu) = Inr s' \<and> mem s' = mem h \<and>
       irq_resumed (ctx_at (mem h) (mem h 0x108)) s'"
    unfolding example_irq sum.inject simp_thms by blast
  have "(0x108 :: u64) \<notin> ctx_cells 0x1000 \<union> spill_cells 0x7FC0"
    by (simp add: ctx_cells_explicit spill_cells_def)
  then have "mem h 0x108 = 0x1000" using h(2) example_irq(4) by metis
  with h show ?thesis by auto
qed



end
