(* ===== verification/Kernel.thy ===== *)
theory Kernel
  imports Scheduler Irq_Entry
begin

text \<open>
  The kernel of \<open>kernel.rs\<close>: spawning, yielding, finishing, the first thread, and preemption from
  the timer interrupt, for an arbitrary scheduler (a record of operations) and global allocator.
  The machine part of the state is what the kernel's own code can observe of one CPU: the live
  registers as a context value, the two interrupt pointers of \<open>arch/aarch64.rs\<close>, and which
  thread's code is executing.  A function that calls \<open>context_switch\<close> stops being executed there:
  its result says whether control returned to the caller or went to another context.
\<close>

section \<open>State\<close>

text \<open>
  \<open>m_exec\<close> is the thread whose context was loaded last, 0 for the boot code; \<open>m_save\<close> and \<open>m_load\<close> are
  \<open>IRQ_SAVE_CTX\<close> and \<open>IRQ_LOAD_CTX\<close>; \<open>m_live\<close> holds the registers, program counter and PSTATE;
  \<open>m_addr\<close> is where each thread's context record lies in memory.
\<close>

record machine =
  m_exec :: ptr
  m_save :: ptr
  m_load :: ptr
  m_live :: aarch64_context
  m_addr :: "ptr \<Rightarrow> u64"

record 's kernel =
  k_scheduler :: 's
  k_stack_pool :: stack_pool
  k_initialized :: bool
  k_next_thread_id :: usize
  k_current_thread :: "ptr option spin_mutex"

record ('s, 'h) system = "'s kernel" +
  s_threads :: threads
  s_heap :: 'h
  s_machine :: machine

datatype flow = Returned | Switched

section \<open>The processor as the kernel uses it\<close>

definition IRQ_BIT :: u64 where "IRQ_BIT = 0x80"

definition set_pstate :: "u64 \<Rightarrow> ('s, 'h) system \<Rightarrow> ('s, 'h) system" where
  "set_pstate v w = w\<lparr>s_machine := (s_machine w)\<lparr>m_live := (m_live (s_machine w))\<lparr>c_pstate := v\<rparr>\<rparr>\<rparr>"

definition enable_interrupts :: "('s, 'h) system \<Rightarrow> ('s, 'h) system" where
  "enable_interrupts w = set_pstate (c_pstate (m_live (s_machine w)) AND NOT IRQ_BIT) w"

definition disable_interrupts :: "('s, 'h) system \<Rightarrow> ('s, 'h) system" where
  "disable_interrupts w = set_pstate (c_pstate (m_live (s_machine w)) OR IRQ_BIT) w"

definition interrupts_enabled :: "('s, 'h) system \<Rightarrow> bool" where
  "interrupts_enabled w \<longleftrightarrow> c_pstate (m_live (s_machine w)) AND IRQ_BIT = 0"

text \<open>What \<open>context_switch\<close> stores for the thread it leaves and loads for the one it enters.\<close>

definition switch_save :: "u64 \<Rightarrow> u64 \<Rightarrow> u64 \<Rightarrow> aarch64_context \<Rightarrow> aarch64_context" where
  "switch_save p n resume c =
     \<lparr>c_x = (c_x c)(11 := c_pstate c AND NZCV_MASK, 12 := p, 13 := n), c_sp = c_sp c,
      c_pc = resume, c_pstate = c_pstate c AND NZCV_MASK\<rparr>"

definition switch_load :: "aarch64_context \<Rightarrow> aarch64_context \<Rightarrow> aarch64_context" where
  "switch_load n c =
     \<lparr>c_x = (c_x n)(11 := c_pc n), c_sp = c_sp n, c_pc = c_pc n,
      c_pstate = (c_pstate n AND NZCV_MASK) OR (c_pstate c AND NOT NZCV_MASK)\<rparr>"

definition thread_context :: "ptr \<Rightarrow> threads \<Rightarrow> aarch64_context res" where
  "thread_context p st = rbind (arc_get p st) (\<lambda>t. Inr (m_value (t_context t)))"

definition store_context :: "ptr \<Rightarrow> aarch64_context \<Rightarrow> threads \<Rightarrow> threads res" where
  "store_context p c st =
     arc_modify p (\<lambda>t. t\<lparr>t_context := (t_context t)\<lparr>m_value := c\<rparr>\<rparr>) st"

text \<open>\<open>A::context_switch(prev, next)\<close> called where execution resumes at \<open>resume\<close>.\<close>

definition arch_context_switch ::
  "u64 \<Rightarrow> ptr \<Rightarrow> ptr \<Rightarrow> ('s, 'h) system \<Rightarrow> ('s, 'h) system res" where
  "arch_context_switch resume prev nxt w =
     (let m = s_machine w
      in rbind (store_context prev
           (switch_save (m_addr m prev) (m_addr m nxt) resume (m_live m)) (s_threads w)) (\<lambda>st1.
         rbind (thread_context nxt st1) (\<lambda>n.
           Inr (w\<lparr>s_threads := st1,
                  s_machine := m\<lparr>m_exec := nxt, m_live := switch_load n (m_live m)\<rparr>\<rparr>))))"

definition set_current_irq_context :: "ptr \<Rightarrow> ('s, 'h) system \<Rightarrow> ('s, 'h) system" where
  "set_current_irq_context ctx w = w\<lparr>s_machine := (s_machine w)\<lparr>m_save := ctx, m_load := ctx\<rparr>\<rparr>"

definition set_irq_load_context :: "ptr \<Rightarrow> ('s, 'h) system \<Rightarrow> ('s, 'h) system" where
  "set_irq_load_context ctx w = w\<lparr>s_machine := (s_machine w)\<lparr>m_load := ctx\<rparr>\<rparr>"

section \<open>Kernel operations\<close>

definition kernel_new :: "'s \<Rightarrow> threads \<Rightarrow> 'h \<Rightarrow> machine \<Rightarrow> ('s, 'h) system" where
  "kernel_new scheduler st h m =
     \<lparr>k_scheduler = scheduler, k_stack_pool = new_stack_pool, k_initialized = False,
      k_next_thread_id = 1, k_current_thread = mutex_new None,
      s_threads = st, s_heap = h, s_machine = m\<rparr>"

text \<open>\<open>init\<close>: \<open>True\<close> is \<open>Ok(())\<close>; a second call fails.\<close>

definition kernel_init :: "('s, 'h) system \<Rightarrow> bool \<times> ('s, 'h) system" where
  "kernel_init w = (if k_initialized w then (False, w) else (True, w\<lparr>k_initialized := True\<rparr>))"

definition next_thread_id :: "('s, 'h) system \<Rightarrow> usize \<times> ('s, 'h) system" where
  "next_thread_id w = (k_next_thread_id w, w\<lparr>k_next_thread_id := k_next_thread_id w + 1\<rparr>)"

text \<open>
  The common part of \<open>spawn\<close> and \<open>spawn_fn\<close>.  \<open>entry\<close> is what \<open>Thread::new\<close> receives, \<open>start\<close> and \<open>arg\<close>
  what the second \<open>setup_initial_context\<close> receives.
\<close>

definition spawn_thread ::
  "'s scheduler_ops \<Rightarrow> ('h \<Rightarrow> usize \<Rightarrow> usize \<Rightarrow> u64 \<times> 'h) \<Rightarrow> stack_size_class \<Rightarrow> usize \<Rightarrow> usize \<Rightarrow>
   usize \<Rightarrow> u8 \<Rightarrow> ('s, 'h) system \<Rightarrow> ((spawn_error + ptr) \<times> ('s, 'h) system) res" where
  "spawn_thread ops alloc cls entry start arg priority w =
     (if \<not> k_initialized w then Inr (Inl Spawn_NotInitialized, w)
      else
        (case pool_allocate alloc (s_heap w) (k_stack_pool w) cls of
           (None, pool, h) \<Rightarrow> Inr (Inl Spawn_OutOfMemory, w\<lparr>k_stack_pool := pool, s_heap := h\<rparr>)
         | (Some stk, pool, h) \<Rightarrow>
             (case next_thread_id (w\<lparr>k_stack_pool := pool, s_heap := h\<rparr>) of
                (thread_id, w1) \<Rightarrow>
                  let bottom = stack_bottom stk
                  in rbind (thread_new thread_id stk entry priority (s_threads w1)) (\<lambda>(thread, handle, st1).
                     rbind (setup_initial_context start bottom arg thread st1) (\<lambda>st2.
                     rbind (so_enqueue ops thread (k_scheduler w1) st2) (\<lambda>sched.
                       Inr (Inr handle, w1\<lparr>k_scheduler := sched, s_threads := st2\<rparr>)))))))"

text \<open>
  \<open>spawn\<close>: the thread enters \<open>thread_trampoline\<close> with the boxed closure as its argument; \<open>empty_fn\<close> is
  the entry function handed to \<open>Thread::new\<close> meanwhile.
\<close>

definition spawn ::
  "'s scheduler_ops \<Rightarrow> ('h \<Rightarrow> usize \<Rightarrow> usize \<Rightarrow> u64 \<times> 'h) \<Rightarrow> usize \<Rightarrow> usize \<Rightarrow> usize \<Rightarrow> u8 \<Rightarrow>
   ('s, 'h) system \<Rightarrow> ((spawn_error + ptr) \<times> ('s, 'h) system) res" where
  "spawn ops alloc trampoline empty_fn closure_ptr priority w =
     spawn_thread ops alloc Medium empty_fn trampoline closure_ptr priority w"

definition spawn_fn ::
  "'s scheduler_ops \<Rightarrow> ('h \<Rightarrow> usize \<Rightarrow> usize \<Rightarrow> u64 \<times> 'h) \<Rightarrow> usize \<Rightarrow> u8 \<Rightarrow>
   ('s, 'h) system \<Rightarrow> ((spawn_error + ptr) \<times> ('s, 'h) system) res" where
  "spawn_fn ops alloc entry_point priority w =
     spawn_thread ops alloc Small entry_point entry_point 0 priority w"

text \<open>
  \<open>yield_now\<close>.  The code behind the switch, \<open>enable_interrupts\<close>, runs when the thread is resumed at
  \<open>resume\<close>.
\<close>

definition yield_now ::
  "'s scheduler_ops \<Rightarrow> instant \<Rightarrow> u64 \<Rightarrow> ('s, 'h) system \<Rightarrow> (flow \<times> ('s, 'h) system) res" where
  "yield_now ops now resume w =
     (if \<not> k_initialized w then Inr (Returned, w)
      else
        (let w1 = disable_interrupts w
         in rbind (mutex_lock (k_current_thread w1)) (\<lambda>(cur, guard).
           case cur of
             None \<Rightarrow> Inr (Returned, enable_interrupts (w1\<lparr>k_current_thread := mutex_unlock None guard\<rparr>))
           | Some current \<Rightarrow>
               rbind (thread_id_of current (s_threads w1)) (\<lambda>prev_id.
               rbind (context_ptr current (s_threads w1)) (\<lambda>prev_ctx.
               rbind (get_state current (s_threads w1)) (\<lambda>prev_state.
               rbind (stop_running current (s_threads w1)) (\<lambda>(ready, st1).
               rbind (so_enqueue ops ready (k_scheduler w1) st1) (\<lambda>sched1.
               rbind (so_pick_next ops 0 sched1 st1) (\<lambda>(next, sched2).
                 case next of
                   Some nx \<Rightarrow>
                     rbind (thread_id_of nx st1) (\<lambda>next_id.
                     rbind (context_ptr nx st1) (\<lambda>next_ctx.
                     rbind (thread_context next_ctx st1) (\<lambda>logged.
                     rbind (start_running now nx st1) (\<lambda>(running, st2).
                       let w2 = w1\<lparr>k_scheduler := sched2, s_threads := st2,
                                   k_current_thread := mutex_unlock (Some running) guard\<rparr>
                       in if prev_ctx \<noteq> 0 \<and> next_ctx \<noteq> 0
                          then rbind (arch_context_switch resume prev_ctx next_ctx w2) (\<lambda>w3.
                                 Inr (Switched, w3))
                          else Inr (Returned, enable_interrupts w2)))))
                 | None \<Rightarrow>
                     Inr (Returned, enable_interrupts
                       (w1\<lparr>k_scheduler := sched2, s_threads := st1,
                           k_current_thread := mutex_unlock None guard\<rparr>)))))))))))"

text \<open>
  \<open>finish_and_yield\<close>.  \<open>let _ = current\<close> does not drop anything; the reference is dropped at the end of
  the block, which is reached only when there is no switch.
\<close>

definition finish_and_yield ::
  "'s scheduler_ops \<Rightarrow> bool \<Rightarrow> instant \<Rightarrow> u64 \<Rightarrow> ('s, 'h) system \<Rightarrow> (flow \<times> ('s, 'h) system) res" where
  "finish_and_yield ops std_shim now resume w =
     (if \<not> k_initialized w then Inr (Returned, w)
      else
        (let w1 = disable_interrupts w
         in rbind (mutex_lock (k_current_thread w1)) (\<lambda>(cur, guard).
           case cur of
             None \<Rightarrow> Inr (Returned, enable_interrupts (w1\<lparr>k_current_thread := mutex_unlock None guard\<rparr>))
           | Some current \<Rightarrow>
               rbind (thread_id_of current (s_threads w1)) (\<lambda>prev_id.
               rbind (context_ptr current (s_threads w1)) (\<lambda>prev_ctx.
               rbind (set_state current Finished (s_threads w1)) (\<lambda>st1.
               rbind (so_pick_next ops 0 (k_scheduler w1) st1) (\<lambda>(next, sched2).
                 case next of
                   Some nx \<Rightarrow>
                     rbind (thread_id_of nx st1) (\<lambda>next_id.
                     rbind (context_ptr nx st1) (\<lambda>next_ctx.
                     rbind (start_running now nx st1) (\<lambda>(running, st2).
                       let w2 = w1\<lparr>k_scheduler := sched2, s_threads := st2,
                                   k_current_thread := mutex_unlock (Some running) guard\<rparr>
                       in if prev_ctx \<noteq> 0 \<and> next_ctx \<noteq> 0
                          then rbind (arch_context_switch resume prev_ctx next_ctx w2) (\<lambda>w3.
                                 Inr (Switched, w3))
                          else rbind (arc_drop std_shim current (s_threads w2)) (\<lambda>st3.
                                 Inr (Returned, (enable_interrupts w2)\<lparr>s_threads := st3\<rparr>)))))
                 | None \<Rightarrow>
                     rbind (arc_drop std_shim current st1) (\<lambda>st2.
                       Inr (Returned, enable_interrupts
                         (w1\<lparr>k_scheduler := sched2, s_threads := st2,
                             k_current_thread := mutex_unlock None guard\<rparr>))))))))))"

text \<open>
  \<open>start_first_thread\<close>.  The boot code's registers go into a context on the boot stack that nobody
  loads again.
\<close>

definition start_first_thread ::
  "'s scheduler_ops \<Rightarrow> instant \<Rightarrow> ('s, 'h) system \<Rightarrow> (flow \<times> ('s, 'h) system) res" where
  "start_first_thread ops now w =
     (if \<not> k_initialized w then Inr (Returned, w)
      else
        (let w1 = disable_interrupts w
         in rbind (mutex_lock (k_current_thread w1)) (\<lambda>(cur, guard).
           if cur \<noteq> None
           then Inr (Returned, enable_interrupts (w1\<lparr>k_current_thread := mutex_unlock cur guard\<rparr>))
           else
             rbind (so_pick_next ops 0 (k_scheduler w1) (s_threads w1)) (\<lambda>(next, sched1).
               case next of
                 Some nx \<Rightarrow>
                   rbind (context_ptr nx (s_threads w1)) (\<lambda>next_ctx.
                   rbind (start_running now nx (s_threads w1)) (\<lambda>(running, st1).
                     let w2 = set_current_irq_context next_ctx
                           (w1\<lparr>k_scheduler := sched1, s_threads := st1,
                               k_current_thread := mutex_unlock (Some running) guard\<rparr>)
                     in if next_ctx \<noteq> 0
                        then rbind (thread_context next_ctx st1) (\<lambda>n.
                               Inr (Switched, w2\<lparr>s_machine := (s_machine w2)
                                 \<lparr>m_exec := next_ctx, m_live := switch_load n (m_live (s_machine w2))\<rparr>\<rparr>))
                        else Inr (Returned, w2)))
               | None \<Rightarrow>
                   Inr (Returned, enable_interrupts
                     (w1\<lparr>k_scheduler := sched1, k_current_thread := mutex_unlock None guard\<rparr>))))))"

definition handle_irq_preemption ::
  "'s scheduler_ops \<Rightarrow> instant \<Rightarrow> ('s, 'h) system \<Rightarrow> ('s, 'h) system res" where
  "handle_irq_preemption ops now w =
     (if \<not> k_initialized w then Inr w
      else
        (case mutex_try_lock (k_current_thread w) of
           None \<Rightarrow> Inr w
         | Some (None, guard) \<Rightarrow> Inr (w\<lparr>k_current_thread := mutex_unlock None guard\<rparr>)
         | Some (Some current, guard) \<Rightarrow>
             rbind (thread_id_of current (s_threads w)) (\<lambda>old_id.
             rbind (stop_running current (s_threads w)) (\<lambda>(ready, st1).
             rbind (so_enqueue ops ready (k_scheduler w) st1) (\<lambda>sched1.
             rbind (so_pick_next ops 0 sched1 st1) (\<lambda>(next, sched2).
               case next of
                 Some nx \<Rightarrow>
                   rbind (context_ptr nx st1) (\<lambda>next_ctx.
                   rbind (start_running now nx st1) (\<lambda>(running, st2).
                     let w1 = w\<lparr>k_scheduler := sched2, s_threads := st2,
                                k_current_thread := mutex_unlock (Some running) guard\<rparr>
                     in if next_ctx \<noteq> 0
                        then Inr (set_current_irq_context next_ctx (set_irq_load_context next_ctx w1))
                        else Inr w1))
               | None \<Rightarrow>
                   Inr (w\<lparr>k_scheduler := sched2, s_threads := st1,
                          k_current_thread := mutex_unlock None guard\<rparr>)))))))"

text \<open>
  A timer interrupt as the kernel sees it, by the specification of \<open>irq_el1h\<close>: the live state goes to
  \<open>IRQ_SAVE_CTX\<close>, the handler runs with interrupts masked, and the state of \<open>IRQ_LOAD_CTX\<close> is loaded.
\<close>

definition timer_irq ::
  "(('s, 'h) system \<Rightarrow> ('s, 'h) system res) \<Rightarrow> ('s, 'h) system \<Rightarrow> ('s, 'h) system res" where
  "timer_irq handler w =
     (let m = s_machine w
      in rbind (if m_save m = 0 then Inr (s_threads w)
                else store_context (m_save m) (m_live m) (s_threads w)) (\<lambda>st1.
         rbind (handler (w\<lparr>s_threads := st1\<rparr>)) (\<lambda>w1.
           let m1 = s_machine w1
           in if m_load m1 = 0 then Inl Hang
              else rbind (thread_context (m_load m1) (s_threads w1)) (\<lambda>c.
                Inr (w1\<lparr>s_machine := m1\<lparr>m_exec := m_load m1, m_live := c\<rparr>\<rparr>)))))"

definition thread_stats :: "'s scheduler_ops \<Rightarrow> ('s, 'h) system \<Rightarrow> usize \<times> usize \<times> usize" where
  "thread_stats ops w = so_stats ops (k_scheduler w)"

section \<open>The global kernel\<close>

text \<open>
  \<open>GLOBAL_KERNEL\<close> is an untyped pointer; \<open>get_global_kernel\<close> casts it to whatever scheduler type the
  caller names.  Using a kernel at another type than it was registered with is undefined behaviour.
\<close>

datatype scheduler_type = RoundRobin | FirstComeFirstServe

definition get_global_kernel :: "scheduler_type option \<Rightarrow> scheduler_type \<Rightarrow> bool res" where
  "get_global_kernel registered wanted =
     (case registered of
        None \<Rightarrow> Inr False
      | Some t \<Rightarrow> if t = wanted then Inr True else Inl TypeConfusion)"

text \<open>\<open>yield_current\<close> and \<open>finish_current\<close>; the arguments are the method they call on the kernel.\<close>

definition yield_current ::
  "scheduler_type option \<Rightarrow> ('w \<Rightarrow> (flow \<times> 'w) res) \<Rightarrow> 'w \<Rightarrow> (flow \<times> 'w) res" where
  "yield_current registered yield w =
     rbind (get_global_kernel registered RoundRobin) (\<lambda>found.
       if found then yield w else Inr (Returned, w))"

definition finish_current ::
  "scheduler_type option \<Rightarrow> ('w \<Rightarrow> (flow \<times> 'w) res) \<Rightarrow> 'w \<Rightarrow> (flow \<times> 'w) res" where
  "finish_current registered finish w =
     rbind (get_global_kernel registered FirstComeFirstServe) (\<lambda>found.
       if found then finish w
       else rbind (get_global_kernel registered RoundRobin) (\<lambda>found.
         if found then finish w else Inr (Returned, w)))"

section \<open>The kernel invariant\<close>

text \<open>
  Every cell of the store is live (the bare-metal build never frees one) and no context lock is held
  between kernel calls.
\<close>

definition store_ok :: "threads \<Rightarrow> bool" where
  "store_ok st \<longleftrightarrow> 0 < ah_next st \<and> (\<forall>p. arc_live st p \<longleftrightarrow> 0 < p \<and> p < ah_next st) \<and>
     (\<forall>p. arc_live st p \<longrightarrow> \<not> m_locked (t_context (arc_val st p)))"

definition thread_in :: "threads \<Rightarrow> thread_state \<Rightarrow> ptr \<Rightarrow> bool" where
  "thread_in st s p \<longleftrightarrow> arc_live st p \<and> t_state (arc_val st p) = state_code s"

definition current :: "('s, 'h) system \<Rightarrow> ptr option" where
  "current w = m_value (k_current_thread w)"

text \<open>
  The current thread is Running and is the one the CPU executes; the queued threads are Ready, all
  different, and different from the current one.
\<close>

definition kernel_inv :: "('s \<Rightarrow> ptr list) \<Rightarrow> ('s \<Rightarrow> bool) \<Rightarrow> ('s, 'h) system \<Rightarrow> bool" where
  "kernel_inv ready ok w \<longleftrightarrow> ok (k_scheduler w) \<and> \<not> m_locked (k_current_thread w) \<and>
     store_ok (s_threads w) \<and> distinct (ready (k_scheduler w)) \<and>
     list_all (thread_in (s_threads w) Ready) (ready (k_scheduler w)) \<and>
     (\<forall>p. current w = Some p \<longrightarrow> thread_in (s_threads w) Running p \<and> m_exec (s_machine w) = p)"

text \<open>The threads the kernel will still run.\<close>

definition schedulable :: "('s \<Rightarrow> ptr list) \<Rightarrow> ('s, 'h) system \<Rightarrow> ptr multiset" where
  "schedulable ready w =
     mset (ready (k_scheduler w)) + (case current w of None \<Rightarrow> {#} | Some p \<Rightarrow> {#p#})"

text \<open>What kernel operations on existing threads leave alone.\<close>

definition same_threads :: "threads \<Rightarrow> threads \<Rightarrow> bool" where
  "same_threads st st' \<longleftrightarrow> ah_next st' = ah_next st \<and> ah_room st' = ah_room st \<and>
     (\<forall>q. arc_live st' q = arc_live st q) \<and>
     (\<forall>q. arc_live st q \<longrightarrow> t_id (arc_val st' q) = t_id (arc_val st q) \<and>
        t_stack (arc_val st' q) = t_stack (arc_val st q) \<and>
        t_priority (arc_val st' q) = t_priority (arc_val st q) \<and>
        t_join_result (arc_val st' q) = t_join_result (arc_val st q) \<and>
        m_locked (t_context (arc_val st' q)) = m_locked (t_context (arc_val st q)))"

lemma same_threads_refl [simp]: "same_threads st st"
  by (simp add: same_threads_def)

lemma same_threads_trans: "same_threads st st' \<Longrightarrow> same_threads st' st'' \<Longrightarrow> same_threads st st''"
  by (simp add: same_threads_def)

lemma same_threads_ok: "store_ok st \<Longrightarrow> same_threads st st' \<Longrightarrow> store_ok st'"
  by (simp add: store_ok_def same_threads_def)

lemma set_state_run:
  assumes "arc_live st p"
  obtains st' where "set_state p s st = Inr st'" "same_threads st st'"
    "\<And>q. t_state (arc_val st' q) = (if q = p then state_code s else t_state (arc_val st q))"
    "\<And>q. t_context (arc_val st' q) = t_context (arc_val st q)"
    "\<And>q. arc_cnt st' q = arc_cnt st q"
  using assms by (intro that [of "tmod p (\<lambda>t. t\<lparr>t_state := state_code s\<rparr>) st"])
    (simp_all add: set_state_def same_threads_def)

lemma start_running_run:
  assumes "arc_live st p"
  obtains st' where "start_running now p st = Inr (p, st')" "same_threads st st'"
    "\<And>q. t_state (arc_val st' q) = (if q = p then state_code Running else t_state (arc_val st q))"
    "\<And>q. t_context (arc_val st' q) = t_context (arc_val st q)"
    "\<And>q. arc_cnt st' q = arc_cnt st q"
  using assms by (intro that [of "tmod p (\<lambda>t. t\<lparr>t_time_slice := start_slice now (t_time_slice t)\<rparr>)
      (tmod p (\<lambda>t. t\<lparr>t_state := state_code Running\<rparr>) st)"])
    (simp_all add: start_running_def set_state_def start_time_slice_def same_threads_def)

lemma store_context_run:
  assumes "arc_live st p"
  obtains st' where "store_context p c st = Inr st'" "same_threads st st'"
    "\<And>q. t_state (arc_val st' q) = t_state (arc_val st q)"
    "\<And>q. m_value (t_context (arc_val st' q)) = (if q = p then c else m_value (t_context (arc_val st q)))"
    "\<And>q. arc_cnt st' q = arc_cnt st q"
  using assms by (intro that [of "tmod p (\<lambda>t. t\<lparr>t_context := (t_context t)\<lparr>m_value := c\<rparr>\<rparr>) st"])
    (simp_all add: store_context_def same_threads_def)

lemma same_threads_live: "same_threads st st' \<Longrightarrow> arc_live st' q = arc_live st q"
  by (simp add: same_threads_def)

lemma context_ptr_run: "store_ok st \<Longrightarrow> arc_live st p \<Longrightarrow> context_ptr p st = Inr p"
  by (simp add: store_ok_def context_ptr_def mutex_lock_def)

lemma thread_id_run: "arc_live st p \<Longrightarrow> thread_id_of p st = Inr (t_id (arc_val st p))"
  by (simp add: thread_id_of_def)

lemma thread_context_run: "arc_live st p \<Longrightarrow> thread_context p st = Inr (m_value (t_context (arc_val st p)))"
  by (simp add: thread_context_def)

lemma store_ok_live: "store_ok st \<Longrightarrow> arc_live st p \<Longrightarrow> p \<noteq> 0"
  by (auto simp: store_ok_def)

lemma pstate_ops_sel [simp]:
  "k_scheduler (set_pstate v w) = k_scheduler w" "k_stack_pool (set_pstate v w) = k_stack_pool w"
  "k_initialized (set_pstate v w) = k_initialized w"
  "k_next_thread_id (set_pstate v w) = k_next_thread_id w"
  "k_current_thread (set_pstate v w) = k_current_thread w" "s_threads (set_pstate v w) = s_threads w"
  "s_heap (set_pstate v w) = s_heap w" "m_exec (s_machine (set_pstate v w)) = m_exec (s_machine w)"
  "m_save (s_machine (set_pstate v w)) = m_save (s_machine w)"
  "m_load (s_machine (set_pstate v w)) = m_load (s_machine w)"
  "m_addr (s_machine (set_pstate v w)) = m_addr (s_machine w)"
  by (simp_all add: set_pstate_def)

lemma arch_context_switch_run:
  assumes "arc_live (s_threads w) p" "arc_live (s_threads w) n"
  obtains w' where "arch_context_switch resume p n w = Inr w'"
    "k_scheduler w' = k_scheduler w" "k_stack_pool w' = k_stack_pool w"
    "k_initialized w' = k_initialized w" "k_next_thread_id w' = k_next_thread_id w"
    "k_current_thread w' = k_current_thread w" "s_heap w' = s_heap w"
    "same_threads (s_threads w) (s_threads w')"
    "\<And>q. t_state (arc_val (s_threads w') q) = t_state (arc_val (s_threads w) q)"
    "\<And>q. m_value (t_context (arc_val (s_threads w') q)) =
      (if q = p then switch_save (m_addr (s_machine w) p) (m_addr (s_machine w) n) resume (m_live (s_machine w))
       else m_value (t_context (arc_val (s_threads w) q)))"
    "s_machine w' = (s_machine w)\<lparr>m_exec := n,
      m_live := switch_load (m_value (t_context (arc_val (s_threads w') n))) (m_live (s_machine w))\<rparr>"
proof -
  obtain st' where st': "store_context p (switch_save (m_addr (s_machine w) p) (m_addr (s_machine w) n)
      resume (m_live (s_machine w))) (s_threads w) = Inr st'" "same_threads (s_threads w) st'"
    "\<And>q. t_state (arc_val st' q) = t_state (arc_val (s_threads w) q)"
    "\<And>q. m_value (t_context (arc_val st' q)) = (if q = p then switch_save (m_addr (s_machine w) p)
      (m_addr (s_machine w) n) resume (m_live (s_machine w)) else m_value (t_context (arc_val (s_threads w) q)))"
    by (rule store_context_run [OF assms(1)]) blast
  have "arc_live st' n" using st'(2) assms(2) by (simp add: same_threads_def)
  then have run: "arch_context_switch resume p n w = Inr (w\<lparr>s_threads := st',
      s_machine := (s_machine w)\<lparr>m_exec := n,
        m_live := switch_load (m_value (t_context (arc_val st' n))) (m_live (s_machine w))\<rparr>\<rparr>)"
    using st'(1) by (simp add: arch_context_switch_def Let_def thread_context_run)
  show ?thesis by (rule that [OF run]) (use st' in simp_all)
qed

lemma kernel_invD:
  assumes "kernel_inv ready ok w"
  shows "ok (k_scheduler w)" "\<not> m_locked (k_current_thread w)" "store_ok (s_threads w)"
    "distinct (ready (k_scheduler w))" "list_all (thread_in (s_threads w) Ready) (ready (k_scheduler w))"
    "\<And>p. current w = Some p \<Longrightarrow> thread_in (s_threads w) Running p"
    "\<And>p. current w = Some p \<Longrightarrow> m_exec (s_machine w) = p"
    "\<And>p. p \<in> set (ready (k_scheduler w)) \<Longrightarrow> arc_live (s_threads w) p"
    "\<And>p. current w = Some p \<Longrightarrow> arc_live (s_threads w) p"
    "\<And>p. current w = Some p \<Longrightarrow> p \<notin> set (ready (k_scheduler w))"
  using assms by (auto simp: kernel_inv_def thread_in_def list_all_iff)

lemma kernel_invI:
  assumes "ok (k_scheduler w)" "\<not> m_locked (k_current_thread w)" "store_ok (s_threads w)"
    "distinct (ready (k_scheduler w))"
    "\<And>p. p \<in> set (ready (k_scheduler w)) \<Longrightarrow> thread_in (s_threads w) Ready p"
    "\<And>p. current w = Some p \<Longrightarrow> thread_in (s_threads w) Running p \<and> m_exec (s_machine w) = p"
  shows "kernel_inv ready ok w"
  using assms by (simp add: kernel_inv_def list_all_iff)

lemma lock_current:
  "\<not> m_locked (k_current_thread w) \<Longrightarrow>
    mutex_lock (k_current_thread w) = Inr (current w, (k_current_thread w)\<lparr>m_locked := True\<rparr>)"
  by (simp add: mutex_lock_def current_def)

context scheduler_contract
begin

text \<open>Putting the current thread back and choosing the next one.\<close>

lemma requeue_and_pick:
  assumes "kernel_inv ready ok w" "current w = Some c"
  obtains st1 s1 n s2 where "stop_running c (s_threads w) = Inr (c, st1)"
    "same_threads (s_threads w) st1"
    "\<And>q. t_state (arc_val st1 q) = (if q = c then state_code Ready else t_state (arc_val (s_threads w) q))"
    "\<And>q. t_context (arc_val st1 q) = t_context (arc_val (s_threads w) q)"
    "so_enqueue ops c (k_scheduler w) st1 = Inr s1" "so_pick_next ops 0 s1 st1 = Inr (Some n, s2)" "ok s2"
    "add_mset n (mset (ready s2)) = add_mset c (mset (ready (k_scheduler w)))"
    "arc_live st1 n" "arc_live st1 c" "n \<notin> set (ready s2)" "distinct (ready s2)"
    "\<And>q. q \<in> set (ready s2) \<Longrightarrow> thread_in st1 Ready q"
proof -
  note inv = kernel_invD [OF assms(1)]
  have live: "arc_live (s_threads w) c" using inv(9) assms(2) by simp
  obtain st1 where st1: "set_state c Ready (s_threads w) = Inr st1" "same_threads (s_threads w) st1"
    "\<And>q. t_state (arc_val st1 q) = (if q = c then state_code Ready else t_state (arc_val (s_threads w) q))"
    "\<And>q. t_context (arc_val st1 q) = t_context (arc_val (s_threads w) q)"
    by (rule set_state_run [OF live]) blast
  note lv = same_threads_live [OF st1(2)]
  have l1: "arc_live st1 c" "list_all (arc_live st1) (ready (k_scheduler w))"
    using live inv(8) lv by (auto simp: list_all_iff)
  obtain s1 n s2 where s: "so_enqueue ops c (k_scheduler w) st1 = Inr s1"
    "so_pick_next ops 0 s1 st1 = Inr (Some n, s2)" "ok s2"
    "add_mset n (mset (ready s2)) = add_mset c (mset (ready (k_scheduler w)))"
    by (rule pick_after_enqueue [OF inv(1) l1(1,2)])
  have set_eq: "insert n (set (ready s2)) = insert c (set (ready (k_scheduler w)))"
    using arg_cong [OF s(4), of set_mset] by simp
  have "mset (n # ready s2) = mset (c # ready (k_scheduler w))" using s(4) by simp
  moreover have "distinct (c # ready (k_scheduler w))" using inv(4,10) assms(2) by simp
  ultimately have d: "distinct (n # ready s2)" using mset_eq_imp_distinct_iff by blast
  have rdy: "thread_in st1 Ready q" if "q \<in> insert c (set (ready (k_scheduler w)))" for q
    using that inv(5) live lv st1(3) by (auto simp: thread_in_def list_all_iff)
  show ?thesis
  proof (rule that [OF _ st1(2-4) s])
    show "stop_running c (s_threads w) = Inr (c, st1)" using st1(1) by (simp add: stop_running_def)
    show "arc_live st1 n" using rdy set_eq by (auto simp: thread_in_def)
    show "thread_in st1 Ready q" if "q \<in> set (ready s2)" for q using rdy set_eq that by blast
  qed (use d l1 in auto)
qed

text \<open>Making \<open>n\<close> the current thread and switching to it from \<open>c\<close>.\<close>

lemma dispatch_next:
  fixes wd :: "('s, 'b) system"
  assumes st1: "store_ok st1" "arc_live st1 c" "arc_live st1 n"
    and s2: "ok s2" "n \<notin> set (ready s2)" "distinct (ready s2)"
    "\<And>q. q \<in> set (ready s2) \<Longrightarrow> thread_in st1 Ready q"
  obtains st2 w' where "start_running now n st1 = Inr (n, st2)"
    "arch_context_switch resume c n
       (wd\<lparr>k_scheduler := s2, s_threads := st2, k_current_thread := mutex_new (Some n)\<rparr>) = Inr w'"
    "kernel_inv ready ok w'" "current w' = Some n" "k_scheduler w' = s2" "k_initialized w' = k_initialized wd"
    "same_threads st1 (s_threads w')"
    "\<And>q. t_state (arc_val (s_threads w') q) = (if q = n then state_code Running else t_state (arc_val st1 q))"
    "\<And>q. m_value (t_context (arc_val (s_threads w') q)) = (if q = c
      then switch_save (m_addr (s_machine wd) c) (m_addr (s_machine wd) n) resume (m_live (s_machine wd))
      else m_value (t_context (arc_val st1 q)))"
    "s_machine w' = (s_machine wd)\<lparr>m_exec := n, m_live := switch_load
      (m_value (t_context (arc_val (s_threads w') n))) (m_live (s_machine wd))\<rparr>"
    "k_stack_pool w' = k_stack_pool wd" "s_heap w' = s_heap wd" "k_next_thread_id w' = k_next_thread_id wd"
proof -
  obtain st2 where st2: "start_running now n st1 = Inr (n, st2)" "same_threads st1 st2"
    "\<And>q. t_state (arc_val st2 q) = (if q = n then state_code Running else t_state (arc_val st1 q))"
    "\<And>q. t_context (arc_val st2 q) = t_context (arc_val st1 q)"
    by (rule start_running_run [OF st1(3)]) blast
  define w2 where "w2 = wd\<lparr>k_scheduler := s2, s_threads := st2, k_current_thread := mutex_new (Some n)\<rparr>"
  have live2: "arc_live (s_threads w2) c" "arc_live (s_threads w2) n"
    using st1(2,3) same_threads_live [OF st2(2)] by (simp_all add: w2_def)
  obtain w3 where w3: "arch_context_switch resume c n w2 = Inr w3"
    "k_scheduler w3 = k_scheduler w2" "k_stack_pool w3 = k_stack_pool w2"
    "k_initialized w3 = k_initialized w2" "k_next_thread_id w3 = k_next_thread_id w2"
    "k_current_thread w3 = k_current_thread w2" "s_heap w3 = s_heap w2"
    "same_threads (s_threads w2) (s_threads w3)"
    "\<And>q. t_state (arc_val (s_threads w3) q) = t_state (arc_val (s_threads w2) q)"
    "\<And>q. m_value (t_context (arc_val (s_threads w3) q)) =
      (if q = c then switch_save (m_addr (s_machine w2) c) (m_addr (s_machine w2) n) resume (m_live (s_machine w2))
       else m_value (t_context (arc_val (s_threads w2) q)))"
    "s_machine w3 = (s_machine w2)\<lparr>m_exec := n,
      m_live := switch_load (m_value (t_context (arc_val (s_threads w3) n))) (m_live (s_machine w2))\<rparr>"
    by (rule arch_context_switch_run [OF live2, where resume = resume]) blast
  have sm: "same_threads st1 (s_threads w3)"
    using same_threads_trans [OF st2(2)] w3(8) by (simp add: w2_def)
  have cur3: "current w3 = Some n" "k_scheduler w3 = s2"
    using w3(2,6) by (simp_all add: current_def w2_def)
  have "kernel_inv ready ok w3"
  proof (rule kernel_invI)
    show "store_ok (s_threads w3)" by (rule same_threads_ok [OF st1(1) sm])
    show "thread_in (s_threads w3) Ready p" if "p \<in> set (ready (k_scheduler w3))" for p
      using that s2(2,4) cur3 w3(8,9) st2(2,3) by (auto simp: thread_in_def w2_def same_threads_def)
    show "thread_in (s_threads w3) Running p \<and> m_exec (s_machine w3) = p" if "current w3 = Some p" for p
      using that cur3 w3(8,9,11) st2(3) live2 by (auto simp: thread_in_def w2_def same_threads_def)
  qed (use s2 cur3 w3(6) in \<open>simp_all add: w2_def\<close>)
  then show ?thesis
    using st2(1,3,4) w3 cur3 sm by (intro that [of st2 w3]) (auto simp: w2_def)
qed

text \<open>\<open>yield_now\<close> in a kernel with a current thread.\<close>

lemma yield_run:
  assumes inv: "kernel_inv ready ok w" and cur: "current w = Some c" and init: "k_initialized w"
  obtains w' n where "yield_now ops now resume w = Inr (Switched, w')" "kernel_inv ready ok w'"
    "current w' = Some n" "schedulable ready w' = schedulable ready w" "k_initialized w'"
    "\<exists>st1 s1. same_threads (s_threads w) st1 \<and> so_enqueue ops c (k_scheduler w) st1 = Inr s1 \<and>
      so_pick_next ops 0 s1 st1 = Inr (Some n, k_scheduler w')"
    "same_threads (s_threads w) (s_threads w')"
    "\<And>q. t_state (arc_val (s_threads w') q) = (if q = n then state_code Running
      else if q = c then state_code Ready else t_state (arc_val (s_threads w) q))"
    "\<And>q. m_value (t_context (arc_val (s_threads w') q)) = (if q = c
      then switch_save (m_addr (s_machine w) c) (m_addr (s_machine w) n) resume
        (m_live (s_machine (disable_interrupts w)))
      else m_value (t_context (arc_val (s_threads w) q)))"
    "s_machine w' = (s_machine w)\<lparr>m_exec := n, m_live := switch_load
      (m_value (t_context (arc_val (s_threads w') n))) (m_live (s_machine (disable_interrupts w)))\<rparr>"
    "k_stack_pool w' = k_stack_pool w" "s_heap w' = s_heap w" "k_next_thread_id w' = k_next_thread_id w"
proof -
  define w1 where "w1 = disable_interrupts w"
  have w1: "k_scheduler w1 = k_scheduler w" "k_current_thread w1 = k_current_thread w"
    "s_threads w1 = s_threads w" "k_initialized w1 = k_initialized w" "m_addr (s_machine w1) = m_addr (s_machine w)"
    "k_stack_pool w1 = k_stack_pool w" "s_heap w1 = s_heap w" "k_next_thread_id w1 = k_next_thread_id w"
    "(s_machine w1)\<lparr>m_exec := x, m_live := y\<rparr> = (s_machine w)\<lparr>m_exec := x, m_live := y\<rparr>" for x y
    by (simp_all add: w1_def disable_interrupts_def set_pstate_def)
  note i = kernel_invD [OF inv]
  obtain st1 s1 n s2 where r: "stop_running c (s_threads w) = Inr (c, st1)"
    "same_threads (s_threads w) st1"
    "\<And>q. t_state (arc_val st1 q) = (if q = c then state_code Ready else t_state (arc_val (s_threads w) q))"
    "\<And>q. t_context (arc_val st1 q) = t_context (arc_val (s_threads w) q)"
    "so_enqueue ops c (k_scheduler w) st1 = Inr s1" "so_pick_next ops 0 s1 st1 = Inr (Some n, s2)" "ok s2"
    "add_mset n (mset (ready s2)) = add_mset c (mset (ready (k_scheduler w)))"
    "arc_live st1 n" "arc_live st1 c" "n \<notin> set (ready s2)" "distinct (ready s2)"
    "\<And>q. q \<in> set (ready s2) \<Longrightarrow> thread_in st1 Ready q"
    by (rule requeue_and_pick [OF inv cur]) blast
  have ok1: "store_ok st1" by (rule same_threads_ok [OF i(3) r(2)])
  obtain st2 w' where d: "start_running now n st1 = Inr (n, st2)"
    "arch_context_switch resume c n
       (w1\<lparr>k_scheduler := s2, s_threads := st2, k_current_thread := mutex_new (Some n)\<rparr>) = Inr w'"
    "kernel_inv ready ok w'" "current w' = Some n" "k_scheduler w' = s2" "k_initialized w' = k_initialized w1"
    "same_threads st1 (s_threads w')"
    "\<And>q. t_state (arc_val (s_threads w') q) = (if q = n then state_code Running else t_state (arc_val st1 q))"
    "\<And>q. m_value (t_context (arc_val (s_threads w') q)) = (if q = c
      then switch_save (m_addr (s_machine w1) c) (m_addr (s_machine w1) n) resume (m_live (s_machine w1))
      else m_value (t_context (arc_val st1 q)))"
    "s_machine w' = (s_machine w1)\<lparr>m_exec := n, m_live := switch_load
      (m_value (t_context (arc_val (s_threads w') n))) (m_live (s_machine w1))\<rparr>"
    "k_stack_pool w' = k_stack_pool w1" "s_heap w' = s_heap w1" "k_next_thread_id w' = k_next_thread_id w1"
    by (rule dispatch_next [OF ok1 r(10,9,7,11,12,13), where wd = w1 and resume = resume and now = now],
        assumption) (rule that; assumption)
  have live: "arc_live (s_threads w) c" using i(9) cur by simp
  have run: "yield_now ops now resume w = Inr (Switched, w')"
    unfolding yield_now_def w1_def [symmetric] Let_def
    using init r d(1,2) i(2) cur live ok1
    by (simp add: w1 lock_current context_ptr_run [OF i(3)] context_ptr_run [OF ok1] thread_id_run
        thread_context_run get_state_def mutex_unlock_new store_ok_live [OF ok1])
  moreover have "schedulable ready w' = schedulable ready w"
    using r(8) cur d(4,5) by (simp add: schedulable_def)
  ultimately show ?thesis
    using d r(2-6) w1 init same_threads_trans [OF r(2) d(7)]
    by (intro that [of w' n]) (auto simp: w1_def [symmetric])
qed

text \<open>\<open>finish_and_yield\<close> when somebody is waiting.\<close>

lemma finish_run:
  assumes inv: "kernel_inv ready ok w" and cur: "current w = Some c" and init: "k_initialized w"
    and rdy: "ready (k_scheduler w) = n # rs"
  obtains w' where "finish_and_yield ops std_shim now resume w = Inr (Switched, w')" "kernel_inv ready ok w'"
    "current w' = Some n" "ready (k_scheduler w') = rs" "k_initialized w'"
    "same_threads (s_threads w) (s_threads w')"
    "\<And>q. t_state (arc_val (s_threads w') q) = (if q = n then state_code Running
      else if q = c then state_code Finished else t_state (arc_val (s_threads w) q))"
    "k_stack_pool w' = k_stack_pool w" "s_heap w' = s_heap w" "k_next_thread_id w' = k_next_thread_id w"
    "m_save (s_machine w') = m_save (s_machine w)" "m_load (s_machine w') = m_load (s_machine w)"
proof -
  define w1 where "w1 = disable_interrupts w"
  have w1: "k_scheduler w1 = k_scheduler w" "k_current_thread w1 = k_current_thread w"
    "s_threads w1 = s_threads w" "k_initialized w1 = k_initialized w"
    "k_stack_pool w1 = k_stack_pool w" "s_heap w1 = s_heap w" "k_next_thread_id w1 = k_next_thread_id w"
    "m_save (s_machine w1) = m_save (s_machine w)" "m_load (s_machine w1) = m_load (s_machine w)"
    by (simp_all add: w1_def disable_interrupts_def)
  note i = kernel_invD [OF inv]
  have live: "arc_live (s_threads w) c" using i(9) cur by simp
  obtain st1 where st1: "set_state c Finished (s_threads w) = Inr st1" "same_threads (s_threads w) st1"
    "\<And>q. t_state (arc_val st1 q) = (if q = c then state_code Finished else t_state (arc_val (s_threads w) q))"
    by (rule set_state_run [OF live]) blast
  note lv = same_threads_live [OF st1(2)]
  have ok1: "store_ok st1" by (rule same_threads_ok [OF i(3) st1(2)])
  have l1: "list_all (arc_live st1) (ready (k_scheduler w))" using i(8) lv by (auto simp: list_all_iff)
  obtain s2 where s2: "so_pick_next ops 0 (k_scheduler w) st1 = Inr (Some n, s2)" "ok s2" "ready s2 = rs"
    using pick_some [OF i(1) rdy l1] by blast
  have n: "arc_live st1 n" "n \<notin> set (ready s2)" "distinct (ready s2)" "arc_live st1 c"
    using l1 i(4) rdy s2(3) live lv by auto
  have q: "thread_in st1 Ready q" if "q \<in> set (ready s2)" for q
    using that i(5,10) cur rdy s2(3) lv st1(3) by (auto simp: thread_in_def list_all_iff)
  obtain st2 w' where d: "start_running now n st1 = Inr (n, st2)"
    "arch_context_switch resume c n
       (w1\<lparr>k_scheduler := s2, s_threads := st2, k_current_thread := mutex_new (Some n)\<rparr>) = Inr w'"
    "kernel_inv ready ok w'" "current w' = Some n" "k_scheduler w' = s2" "k_initialized w' = k_initialized w1"
    "same_threads st1 (s_threads w')"
    "\<And>q. t_state (arc_val (s_threads w') q) = (if q = n then state_code Running else t_state (arc_val st1 q))"
    "s_machine w' = (s_machine w1)\<lparr>m_exec := n, m_live := switch_load
      (m_value (t_context (arc_val (s_threads w') n))) (m_live (s_machine w1))\<rparr>"
    "k_stack_pool w' = k_stack_pool w1" "s_heap w' = s_heap w1" "k_next_thread_id w' = k_next_thread_id w1"
    by (rule dispatch_next [OF ok1 n(4,1) s2(2) n(2,3) q, where wd = w1 and resume = resume and now = now],
        assumption) (rule that; assumption)
  have "finish_and_yield ops std_shim now resume w = Inr (Switched, w')"
    unfolding finish_and_yield_def w1_def [symmetric] Let_def
    using init st1(1) s2(1) d(1,2) i(2) cur live n ok1
    by (simp add: w1 lock_current context_ptr_run [OF i(3)] context_ptr_run [OF ok1] thread_id_run
        mutex_unlock_new store_ok_live [OF ok1])
  then show ?thesis
    using d st1(3) s2(3) w1 init same_threads_trans [OF st1(2) d(7)] by (intro that [of w']) auto
qed

end

end
