(* ===== verification/Kernel_Steps.thy ===== *)
theory Kernel_Steps
  imports Kernel
begin

text \<open>
  The kernel as a state machine on the bare-metal build: every kernel call, the timer interrupt, code
  of the running thread and the release of join handles are steps.  The theory shows what each
  step does in a state that satisfies the kernel invariant, that the invariant is kept, and
  relates the saved contexts of preempted threads to what they get back.
\<close>

section \<open>Steps\<close>

datatype kernel_event =
    Init bool
  | Spawn "spawn_error + ptr"
  | Start
  | Yield
  | Finish
  | Timer
  | User
  | Release ptr

inductive kstep ::
  "'s scheduler_ops \<Rightarrow> ('h \<Rightarrow> usize \<Rightarrow> usize \<Rightarrow> u64 \<times> 'h) \<Rightarrow>
   ('s, 'h) system \<Rightarrow> kernel_event \<Rightarrow> ('s, 'h) system \<Rightarrow> bool"
  for ops alloc where
  init: "kernel_init w = (r, w') \<Longrightarrow> kstep ops alloc w (Init r) w'"
| spawn: "spawn ops alloc trampoline empty_fn closure_ptr priority w = Inr (r, w') \<Longrightarrow>
    kstep ops alloc w (Spawn r) w'"
| spawn_fn: "spawn_fn ops alloc entry_point priority w = Inr (r, w') \<Longrightarrow> kstep ops alloc w (Spawn r) w'"
| start: "start_first_thread ops now w = Inr (f, w') \<Longrightarrow> kstep ops alloc w Start w'"
| yield: "yield_now ops now resume w = Inr (f, w') \<Longrightarrow> kstep ops alloc w Yield w'"
| finish: "finish_and_yield ops False now resume w = Inr (f, w') \<Longrightarrow> kstep ops alloc w Finish w'"
| timer: "interrupts_enabled w \<Longrightarrow> timer_irq (handle_irq_preemption ops now) w = Inr w' \<Longrightarrow>
    kstep ops alloc w Timer w'"
| user: "kstep ops alloc w User (w\<lparr>s_machine := (s_machine w)\<lparr>m_live := c\<rparr>\<rparr>)"
| release: "arc_live (s_threads w) p \<Longrightarrow> arc_drop False p (s_threads w) = Inr st \<Longrightarrow>
    kstep ops alloc w (Release p) (w\<lparr>s_threads := st\<rparr>)"

inductive kernel_run ::
  "'s scheduler_ops \<Rightarrow> ('h \<Rightarrow> usize \<Rightarrow> usize \<Rightarrow> u64 \<times> 'h) \<Rightarrow>
   ('s, 'h) system \<Rightarrow> kernel_event list \<Rightarrow> ('s, 'h) system \<Rightarrow> bool"
  for ops alloc where
  run_nil: "kernel_run ops alloc w [] w"
| run_step: "kernel_run ops alloc w es w' \<Longrightarrow> kstep ops alloc w' e w'' \<Longrightarrow>
    kernel_run ops alloc w (es @ [e]) w''"

inductive_cases kstepE: "kstep ops alloc w e w'"

section \<open>Invariants\<close>

text \<open>
  The interrupt pointers agree and point to a thread once they are set, and only an initialised
  kernel has a current thread.
\<close>

definition control_ok :: "('s, 'h) system \<Rightarrow> bool" where
  "control_ok w \<longleftrightarrow> m_save (s_machine w) = m_load (s_machine w) \<and>
     (m_load (s_machine w) = 0 \<or> arc_live (s_threads w) (m_load (s_machine w))) \<and>
     (current w \<noteq> None \<longrightarrow> k_initialized w)"

lemma control_ok_current: "control_ok w \<Longrightarrow> current w = Some c \<Longrightarrow> k_initialized w"
  by (simp add: control_ok_def)

text \<open>The stacks of all threads, and the book-keeping of ids and stacks.\<close>

definition thread_stacks :: "threads \<Rightarrow> stack multiset" where
  "thread_stacks st = {#the (t_stack (arc_val st p)). p \<in># mset_set {1..<ah_next st}#}"

definition resources_ok :: "('h \<Rightarrow> nat set) \<Rightarrow> ('h \<Rightarrow> bool) \<Rightarrow> ('s, 'h) system \<Rightarrow> bool" where
  "resources_ok taken heap_ok w \<longleftrightarrow> heap_ok (s_heap w) \<and>
     pool_inv (taken (s_heap w)) (k_stack_pool w) (thread_stacks (s_threads w)) \<and>
     ah_next (s_threads w) + ah_room (s_threads w) < 2 ^ 64 \<and>
     k_next_thread_id w = of_nat (ah_next (s_threads w)) \<and>
     (\<forall>p. arc_live (s_threads w) p \<longrightarrow> t_id (arc_val (s_threads w) p) = of_nat p \<and>
        t_stack (arc_val (s_threads w) p) \<noteq> None)"

text \<open>What a step that spawns nothing keeps, with the states of the threads the kernel is not running.\<close>

definition kept :: "('s \<Rightarrow> ptr list) \<Rightarrow> ('s, 'h) system \<Rightarrow> ('s, 'h) system \<Rightarrow> bool" where
  "kept ready w w' \<longleftrightarrow> same_threads (s_threads w) (s_threads w') \<and> k_stack_pool w' = k_stack_pool w \<and>
     s_heap w' = s_heap w \<and> k_next_thread_id w' = k_next_thread_id w \<and>
     (\<forall>p. p \<notin># schedulable ready w \<longrightarrow> t_state (arc_val (s_threads w') p) = t_state (arc_val (s_threads w) p))"

lemma kept_refl [simp]: "kept ready w w"
  by (simp add: kept_def)

lemma kernel_inv_cong:
  assumes "kernel_inv ready ok w" "k_scheduler w' = k_scheduler w" "k_current_thread w' = k_current_thread w"
    "s_threads w' = s_threads w" "m_exec (s_machine w') = m_exec (s_machine w)"
  shows "kernel_inv ready ok w'"
  using assms by (simp add: kernel_inv_def current_def)

lemma thread_stacks_same:
  assumes "store_ok st" "same_threads st st'"
  shows "thread_stacks st' = thread_stacks st"
proof -
  have "t_stack (arc_val st' p) = t_stack (arc_val st p)" if "p \<in> {1..<ah_next st}" for p
  proof -
    have "arc_live st p" using that assms(1) by (simp add: store_ok_def)
    then show ?thesis using assms(2) by (simp add: same_threads_def)
  qed
  then have "{#the (t_stack (arc_val st' p)). p \<in># mset_set {1..<ah_next st}#} =
      {#the (t_stack (arc_val st p)). p \<in># mset_set {1..<ah_next st}#}"
    by (intro image_mset_cong) simp
  then show ?thesis using assms(2) by (simp add: thread_stacks_def same_threads_def)
qed

lemma resources_kept:
  assumes "store_ok (s_threads w)" "resources_ok taken heap_ok w" "kept ready w w'"
  shows "resources_ok taken heap_ok w'"
  using assms thread_stacks_same [OF assms(1), of "s_threads w'"]
  by (auto simp: resources_ok_def kept_def same_threads_def)

lemma image_mset_diff_mem:
  assumes "finite A" "p \<in> A" "q \<in> A" "p \<noteq> q"
  shows "f q \<in># image_mset f (mset_set A) - {#f p#}"
proof -
  have "image_mset f (mset_set A) - {#f p#} = image_mset f (mset_set (A - {p}))"
    using assms(1,2) by (simp add: mset_set.remove)
  with assms show ?thesis by simp
qed

text \<open>Two threads have different identifiers and disjoint stacks.\<close>

lemma resources_isolated:
  assumes st: "store_ok (s_threads w)" and res: "resources_ok taken heap_ok w"
    and pq: "arc_live (s_threads w) p" "arc_live (s_threads w) q" "p \<noteq> q"
  shows "t_id (arc_val (s_threads w) p) \<noteq> t_id (arc_val (s_threads w) q)"
    "t_id (arc_val (s_threads w) p) \<noteq> k_next_thread_id w"
    "\<exists>s s'. t_stack (arc_val (s_threads w) p) = Some s \<and> t_stack (arc_val (s_threads w) q) = Some s' \<and>
       stack_region s \<inter> stack_region s' = {} \<and> stack_wf (taken (s_heap w)) s"
proof -
  let ?A = "{1..<ah_next (s_threads w)}"
  note r = res [unfolded resources_ok_def]
  have A: "p \<in> ?A" "q \<in> ?A" using st pq by (auto simp: store_ok_def)
  then have "p < 2 ^ 64" "q < 2 ^ 64" "ah_next (s_threads w) < 2 ^ 64" "p \<noteq> ah_next (s_threads w)"
    using r by auto
  then have neq: "(of_nat p :: u64) \<noteq> of_nat q" "(of_nat p :: u64) \<noteq> of_nat (ah_next (s_threads w))"
    using pq(3) by (auto dest!: arg_cong [of _ _ unat] simp: unat_of_nat)
  then show "t_id (arc_val (s_threads w) p) \<noteq> t_id (arc_val (s_threads w) q)"
    "t_id (arc_val (s_threads w) p) \<noteq> k_next_thread_id w"
    using r pq by auto
  obtain s s' where s: "t_stack (arc_val (s_threads w) p) = Some s" "t_stack (arc_val (s_threads w) q) = Some s'"
    using r pq by blast
  let ?f = "\<lambda>x. the (t_stack (arc_val (s_threads w) x))"
  have "s' \<in># thread_stacks (s_threads w) - {#s#}" "s \<in># thread_stacks (s_threads w)"
    using image_mset_diff_mem [OF _ A pq(3), of ?f] A(1) s by (auto simp: thread_stacks_def image_iff) force
  moreover have "M - {#s#} \<subseteq># mset (pool_free (k_stack_pool w)) + M - {#s#}" for M
    by (rule mset_subset_eqI) simp
  ultimately have "s' \<in># pool_all (k_stack_pool w) (thread_stacks (s_threads w)) - {#s#}"
    "s \<in># pool_all (k_stack_pool w) (thread_stacks (s_threads w))"
    unfolding pool_all_def by (blast dest: mset_subset_eqD, simp)
  then have "stack_region s \<inter> stack_region s' = {}" "stack_wf (taken (s_heap w)) s"
    using r by (auto simp: pool_inv_def stacks_apart_def)
  with s show "\<exists>s s'. t_stack (arc_val (s_threads w) p) = Some s \<and> t_stack (arc_val (s_threads w) q) = Some s' \<and>
       stack_region s \<inter> stack_region s' = {} \<and> stack_wf (taken (s_heap w)) s" by blast
qed

lemma arc_drop_run:
  assumes "arc_live st p" "arc_drop False p st = Inr st'"
  shows "same_threads st st' \<and> (\<forall>q. arc_val st' q = arc_val st q)"
proof -
  have "arc_cnt st p \<noteq> 1"
  proof
    assume "arc_cnt st p = 1"
    then have "\<exists>e. arc_drop False p st = Inl e"
      using assms(1) by (auto simp: arc_live_def arc_cnt_def arc_drop_def arc_dec_def
          arc_deallocate_def arc_set_count_def)
    with assms(2) show False by simp
  qed
  with assms show ?thesis by (auto simp: arc_drop_cmod same_threads_def)
qed

section \<open>Runs of the kernel operations\<close>

lemma try_lock_current:
  "\<not> m_locked (k_current_thread w) \<Longrightarrow>
    mutex_try_lock (k_current_thread w) = Some (current w, (k_current_thread w)\<lparr>m_locked := True\<rparr>)"
  by (simp add: mutex_try_lock_def current_def)

lemma unlock_current:
  "\<not> m_locked (k_current_thread w) \<Longrightarrow>
    mutex_unlock (current w) ((k_current_thread w)\<lparr>m_locked := True\<rparr>) = k_current_thread w"
  by (simp add: mutex_unlock_new current_def mutex_new_value)

lemma idle_current:
  assumes "\<not> m_locked (k_current_thread w)" "current w = None"
  shows "mutex_unlock None ((k_current_thread w)\<lparr>m_locked := True\<rparr>) = k_current_thread w"
    "mutex_new None = k_current_thread w"
  using unlock_current [OF assms(1)] assms(2) by (simp_all add: mutex_unlock_new)

lemma interrupts_sel [simp]:
  "k_scheduler (enable_interrupts w) = k_scheduler w" "k_scheduler (disable_interrupts w) = k_scheduler w"
  "k_current_thread (enable_interrupts w) = k_current_thread w"
  "k_current_thread (disable_interrupts w) = k_current_thread w"
  "s_threads (enable_interrupts w) = s_threads w" "s_threads (disable_interrupts w) = s_threads w"
  "k_initialized (enable_interrupts w) = k_initialized w"
  "k_initialized (disable_interrupts w) = k_initialized w"
  "k_stack_pool (enable_interrupts w) = k_stack_pool w" "k_stack_pool (disable_interrupts w) = k_stack_pool w"
  "s_heap (enable_interrupts w) = s_heap w" "s_heap (disable_interrupts w) = s_heap w"
  "k_next_thread_id (enable_interrupts w) = k_next_thread_id w"
  "k_next_thread_id (disable_interrupts w) = k_next_thread_id w"
  "m_exec (s_machine (enable_interrupts w)) = m_exec (s_machine w)"
  "m_exec (s_machine (disable_interrupts w)) = m_exec (s_machine w)"
  "m_save (s_machine (enable_interrupts w)) = m_save (s_machine w)"
  "m_save (s_machine (disable_interrupts w)) = m_save (s_machine w)"
  "m_load (s_machine (enable_interrupts w)) = m_load (s_machine w)"
  "m_load (s_machine (disable_interrupts w)) = m_load (s_machine w)"
  "m_addr (s_machine (enable_interrupts w)) = m_addr (s_machine w)"
  "m_addr (s_machine (disable_interrupts w)) = m_addr (s_machine w)"
  by (simp_all add: enable_interrupts_def disable_interrupts_def)

text \<open>The thread store during a timer interrupt before the handler runs.\<close>

lemma irq_store:
  assumes "control_ok w"
  obtains st1 where "(if m_save (s_machine w) = 0 then Inr (s_threads w)
      else store_context (m_save (s_machine w)) (m_live (s_machine w)) (s_threads w)) = Inr st1"
    "same_threads (s_threads w) st1" "\<And>q. t_state (arc_val st1 q) = t_state (arc_val (s_threads w) q)"
    "\<And>q. m_value (t_context (arc_val st1 q)) = (if q = m_save (s_machine w) \<and> q \<noteq> 0
      then m_live (s_machine w) else m_value (t_context (arc_val (s_threads w) q)))"
proof (cases "m_save (s_machine w) = 0")
  case True
  then show ?thesis by (intro that [of "s_threads w"]) auto
next
  case False
  with assms have "arc_live (s_threads w) (m_save (s_machine w))" by (auto simp: control_ok_def)
  then obtain st1 where "store_context (m_save (s_machine w)) (m_live (s_machine w)) (s_threads w) = Inr st1"
    "same_threads (s_threads w) st1" "\<And>q. t_state (arc_val st1 q) = t_state (arc_val (s_threads w) q)"
    "\<And>q. m_value (t_context (arc_val st1 q)) = (if q = m_save (s_machine w)
      then m_live (s_machine w) else m_value (t_context (arc_val (s_threads w) q)))"
    by (rule store_context_run [where c = "m_live (s_machine w)"]) blast
  with False show ?thesis by (intro that [of st1]) auto
qed

lemma kernel_inv_store:
  assumes "kernel_inv ready ok w" "same_threads (s_threads w) st"
    "\<And>q. t_state (arc_val st q) = t_state (arc_val (s_threads w) q)"
  shows "kernel_inv ready ok (w\<lparr>s_threads := st\<rparr>)"
proof -
  note i = kernel_invD [OF assms(1)]
  have "store_ok st" by (rule same_threads_ok [OF i(3) assms(2)])
  then show ?thesis using i assms(3) same_threads_live [OF assms(2)]
    by (intro kernel_invI) (auto simp: current_def thread_in_def list_all_iff)
qed

context scheduler_contract
begin

text \<open>The timer interrupt while a thread runs.\<close>

lemma timer_run:
  assumes inv: "kernel_inv ready ok w" and cur: "current w = Some c" and init: "k_initialized w"
    and irq: "control_ok w"
  obtains w' n where "timer_irq (handle_irq_preemption ops now) w = Inr w'" "kernel_inv ready ok w'"
    "current w' = Some n" "schedulable ready w' = schedulable ready w" "k_initialized w'"
    "\<exists>st1 s1. same_threads (s_threads w) st1 \<and> so_enqueue ops c (k_scheduler w) st1 = Inr s1 \<and>
      so_pick_next ops 0 s1 st1 = Inr (Some n, k_scheduler w')"
    "same_threads (s_threads w) (s_threads w')"
    "\<And>q. t_state (arc_val (s_threads w') q) = (if q = n then state_code Running
      else if q = c then state_code Ready else t_state (arc_val (s_threads w) q))"
    "\<And>q. m_value (t_context (arc_val (s_threads w') q)) = (if q = m_save (s_machine w) \<and> q \<noteq> 0
      then m_live (s_machine w) else m_value (t_context (arc_val (s_threads w) q)))"
    "s_machine w' = (s_machine w)\<lparr>m_exec := n, m_save := n, m_load := n,
      m_live := m_value (t_context (arc_val (s_threads w') n))\<rparr>"
    "k_stack_pool w' = k_stack_pool w" "s_heap w' = s_heap w" "k_next_thread_id w' = k_next_thread_id w"
proof -
  obtain st0 where st0: "(if m_save (s_machine w) = 0 then Inr (s_threads w)
      else store_context (m_save (s_machine w)) (m_live (s_machine w)) (s_threads w)) = Inr st0"
    "same_threads (s_threads w) st0" "\<And>q. t_state (arc_val st0 q) = t_state (arc_val (s_threads w) q)"
    "\<And>q. m_value (t_context (arc_val st0 q)) = (if q = m_save (s_machine w) \<and> q \<noteq> 0
      then m_live (s_machine w) else m_value (t_context (arc_val (s_threads w) q)))"
    by (rule irq_store [OF irq]) (rule that; assumption)
  define w0 where "w0 = w\<lparr>s_threads := st0\<rparr>"
  have inv0: "kernel_inv ready ok w0" unfolding w0_def by (rule kernel_inv_store [OF inv st0(2,3)])
  have cur0: "current w0 = Some c" using cur by (simp add: w0_def current_def)
  note i = kernel_invD [OF inv0]
  obtain st1 s1 n s2 where r: "stop_running c (s_threads w0) = Inr (c, st1)"
    "same_threads (s_threads w0) st1"
    "\<And>q. t_state (arc_val st1 q) = (if q = c then state_code Ready else t_state (arc_val (s_threads w0) q))"
    "\<And>q. t_context (arc_val st1 q) = t_context (arc_val (s_threads w0) q)"
    "so_enqueue ops c (k_scheduler w0) st1 = Inr s1" "so_pick_next ops 0 s1 st1 = Inr (Some n, s2)" "ok s2"
    "add_mset n (mset (ready s2)) = add_mset c (mset (ready (k_scheduler w0)))"
    "arc_live st1 n" "arc_live st1 c" "n \<notin> set (ready s2)" "distinct (ready s2)"
    "\<And>q. q \<in> set (ready s2) \<Longrightarrow> thread_in st1 Ready q"
    by (rule requeue_and_pick [OF inv0 cur0]) blast
  have ok1: "store_ok st1" by (rule same_threads_ok [OF i(3) r(2)])
  obtain st2 where st2: "start_running now n st1 = Inr (n, st2)" "same_threads st1 st2"
    "\<And>q. t_state (arc_val st2 q) = (if q = n then state_code Running else t_state (arc_val st1 q))"
    "\<And>q. t_context (arc_val st2 q) = t_context (arc_val st1 q)"
    by (rule start_running_run [OF r(9)]) blast
  define w' where "w' = w0\<lparr>k_scheduler := s2, s_threads := st2, k_current_thread := mutex_new (Some n),
    s_machine := (s_machine w)\<lparr>m_exec := n, m_save := n, m_load := n,
      m_live := m_value (t_context (arc_val st2 n))\<rparr>\<rparr>"
  have live: "arc_live (s_threads w0) c" "arc_live st2 n" "n \<noteq> 0"
    using i(9) cur0 r(9) same_threads_live [OF st2(2)] store_ok_live [OF ok1] by auto
  have "handle_irq_preemption ops now w0 = Inr (set_current_irq_context n (set_irq_load_context n
      (w0\<lparr>k_scheduler := s2, s_threads := st2, k_current_thread := mutex_new (Some n)\<rparr>)))"
    using init r(1,5,6,9) st2(1) i(2) cur0 live ok1
    by (simp add: handle_irq_preemption_def try_lock_current context_ptr_run [OF ok1] thread_id_run
        mutex_unlock_new) (simp add: w0_def)
  then have run: "timer_irq (handle_irq_preemption ops now) w = Inr w'"
    using st0(1) live
    by (simp add: timer_irq_def Let_def w0_def [symmetric] set_current_irq_context_def
        set_irq_load_context_def thread_context_run w'_def) (simp add: w0_def)
  have c': "current w' = Some n" "k_scheduler w' = s2" "s_threads w' = st2"
    by (simp_all add: w'_def current_def)
  have same: "same_threads (s_threads w) st2"
    using same_threads_trans [OF st0(2) same_threads_trans [OF _ st2(2)]] r(2) by (simp add: w0_def)
  have "kernel_inv ready ok w'"
  proof (rule kernel_invI)
    show "store_ok (s_threads w')" using same_threads_ok [OF ok1 st2(2)] by (simp add: w'_def)
    show "thread_in (s_threads w') Ready p" if "p \<in> set (ready (k_scheduler w'))" for p
      using that r(11,13) st2(2,3) c' by (auto simp: thread_in_def same_threads_def)
    show "thread_in (s_threads w') Running p \<and> m_exec (s_machine w') = p" if "current w' = Some p" for p
    proof -
      have "p = n" "m_exec (s_machine w') = n" using that c'(1) by (simp_all add: w'_def)
      then show ?thesis using st2(3) live(2) c'(3) by (simp add: thread_in_def)
    qed
  qed (use r(7,11,12) c' in \<open>simp_all add: w'_def\<close>)
  moreover have "schedulable ready w' = schedulable ready w"
    using r(8) cur c' by (simp add: schedulable_def w0_def)
  moreover have "\<exists>st1 s1. same_threads (s_threads w) st1 \<and> so_enqueue ops c (k_scheduler w) st1 = Inr s1 \<and>
      so_pick_next ops 0 s1 st1 = Inr (Some n, k_scheduler w')"
    using same_threads_trans [OF st0(2)] r(2,5,6) c'(2) unfolding w0_def
    by (intro exI [of _ st1] exI [of _ s1]) simp
  moreover have "t_state (arc_val (s_threads w') q) = (if q = n then state_code Running
      else if q = c then state_code Ready else t_state (arc_val (s_threads w) q))" for q
    using c'(3) r(3) st0(3) st2(3) by (simp add: w0_def)
  moreover have "m_value (t_context (arc_val (s_threads w') q)) = (if q = m_save (s_machine w) \<and> q \<noteq> 0
      then m_live (s_machine w) else m_value (t_context (arc_val (s_threads w) q)))" for q
    using c'(3) r(4) st0(4) st2(4) by (simp add: w0_def)
  moreover have "s_machine w' = (s_machine w)\<lparr>m_exec := n, m_save := n, m_load := n,
      m_live := m_value (t_context (arc_val (s_threads w') n))\<rparr>"
    "k_stack_pool w' = k_stack_pool w" "s_heap w' = s_heap w" "k_next_thread_id w' = k_next_thread_id w"
    "k_initialized w'" "same_threads (s_threads w) (s_threads w')"
    using init same by (simp_all add: w'_def w0_def)
  ultimately show ?thesis by (intro that [OF run _ c'(1)]) (fact | assumption)+
qed

text \<open>The first thread.\<close>

lemma start_run:
  assumes inv: "kernel_inv ready ok w" and cur: "current w = None" and init: "k_initialized w"
    and rdy: "ready (k_scheduler w) = n # rs"
  obtains w' where "start_first_thread ops now w = Inr (Switched, w')" "kernel_inv ready ok w'"
    "current w' = Some n" "ready (k_scheduler w') = rs" "k_initialized w'"
    "same_threads (s_threads w) (s_threads w')"
    "\<And>q. t_state (arc_val (s_threads w') q) = (if q = n then state_code Running
      else t_state (arc_val (s_threads w) q))"
    "\<And>q. t_context (arc_val (s_threads w') q) = t_context (arc_val (s_threads w) q)"
    "s_machine w' = (s_machine w)\<lparr>m_exec := n, m_save := n, m_load := n, m_live := switch_load
      (m_value (t_context (arc_val (s_threads w) n))) (m_live (s_machine (disable_interrupts w)))\<rparr>"
    "k_stack_pool w' = k_stack_pool w" "s_heap w' = s_heap w" "k_next_thread_id w' = k_next_thread_id w"
proof -
  define w1 where "w1 = disable_interrupts w"
  have w1: "k_scheduler w1 = k_scheduler w" "k_current_thread w1 = k_current_thread w" "current w1 = None"
    "s_threads w1 = s_threads w" "k_initialized w1 = k_initialized w"
    "(s_machine w1)\<lparr>m_save := y, m_load := z, m_exec := x, m_live := u\<rparr> =
     (s_machine w)\<lparr>m_exec := x, m_save := y, m_load := z, m_live := u\<rparr>" for x y z u
    using cur by (simp_all add: w1_def disable_interrupts_def set_pstate_def current_def)
  note i = kernel_invD [OF inv]
  have l: "list_all (arc_live (s_threads w)) (ready (k_scheduler w))"
    using i(8) by (simp add: list_all_iff)
  then have n: "arc_live (s_threads w) n" "n \<noteq> 0" using rdy store_ok_live [OF i(3)] by auto
  obtain s' where s': "so_pick_next ops 0 (k_scheduler w) (s_threads w) = Inr (Some n, s')" "ok s'"
    "ready s' = rs"
    using pick_some [OF i(1) rdy l] by blast
  obtain st where st: "start_running now n (s_threads w) = Inr (n, st)" "same_threads (s_threads w) st"
    "\<And>q. t_state (arc_val st q) = (if q = n then state_code Running else t_state (arc_val (s_threads w) q))"
    "\<And>q. t_context (arc_val st q) = t_context (arc_val (s_threads w) q)"
    by (rule start_running_run [OF n(1)]) blast
  have live: "arc_live st n" using n same_threads_live [OF st(2)] by simp
  define w' where "w' = w1\<lparr>k_scheduler := s', s_threads := st, k_current_thread := mutex_new (Some n),
    s_machine := (s_machine w)\<lparr>m_exec := n, m_save := n, m_load := n, m_live := switch_load
      (m_value (t_context (arc_val (s_threads w) n))) (m_live (s_machine w1))\<rparr>\<rparr>"
  have run: "start_first_thread ops now w = Inr (Switched, w')"
    unfolding start_first_thread_def w1_def [symmetric] Let_def
    using init cur i(2) s'(1) st(1,4) n live w1
    by (simp add: lock_current context_ptr_run [OF i(3)] mutex_unlock_new set_current_irq_context_def
        thread_context_run w'_def)
  have c': "current w' = Some n" "k_scheduler w' = s'" "s_threads w' = st" "m_exec (s_machine w') = n"
    by (simp_all add: w'_def current_def)
  have "kernel_inv ready ok w'"
  proof (rule kernel_invI)
    show "store_ok (s_threads w')" using same_threads_ok [OF i(3) st(2)] c' by simp
    show "thread_in (s_threads w') Ready p" if "p \<in> set (ready (k_scheduler w'))" for p
      using that rdy s'(3) i(4,5) c' st(3) same_threads_live [OF st(2)] by (auto simp: thread_in_def list_all_iff)
    show "thread_in (s_threads w') Running p \<and> m_exec (s_machine w') = p" if "current w' = Some p" for p
      using that live c' st(3) by (simp add: thread_in_def)
  qed (use s' i(4) rdy c' in \<open>simp_all add: w'_def\<close>)
  then show ?thesis using c' s' st init
    by (intro that [OF run]) (simp_all add: w'_def w1_def)
qed

text \<open>The last thread finishes: nothing is left to run, or dropping its last handle panics.\<close>

lemma finish_alone:
  assumes inv: "kernel_inv ready ok w" and cur: "current w = Some c" and init: "k_initialized w"
    and rdy: "ready (k_scheduler w) = []"
  shows "if arc_cnt (s_threads w) c = 1
    then finish_and_yield ops False now resume w = Inl Unimplemented
    else \<exists>w'. finish_and_yield ops False now resume w = Inr (Returned, w') \<and> kernel_inv ready ok w' \<and>
      current w' = None \<and> ready (k_scheduler w') = [] \<and> k_initialized w' \<and>
      same_threads (s_threads w) (s_threads w') \<and>
      (\<forall>q. t_state (arc_val (s_threads w') q) = (if q = c then state_code Finished
        else t_state (arc_val (s_threads w) q))) \<and>
      k_stack_pool w' = k_stack_pool w \<and> s_heap w' = s_heap w \<and>
      k_next_thread_id w' = k_next_thread_id w \<and> m_save (s_machine w') = m_save (s_machine w) \<and>
      m_load (s_machine w') = m_load (s_machine w)"
proof -
  define w1 where "w1 = disable_interrupts w"
  have w1: "k_scheduler w1 = k_scheduler w" "k_current_thread w1 = k_current_thread w"
    "s_threads w1 = s_threads w" "k_initialized w1 = k_initialized w"
    by (simp_all add: w1_def)
  note i = kernel_invD [OF inv]
  have live: "arc_live (s_threads w) c" using i(9) cur by simp
  obtain st1 where st1: "set_state c Finished (s_threads w) = Inr st1" "same_threads (s_threads w) st1"
    "\<And>q. t_state (arc_val st1 q) = (if q = c then state_code Finished else t_state (arc_val (s_threads w) q))"
    "\<And>q. arc_cnt st1 q = arc_cnt (s_threads w) q"
    by (rule set_state_run [OF live]) blast
  obtain s' where s': "so_pick_next ops 0 (k_scheduler w) st1 = Inr (None, s')" "ok s'" "ready s' = []"
    using pick_none [OF i(1) rdy] by blast
  have live1: "arc_live st1 c" using live same_threads_live [OF st1(2)] by simp
  have run: "finish_and_yield ops False now resume w = rbind (arc_drop False c st1) (\<lambda>st2.
      Inr (Returned, enable_interrupts (w1\<lparr>k_scheduler := s', s_threads := st2,
        k_current_thread := mutex_new None\<rparr>)))"
    unfolding finish_and_yield_def w1_def [symmetric] Let_def
    using init st1(1) s'(1) i(2) cur live
    by (simp add: w1 lock_current context_ptr_run [OF i(3)] thread_id_run mutex_unlock_new)
  show ?thesis
  proof (cases "arc_cnt (s_threads w) c = 1")
    case True
    then have "arc_drop False c st1 = Inl Unimplemented"
      using live1 st1(4) [of c] by (auto simp: arc_live_def arc_cnt_def arc_drop_def arc_dec_def
          arc_deallocate_def arc_set_count_def)
    with True run show ?thesis by simp
  next
    case False
    then obtain st2 where st2: "arc_drop False c st1 = Inr st2" using live1 st1(4) by (simp add: arc_drop_cmod)
    note d = arc_drop_run [OF live1 st2]
    define w' where "w' = enable_interrupts (w1\<lparr>k_scheduler := s', s_threads := st2,
        k_current_thread := mutex_new None\<rparr>)"
    have same: "same_threads (s_threads w) st2" using same_threads_trans [OF st1(2)] d by blast
    have "kernel_inv ready ok w'"
      using s' same_threads_ok [OF i(3) same] by (intro kernel_invI) (auto simp: w'_def current_def)
    moreover have "finish_and_yield ops False now resume w = Inr (Returned, w')"
      using run st2 by (simp add: w'_def)
    ultimately show ?thesis using False same d st1(3) s'(3) init
      by (simp add: w'_def w1_def current_def)
  qed
qed

end

section \<open>Every step keeps the invariant\<close>

text \<open>What a step that spawns nothing does, for the threads \<open>gone\<close> that it retires.\<close>

definition good_step ::
  "('s \<Rightarrow> ptr list) \<Rightarrow> ('s \<Rightarrow> bool) \<Rightarrow> ptr multiset \<Rightarrow> ('s, 'h) system \<Rightarrow> ('s, 'h) system \<Rightarrow> bool" where
  "good_step ready ok gone w w' \<longleftrightarrow> kernel_inv ready ok w' \<and> control_ok w' \<and> kept ready w w' \<and>
     schedulable ready w = schedulable ready w' + gone"

lemma good_step_idle:
  assumes "kernel_inv ready ok w" "control_ok w" "k_scheduler w' = k_scheduler w"
    "k_current_thread w' = k_current_thread w" "s_threads w' = s_threads w"
    "m_exec (s_machine w') = m_exec (s_machine w)" "m_save (s_machine w') = m_save (s_machine w)"
    "m_load (s_machine w') = m_load (s_machine w)" "k_stack_pool w' = k_stack_pool w"
    "s_heap w' = s_heap w" "k_next_thread_id w' = k_next_thread_id w" "k_initialized w \<longrightarrow> k_initialized w'"
  shows "good_step ready ok {#} w w'"
  using assms kernel_inv_cong [OF assms(1,3-6)]
  by (simp add: good_step_def kept_def control_ok_def schedulable_def current_def)

lemma kept_states:
  assumes "same_threads (s_threads w) (s_threads w')" "k_stack_pool w' = k_stack_pool w"
    "s_heap w' = s_heap w" "k_next_thread_id w' = k_next_thread_id w"
    "\<And>q. q \<notin># schedulable ready w \<Longrightarrow> t_state (arc_val (s_threads w') q) = t_state (arc_val (s_threads w) q)"
  shows "kept ready w w'"
  using assms by (simp add: kept_def)

lemma current_schedulable:
  "current w' = Some n \<Longrightarrow> schedulable ready w' = schedulable ready w \<Longrightarrow> n \<in># schedulable ready w"
  by (drule sym [of "schedulable ready w'"]) (simp add: schedulable_def)

text \<open>A Finished thread is neither current nor waiting.\<close>

lemma finished_not_schedulable:
  assumes "kernel_inv ready ok w" "t_state (arc_val (s_threads w) q) = state_code Finished"
  shows "current w \<noteq> Some q" "q \<notin> set (ready (k_scheduler w))" "q \<notin># schedulable ready w"
proof -
  show "current w \<noteq> Some q" "q \<notin> set (ready (k_scheduler w))"
    using kernel_invD(5,6) [OF assms(1)] assms(2) by (auto simp: thread_in_def list_all_iff)
  then show "q \<notin># schedulable ready w" by (auto simp: schedulable_def split: option.split)
qed

context scheduler_contract
begin

lemma yield_step:
  assumes inv: "kernel_inv ready ok w" and irq: "control_ok w" and run: "yield_now ops now resume w = Inr (f, w')"
  shows "good_step ready ok {#} w w'"
proof (cases "k_initialized w \<and> current w \<noteq> None")
  case True
  then obtain c where c: "current w = Some c" and init: "k_initialized w" by auto
  obtain v n where v: "yield_now ops now resume w = Inr (Switched, v)" "kernel_inv ready ok v"
    "current v = Some n" "schedulable ready v = schedulable ready w" "k_initialized v"
    "same_threads (s_threads w) (s_threads v)"
    "\<And>q. t_state (arc_val (s_threads v) q) = (if q = n then state_code Running
      else if q = c then state_code Ready else t_state (arc_val (s_threads w) q))"
    "s_machine v = (s_machine w)\<lparr>m_exec := n, m_live := switch_load
      (m_value (t_context (arc_val (s_threads v) n))) (m_live (s_machine (disable_interrupts w)))\<rparr>"
    "k_stack_pool v = k_stack_pool w" "s_heap v = s_heap w" "k_next_thread_id v = k_next_thread_id w"
    by (rule yield_run [OF inv c init, where now = now and resume = resume]) (rule that; assumption)
  have n: "n \<in># schedulable ready w" using v(3,4) by (rule current_schedulable)
  have "kept ready w v" by (rule kept_states [OF v(6,9-11)]) (use v(7) n c in \<open>auto simp: schedulable_def\<close>)
  moreover have "control_ok v" using irq v(5,6,8) by (simp add: control_ok_def same_threads_live)
  ultimately show ?thesis using v(1,2,4) run by (simp add: good_step_def)
next
  case False
  note i = kernel_invD(2) [OF inv]
  from False run show ?thesis
    by (intro good_step_idle [OF inv irq])
      (auto simp: yield_now_def Let_def lock_current i idle_current split: if_splits)
qed

lemma timer_step:
  assumes inv: "kernel_inv ready ok w" and irq: "control_ok w"
    and run: "timer_irq (handle_irq_preemption ops now) w = Inr w'"
  shows "good_step ready ok {#} w w'"
proof (cases "k_initialized w \<and> current w \<noteq> None")
  case True
  then obtain c where c: "current w = Some c" and init: "k_initialized w" by auto
  obtain v n where v: "timer_irq (handle_irq_preemption ops now) w = Inr v" "kernel_inv ready ok v"
    "current v = Some n" "schedulable ready v = schedulable ready w" "k_initialized v"
    "same_threads (s_threads w) (s_threads v)"
    "\<And>q. t_state (arc_val (s_threads v) q) = (if q = n then state_code Running
      else if q = c then state_code Ready else t_state (arc_val (s_threads w) q))"
    "s_machine v = (s_machine w)\<lparr>m_exec := n, m_save := n, m_load := n,
      m_live := m_value (t_context (arc_val (s_threads v) n))\<rparr>"
    "k_stack_pool v = k_stack_pool w" "s_heap v = s_heap w" "k_next_thread_id v = k_next_thread_id w"
    by (rule timer_run [OF inv c init irq, where now = now]) (rule that; assumption)
  have n: "n \<in># schedulable ready w" using v(3,4) by (rule current_schedulable)
  have "kept ready w v" by (rule kept_states [OF v(6,9-11)]) (use v(7) n c in \<open>auto simp: schedulable_def\<close>)
  moreover have "control_ok v" using kernel_invD(9) [OF v(2,3)] v(5,8) by (simp add: control_ok_def)
  ultimately show ?thesis using v(1,2,4) run by (simp add: good_step_def)
next
  case False
  obtain st1 where st1: "(if m_save (s_machine w) = 0 then Inr (s_threads w)
      else store_context (m_save (s_machine w)) (m_live (s_machine w)) (s_threads w)) = Inr st1"
    "same_threads (s_threads w) st1" "\<And>q. t_state (arc_val st1 q) = t_state (arc_val (s_threads w) q)"
    by (rule irq_store [OF irq]) (rule that; assumption)
  let ?w = "w\<lparr>s_threads := st1\<rparr>"
  have inv1: "kernel_inv ready ok ?w" by (rule kernel_inv_store [OF inv st1(2,3)])
  have cur: "current ?w = current w" by (simp add: current_def)
  have "handle_irq_preemption ops now ?w = Inr ?w"
    using False kernel_invD(2) [OF inv1] cur
    by (auto simp: handle_irq_preemption_def try_lock_current idle_current)
  with run st1(1) have l: "m_load (s_machine w) \<noteq> 0" "rbind (thread_context (m_load (s_machine w)) st1) (\<lambda>c.
      Inr (?w\<lparr>s_machine := (s_machine w)\<lparr>m_exec := m_load (s_machine w), m_live := c\<rparr>\<rparr>)) = Inr w'"
    by (auto simp: timer_irq_def Let_def split: if_splits)
  then have "arc_live st1 (m_load (s_machine w))"
    using irq st1(2) by (simp add: control_ok_def same_threads_live)
  then obtain c where w': "w' = ?w\<lparr>s_machine := (s_machine w)\<lparr>m_exec := m_load (s_machine w), m_live := c\<rparr>\<rparr>"
    using l(2) by (auto simp: thread_context_run)
  have "kept ready w w'" using st1 by (intro kept_states) (simp_all add: w')
  moreover have "control_ok w'" using irq st1(2) by (simp add: control_ok_def w' same_threads_live current_def)
  moreover have "kernel_inv ready ok w'"
    using kernel_invD [OF inv1] False control_ok_current [OF irq]
    by (intro kernel_invI) (auto simp: w' current_def list_all_iff)
  ultimately show ?thesis by (simp add: good_step_def w' schedulable_def current_def)
qed

lemma start_step:
  assumes inv: "kernel_inv ready ok w" and irq: "control_ok w" and run: "start_first_thread ops now w = Inr (f, w')"
  shows "good_step ready ok {#} w w'"
proof -
  note i = kernel_invD [OF inv]
  consider (idle) "\<not> k_initialized w \<or> current w \<noteq> None"
    | (none) "k_initialized w" "current w = None" "ready (k_scheduler w) = []"
    | (some) n rs where "k_initialized w" "current w = None" "ready (k_scheduler w) = n # rs"
    by (cases "ready (k_scheduler w)") auto
  then show ?thesis
  proof cases
    case idle
    have "current (disable_interrupts w) = current w" by (simp add: current_def)
    with idle run show ?thesis
      by (intro good_step_idle [OF inv irq])
        (auto simp: start_first_thread_def Let_def lock_current i(2) unlock_current
          unlock_current [OF i(2), simplified] split: if_splits)
  next
    case none
    obtain s' where s': "so_pick_next ops 0 (k_scheduler w) (s_threads w) = Inr (None, s')" "ok s'" "ready s' = []"
      using pick_none [OF i(1) none(3)] by blast
    have w': "w' = enable_interrupts ((disable_interrupts w)\<lparr>k_scheduler := s', k_current_thread := k_current_thread w\<rparr>)"
      using run none s'(1) i(2) by (simp add: start_first_thread_def Let_def lock_current idle_current current_def)
    have "kernel_inv ready ok w'" using i s' none by (intro kernel_invI) (auto simp: w' current_def)
    moreover have "kept ready w w'" by (rule kept_states) (simp_all add: w')
    moreover have "control_ok w'" using irq by (simp add: control_ok_def w' current_def)
    ultimately show ?thesis using none s' by (simp add: good_step_def schedulable_def w' current_def)
  next
    case some
    obtain v where v: "start_first_thread ops now w = Inr (Switched, v)" "kernel_inv ready ok v"
      "current v = Some n" "ready (k_scheduler v) = rs" "k_initialized v"
      "same_threads (s_threads w) (s_threads v)"
      "\<And>q. t_state (arc_val (s_threads v) q) = (if q = n then state_code Running
        else t_state (arc_val (s_threads w) q))"
      "s_machine v = (s_machine w)\<lparr>m_exec := n, m_save := n, m_load := n, m_live := switch_load
        (m_value (t_context (arc_val (s_threads w) n))) (m_live (s_machine (disable_interrupts w)))\<rparr>"
      "k_stack_pool v = k_stack_pool w" "s_heap v = s_heap w" "k_next_thread_id v = k_next_thread_id w"
      by (rule start_run [OF inv some(2,1,3), where now = now]) (rule that; assumption)
    have "kept ready w v"
      by (rule kept_states [OF v(6,9-11)]) (use v(7) some(3) in \<open>auto simp: schedulable_def\<close>)
    moreover have "control_ok v" using kernel_invD(9) [OF v(2,3)] v(5,8) by (simp add: control_ok_def)
    ultimately show ?thesis using v(1-4) run some(2,3) by (simp add: good_step_def schedulable_def)
  qed
qed

lemma finish_step:
  assumes inv: "kernel_inv ready ok w" and irq: "control_ok w"
    and run: "finish_and_yield ops False now resume w = Inr (f, w')"
  shows "good_step ready ok (case current w of None \<Rightarrow> {#} | Some c \<Rightarrow> {#c#}) w w' \<and>
    (\<forall>c. current w = Some c \<longrightarrow> thread_in (s_threads w') Finished c)"
proof (cases "current w")
  case None
  note i = kernel_invD(2) [OF inv]
  have "current (disable_interrupts w) = current w" by (simp add: current_def)
  with None run have "good_step ready ok {#} w w'"
    by (intro good_step_idle [OF inv irq])
      (auto simp: finish_and_yield_def Let_def lock_current i idle_current split: if_splits)
  with None show ?thesis by simp
next
  case (Some c)
  note init = control_ok_current [OF irq Some]
  note live = kernel_invD(9) [OF inv Some]
  show ?thesis
  proof (cases "ready (k_scheduler w)")
    case Nil
    note a = finish_alone [OF inv Some init Nil, of now resume]
    have "arc_cnt (s_threads w) c \<noteq> 1" using a run by auto
    with a run have v: "kernel_inv ready ok w'" "current w' = None" "ready (k_scheduler w') = []"
      "same_threads (s_threads w) (s_threads w')"
      "\<And>q. t_state (arc_val (s_threads w') q) = (if q = c then state_code Finished
        else t_state (arc_val (s_threads w) q))"
      "k_stack_pool w' = k_stack_pool w" "s_heap w' = s_heap w" "k_next_thread_id w' = k_next_thread_id w"
      "m_save (s_machine w') = m_save (s_machine w)" "m_load (s_machine w') = m_load (s_machine w)"
      by auto
    have "kept ready w w'" by (rule kept_states [OF v(4,6-8)]) (use v(5) Some in \<open>auto simp: schedulable_def\<close>)
    moreover have "control_ok w'" using irq v(2,4,9,10) by (simp add: control_ok_def same_threads_live)
    ultimately show ?thesis using v(1-5) Some Nil live
      by (simp add: good_step_def schedulable_def thread_in_def same_threads_live)
  next
    case (Cons n rs)
    obtain v where v: "finish_and_yield ops False now resume w = Inr (Switched, v)" "kernel_inv ready ok v"
      "current v = Some n" "ready (k_scheduler v) = rs" "k_initialized v"
      "same_threads (s_threads w) (s_threads v)"
      "\<And>q. t_state (arc_val (s_threads v) q) = (if q = n then state_code Running
        else if q = c then state_code Finished else t_state (arc_val (s_threads w) q))"
      "k_stack_pool v = k_stack_pool w" "s_heap v = s_heap w" "k_next_thread_id v = k_next_thread_id w"
      "m_save (s_machine v) = m_save (s_machine w)" "m_load (s_machine v) = m_load (s_machine w)"
      by (rule finish_run [OF inv Some init Cons, where now = now and resume = resume]) (rule that; assumption)
    have cn: "c \<noteq> n" using kernel_invD(10) [OF inv Some] Cons by auto
    have "kept ready w v"
      by (rule kept_states [OF v(6,8-10)]) (use v(7) Some Cons in \<open>auto simp: schedulable_def\<close>)
    moreover have "control_ok v" using irq v(3,5,6,11,12) by (simp add: control_ok_def same_threads_live)
    moreover have "thread_in (s_threads v) Finished c"
      using v(6,7) live cn by (simp add: thread_in_def same_threads_live)
    ultimately show ?thesis using v(1-4) run Some Cons by (simp add: good_step_def schedulable_def)
  qed
qed

end

definition system_inv ::
  "('s \<Rightarrow> ptr list) \<Rightarrow> ('s \<Rightarrow> bool) \<Rightarrow> ('h \<Rightarrow> nat set) \<Rightarrow> ('h \<Rightarrow> bool) \<Rightarrow> ('s, 'h) system \<Rightarrow> bool" where
  "system_inv ready ok taken heap_ok w \<longleftrightarrow>
     kernel_inv ready ok w \<and> control_ok w \<and> resources_ok taken heap_ok w"

text \<open>The threads to run after a step, from those before it and the thread that was current.\<close>

definition schedule_after :: "kernel_event \<Rightarrow> ptr option \<Rightarrow> ptr multiset \<Rightarrow> ptr multiset" where
  "schedule_after e cur M = (case e of
       Spawn (Inr p) \<Rightarrow> add_mset p M
     | Finish \<Rightarrow> M - (case cur of None \<Rightarrow> {#} | Some c \<Rightarrow> {#c#})
     | _ \<Rightarrow> M)"

definition spawned :: "kernel_event \<Rightarrow> nat" where
  "spawned e = (case e of Spawn (Inr p) \<Rightarrow> 1 | _ \<Rightarrow> 0)"

text \<open>
  The effect of a step on the population of threads: who is to be run, that Finished threads stay
  Finished, that only spawning makes threads, one at a time, and that a thread that ends is marked Finished.
\<close>

definition step_effect ::
  "('s \<Rightarrow> ptr list) \<Rightarrow> kernel_event \<Rightarrow> ('s, 'h) system \<Rightarrow> ('s, 'h) system \<Rightarrow> bool" where
  "step_effect ready e w w' \<longleftrightarrow>
     schedulable ready w' = schedule_after e (current w) (schedulable ready w) \<and>
     (\<forall>p. thread_in (s_threads w) Finished p \<longrightarrow> thread_in (s_threads w') Finished p) \<and>
     (\<forall>p. arc_live (s_threads w') p \<longrightarrow> arc_live (s_threads w) p \<or> e = Spawn (Inr p)) \<and>
     ah_next (s_threads w') = ah_next (s_threads w) + spawned e \<and>
     (\<forall>c. e = Finish \<longrightarrow> current w = Some c \<longrightarrow> thread_in (s_threads w') Finished c)"

definition all_placed :: "('s \<Rightarrow> ptr list) \<Rightarrow> ('s, 'h) system \<Rightarrow> bool" where
  "all_placed ready w \<longleftrightarrow> (\<forall>p. arc_live (s_threads w) p \<longrightarrow>
     p \<in># schedulable ready w \<or> thread_in (s_threads w) Finished p)"

lemma all_placed_step:
  assumes "all_placed ready w" "step_effect ready e w w'"
  shows "all_placed ready w'"
  unfolding all_placed_def
proof (intro allI impI)
  fix p assume p: "arc_live (s_threads w') p"
  note eff = assms(2) [unfolded step_effect_def schedule_after_def]
  consider "e = Spawn (Inr p)" | "thread_in (s_threads w) Finished p"
    | "p \<in># schedulable ready w" "e = Finish" "current w = Some p"
    | "p \<in># schedulable ready w" "\<not> (e = Finish \<and> current w = Some p)"
    using p eff assms(1) unfolding all_placed_def by blast
  then show "p \<in># schedulable ready w' \<or> thread_in (s_threads w') Finished p"
  proof cases
    case 4
    then have "p \<in># schedulable ready w'"
      using eff by (auto split: kernel_event.split sum.split option.split intro: in_diff_count simp: in_diff_count)
    then show ?thesis ..
  qed (use eff in simp_all)
qed

text \<open>A kernel over a scheduler and an allocator that keep their contracts.\<close>

locale kernel_system = scheduler_contract ops ready ok + heap: block_allocator alloc taken heap_ok
  for ops :: "'s scheduler_ops" and ready and ok
    and alloc :: "'h \<Rightarrow> usize \<Rightarrow> usize \<Rightarrow> u64 \<times> 'h" and taken and heap_ok
begin

lemma spawn_run:
  assumes inv: "kernel_inv ready ok w" and res: "resources_ok taken heap_ok w" and init: "k_initialized w"
    and room: "ah_room (s_threads w) \<noteq> 0"
    and pool: "pool_allocate alloc (s_heap w) (k_stack_pool w) cls = (Some stk, pool', h')"
  defines "p \<equiv> ah_next (s_threads w)"
  obtains w' xs ys where
    "spawn_thread ops alloc cls entry start arg priority w = Inr (Inr p, w')"
    "kernel_inv ready ok w'" "resources_ok taken heap_ok w'" "k_initialized w'"
    "k_current_thread w' = k_current_thread w" "s_machine w' = s_machine w"
    "ready (k_scheduler w) = xs @ ys" "ready (k_scheduler w') = xs @ p # ys"
    "thread_in (s_threads w') Ready p" "\<not> arc_live (s_threads w) p"
    "m_value (t_context (arc_val (s_threads w') p)) = initial_context start (stack_bottom stk) arg"
    "t_priority (arc_val (s_threads w') p) = priority" "t_stack (arc_val (s_threads w') p) = Some stk"
    "st_size_class stk = cls" "stack_wf (taken h') stk"
    "\<And>q. q \<noteq> p \<Longrightarrow> arc_live (s_threads w') q = arc_live (s_threads w) q"
    "\<And>q. q \<noteq> p \<Longrightarrow> arc_val (s_threads w') q = arc_val (s_threads w) q"
    "k_stack_pool w' = pool'" "s_heap w' = h'" "ah_next (s_threads w') = Suc p"
    "ah_room (s_threads w') = ah_room (s_threads w) - 1"
    "so_enqueue ops p (k_scheduler w) (s_threads w') = Inr (k_scheduler w')"
proof -
  note i = kernel_invD [OF inv]
  note r = res [unfolded resources_ok_def]
  have next0: "0 < ah_next (s_threads w)" using i(3) by (simp add: store_ok_def)
  have dead: "\<not> arc_live (s_threads w) p" using i(3) by (simp add: store_ok_def p_def)
  obtain st1 where st1: "thread_new (k_next_thread_id w) stk entry priority (s_threads w) = Inr (p, p, st1)"
    "arc_live st1 p" "arc_val st1 p = (new_thread_inner (k_next_thread_id w) stk entry priority)
       \<lparr>t_context := mutex_new (initial_context entry (stack_bottom stk) 0)\<rparr>"
    "\<And>q. q \<noteq> p \<Longrightarrow> arc_live st1 q = arc_live (s_threads w) q"
    "\<And>q. q \<noteq> p \<Longrightarrow> arc_val st1 q = arc_val (s_threads w) q"
    "ah_next st1 = Suc p" "ah_room st1 = ah_room (s_threads w) - 1"
    unfolding p_def by (rule thread_new_run [OF room next0]) blast
  define st2 where "st2 = tmod p (\<lambda>t. t\<lparr>t_context :=
    mutex_new (initial_context start (stack_bottom stk) arg)\<rparr>) st1"
  have ctx: "setup_initial_context start (stack_bottom stk) arg p st1 = Inr st2"
    using st1(2,3) by (simp add: setup_initial_context_def mutex_lock_def mutex_unlock_new st2_def
        mutex_new_def)
  have live2: "arc_live st2 q = (if q = p then True else arc_live (s_threads w) q)" for q
    using st1(2,4) by (simp add: st2_def)
  have val2: "arc_val st2 q = (if q = p then (new_thread_inner (k_next_thread_id w) stk entry priority)
      \<lparr>t_context := mutex_new (initial_context start (stack_bottom stk) arg)\<rparr>
      else arc_val (s_threads w) q)" for q
    using st1(2,3,5) by (simp add: st2_def)
  have ctr2: "ah_next st2 = Suc p" "ah_room st2 = ah_room (s_threads w) - 1"
    using st1(6,7) by (simp_all add: st2_def)
  obtain s' xs ys where s': "so_enqueue ops p (k_scheduler w) st2 = Inr s'" "ok s'"
    "ready (k_scheduler w) = xs @ ys" "ready s' = xs @ p # ys"
    by (rule enqueueE [OF i(1), of st2 p]) (simp add: live2)
  define w' where "w' = w\<lparr>k_stack_pool := pool', s_heap := h', k_next_thread_id := k_next_thread_id w + 1,
    k_scheduler := s', s_threads := st2\<rparr>"
  have run: "spawn_thread ops alloc cls entry start arg priority w = Inr (Inr p, w')"
    using init pool st1(1) ctx s'(1)
    by (simp add: spawn_thread_def next_thread_id_def Let_def w'_def)
  have pa: "heap_ok h'" "st_size_class stk = cls"
    "pool_inv (taken h') pool' (add_mset stk (thread_stacks (s_threads w)))"
    using heap.pool_inv_allocate [OF _ _ pool] r by auto
  then have wf: "stack_wf (taken h') stk" by (simp add: pool_inv_def pool_all_def)
  have "thread_stacks st2 = add_mset stk (thread_stacks (s_threads w))"
  proof -
    have "{1..<Suc p} = insert p {1..<p}" using next0 by (auto simp: p_def)
    moreover have "{#the (t_stack (arc_val st2 q)). q \<in># mset_set {1..<p}#} = thread_stacks (s_threads w)"
      unfolding thread_stacks_def p_def [symmetric] by (intro image_mset_cong) (simp add: val2)
    ultimately show ?thesis by (simp add: thread_stacks_def ctr2 val2 new_thread_inner_def)
  qed
  then have res': "resources_ok taken heap_ok w'"
    using pa r room by (auto simp: resources_ok_def w'_def ctr2 live2 val2 new_thread_inner_def p_def)
  have st: "store_ok st2"
    using i(3) by (auto simp: store_ok_def live2 val2 ctr2 p_def mutex_new_def new_thread_inner_def)
  have "kernel_inv ready ok w'"
  proof (rule kernel_invI)
    show "thread_in (s_threads w') Ready q" if "q \<in> set (ready (k_scheduler w'))" for q
      using that s'(3,4) i(5) by (auto simp: w'_def thread_in_def live2 val2 list_all_iff new_thread_inner_def)
    show "thread_in (s_threads w') Running q \<and> m_exec (s_machine w') = q" if "current w' = Some q" for q
      using that i(6,7) [of q] dead by (auto simp: w'_def thread_in_def live2 val2 current_def)
    show "distinct (ready (k_scheduler w'))" using i(4,8) s'(3,4) dead by (auto simp: w'_def)
  qed (use s'(2) i(2) st in \<open>simp_all add: w'_def\<close>)
  then show ?thesis using s' pa wf res' dead init
    by (intro that [OF run]) (simp_all add: w'_def thread_in_def live2 val2 ctr2 new_thread_inner_def mutex_new_def)
qed

lemma spawn_step:
  assumes inv: "system_inv ready ok taken heap_ok w"
    and run: "spawn_thread ops alloc cls entry start arg priority w = Inr (r, w')"
  shows "system_inv ready ok taken heap_ok w' \<and>
    step_effect ready (Spawn r) w w'"
proof -
  have i: "kernel_inv ready ok w" "control_ok w" "resources_ok taken heap_ok w"
    using inv by (auto simp: system_inv_def)
  obtain a pool' h' where pa: "pool_allocate alloc (s_heap w) (k_stack_pool w) cls = (a, pool', h')"
    by (cases "pool_allocate alloc (s_heap w) (k_stack_pool w) cls") auto
  consider (off) "\<not> k_initialized w" | (oom) "k_initialized w" "a = None"
    | (new) stk where "k_initialized w" "a = Some stk" by (cases a) auto
  then show ?thesis
  proof cases
    case off
    with run inv show ?thesis by (auto simp: spawn_thread_def schedule_after_def step_effect_def spawned_def)
  next
    case oom
    with run pa have w': "r = Inl Spawn_OutOfMemory" "w' = w\<lparr>k_stack_pool := pool', s_heap := h'\<rparr>"
      by (auto simp: spawn_thread_def)
    have "resources_ok taken heap_ok w'"
      using i(3) heap.pool_inv_allocate [OF _ _ pa] oom by (auto simp: resources_ok_def w'(2))
    moreover have "kernel_inv ready ok w'" by (rule kernel_inv_cong [OF i(1)]) (simp_all add: w'(2))
    moreover have "control_ok w'" using i(2) by (simp add: control_ok_def current_def w'(2))
    ultimately show ?thesis
      by (simp add: system_inv_def w' step_effect_def schedule_after_def schedulable_def current_def spawned_def)
  next
    case new
    have "ah_room (s_threads w) \<noteq> 0"
    proof
      assume "ah_room (s_threads w) = 0"
      then have "spawn_thread ops alloc cls entry start arg priority w = Inl AllocFailure"
        using pa new by (simp add: spawn_thread_def next_thread_id_def Let_def thread_new_def arc_new_def)
      with run show False by simp
    qed
    note pa' = pa [unfolded new(2)]
    let ?p = "ah_next (s_threads w)"
    obtain v xs ys where v: "spawn_thread ops alloc cls entry start arg priority w = Inr (Inr ?p, v)"
      "kernel_inv ready ok v" "resources_ok taken heap_ok v" "k_initialized v"
      "k_current_thread v = k_current_thread w" "s_machine v = s_machine w"
      "ready (k_scheduler w) = xs @ ys" "ready (k_scheduler v) = xs @ ?p # ys" "\<not> arc_live (s_threads w) ?p"
      "\<And>q. q \<noteq> ?p \<Longrightarrow> arc_live (s_threads v) q = arc_live (s_threads w) q"
      "\<And>q. q \<noteq> ?p \<Longrightarrow> arc_val (s_threads v) q = arc_val (s_threads w) q" "ah_next (s_threads v) = Suc ?p"
      by (rule spawn_run [OF i(1,3) new(1) \<open>ah_room (s_threads w) \<noteq> 0\<close> pa']) (rule that; assumption)
    have rw: "r = Inr ?p" "w' = v" using v(1) run by auto
    have "control_ok v"
      using i(2) v(4-6,10) v(9) by (cases "m_load (s_machine w) = ?p") (auto simp: control_ok_def current_def)
    moreover have "thread_in (s_threads v) Finished p" if "thread_in (s_threads w) Finished p" for p
      using that v(9-11) by (cases "p = ?p") (auto simp: thread_in_def)
    moreover have "arc_live (s_threads w) p \<or> ?p = p" if "arc_live (s_threads v) p" for p
      using that v(10) [of p] by auto
    ultimately show ?thesis using rw v(2,3,5,7,8,12)
      by (simp add: system_inv_def step_effect_def schedule_after_def schedulable_def current_def spawned_def)
  qed
qed

text \<open>Every step but spawning is good; \<open>Finish\<close> retires the current thread.\<close>

definition retired :: "kernel_event \<Rightarrow> ptr option \<Rightarrow> ptr multiset" where
  "retired e cur = (if e = Finish then case cur of None \<Rightarrow> {#} | Some c \<Rightarrow> {#c#} else {#})"

lemma kstep_good:
  assumes i: "kernel_inv ready ok w" "control_ok w" and step: "kstep ops alloc w e w'" and e: "\<And>r. e \<noteq> Spawn r"
  shows "good_step ready ok (retired e (current w)) w w' \<and>
    (\<forall>c. e = Finish \<longrightarrow> current w = Some c \<longrightarrow> thread_in (s_threads w') Finished c)"
proof -
  from step show ?thesis
  proof cases
    case (init r)
    have "good_step ready ok {#} w w'"
      using init by (intro good_step_idle [OF i]) (auto simp: kernel_init_def split: if_splits)
    then show ?thesis using init by (simp add: retired_def)
  next
    case (start now f)
    then show ?thesis using start_step [OF i start(2)] by (simp add: retired_def)
  next
    case (yield now resume f)
    then show ?thesis using yield_step [OF i yield(2)] by (simp add: retired_def)
  next
    case (finish now resume f)
    then show ?thesis using finish_step [OF i finish(2)] by (simp add: retired_def)
  next
    case (timer now)
    then show ?thesis using timer_step [OF i timer(3)] by (simp add: retired_def)
  next
    case (user c)
    have "good_step ready ok {#} w w'" using user by (intro good_step_idle [OF i]) simp_all
    then show ?thesis using user by (simp add: retired_def)
  next
    case (release p st)
    note d = arc_drop_run [OF release(3,4)]
    have k: "kernel_inv ready ok w'" unfolding release(2) using d by (intro kernel_inv_store [OF i(1)]) auto
    have "good_step ready ok {#} w w'"
      using d i(2) k by (auto simp: good_step_def control_ok_def current_def schedulable_def release(2)
          same_threads_live intro!: kept_states)
    then show ?thesis using release by (simp add: retired_def)
  qed (use e in simp_all)
qed

lemma kernel_step:
  assumes inv: "system_inv ready ok taken heap_ok w" and step: "kstep ops alloc w e w'"
  shows "system_inv ready ok taken heap_ok w' \<and> step_effect ready e w w'"
proof (cases "\<exists>r. e = Spawn r")
  case True
  with step show ?thesis
    by (cases rule: kstepE) (use spawn_step [OF inv] in \<open>auto simp: spawn_def spawn_fn_def\<close>)
next
  case False
  have i: "kernel_inv ready ok w" "control_ok w" "resources_ok taken heap_ok w" using inv by (auto simp: system_inv_def)
  then have g: "good_step ready ok (retired e (current w)) w w'"
    "\<And>c. e = Finish \<Longrightarrow> current w = Some c \<Longrightarrow> thread_in (s_threads w') Finished c"
    using kstep_good [OF _ _ step] False by auto
  then have k: "kept ready w w'" "schedulable ready w = schedulable ready w' + retired e (current w)"
    "same_threads (s_threads w) (s_threads w')" by (simp_all add: good_step_def kept_def)
  have "resources_ok taken heap_ok w'" by (rule resources_kept [OF kernel_invD(3) [OF i(1)] i(3) k(1)])
  moreover have "thread_in (s_threads w') Finished p" if "thread_in (s_threads w) Finished p" for p
    using that k(1) finished_not_schedulable(3) [OF i(1), of p] same_threads_live [OF k(3), of p]
    by (simp add: kept_def thread_in_def)
  moreover have "schedulable ready w' = schedule_after e (current w) (schedulable ready w)"
    using k(2) False by (auto simp: schedule_after_def retired_def split: kernel_event.splits sum.splits)
  moreover have "spawned e = 0" using False by (auto simp: spawned_def split: kernel_event.split sum.split)
  moreover have "kernel_inv ready ok w'" "control_ok w'" using g(1) by (simp_all add: good_step_def)
  moreover have "arc_live (s_threads w') p = arc_live (s_threads w) p" "ah_next (s_threads w') = ah_next (s_threads w)" for p
    using k(3) by (simp_all add: same_threads_def)
  ultimately show ?thesis using g(2) by (simp add: system_inv_def step_effect_def)
qed

lemma kernel_run_inv:
  assumes "kernel_run ops alloc w es w'" "system_inv ready ok taken heap_ok w" "all_placed ready w"
  shows "system_inv ready ok taken heap_ok w' \<and> all_placed ready w' \<and>
    (\<forall>p. thread_in (s_threads w) Finished p \<longrightarrow> thread_in (s_threads w') Finished p) \<and>
    ah_next (s_threads w') = ah_next (s_threads w) + sum_list (map spawned es)"
  using assms
proof (induction rule: kernel_run.induct)
  case (run_step w es w' e w'')
  then have e: "step_effect ready e w' w''" "system_inv ready ok taken heap_ok w''"
    using kernel_step [of w' e w''] by blast+
  then have "all_placed ready w''" using run_step all_placed_step [of ready w' e w''] by blast
  with run_step e show ?case by (auto simp: step_effect_def)
qed simp

end

end
