(* ===== verification/Kernel_Properties.thy ===== *)
theory Kernel_Properties
  imports Kernel_Steps
begin

text \<open>
  Properties of whole runs of the kernel, for the two schedulers of the crate and the bump
  allocator of the bare-metal examples: what the thread states mean, that threads are never lost,
  isolation of stacks and identifiers, order of dispatch, and what preemption and yielding do to a
  thread's registers.
\<close>

section \<open>Boot\<close>

interpretation fcfs_kernel: kernel_system fcfs_ops fcfs_ready fcfs_ok "bump_alloc []" bump_taken bump_ok
  by unfold_locales

interpretation rr_kernel: kernel_system rr_ops rr1_ready rr1_ok "bump_alloc []" bump_taken bump_ok
  by unfold_locales

definition boot_machine :: "machine \<Rightarrow> bool" where
  "boot_machine m \<longleftrightarrow> m_save m = 0 \<and> m_load m = 0"

lemma fcfs_ok_new: "fcfs_ok (fcfs_new wk)" "fcfs_ready (fcfs_new wk) = []"
  by (simp_all add: fcfs_ok_def fcfs_ready_def fcfs_new_def lfq.ok_fresh lfq.items_fresh)

context kernel_system
begin

lemma kernel_new_inv:
  assumes "ok s" "ready s = []" "heap_ok h" "boot_machine m" "Suc room < 2 ^ 64"
  shows "system_inv ready ok taken heap_ok (kernel_new s (arc_empty room ws) h m)"
    "all_placed ready (kernel_new s (arc_empty room ws) h m)"
proof -
  have "thread_stacks (arc_empty room ws) = {#}" by (simp add: thread_stacks_def arc_empty_def)
  moreover have "store_ok (arc_empty room ws)" by (auto simp: store_ok_def arc_empty_def arc_live_def)
  ultimately show "system_inv ready ok taken heap_ok (kernel_new s (arc_empty room ws) h m)"
    using assms by (simp add: system_inv_def kernel_inv_def control_ok_def resources_ok_def
        kernel_new_def current_def boot_machine_def pool_inv_initial mutex_new_def)
      (simp add: arc_empty_def arc_live_def)
  show "all_placed ready (kernel_new s (arc_empty room ws) h m)"
    by (simp add: all_placed_def kernel_new_def arc_empty_def arc_live_def)
qed

lemma reached:
  assumes "kernel_run ops alloc (kernel_new s (arc_empty room ws) h m) es w"
    "ok s" "ready s = []" "heap_ok h" "boot_machine m" "Suc room < 2 ^ 64"
  shows "system_inv ready ok taken heap_ok w" "all_placed ready w"
  using kernel_run_inv [OF assms(1) kernel_new_inv [OF assms(2-6)]] by simp_all

text \<open>Spawning one more thread, and booting with two.\<close>

lemma spawn_next:
  assumes inv: "system_inv ready ok taken heap_ok w" and init: "k_initialized w"
    and room: "ah_room (s_threads w) \<noteq> 0"
    and pool: "pool_allocate alloc (s_heap w) (k_stack_pool w) Small = (Some stk, pool', h')"
  obtains w' xs ys where "kstep ops alloc w (Spawn (Inr (ah_next (s_threads w)))) w'"
    "system_inv ready ok taken heap_ok w'" "k_initialized w'" "current w' = current w"
    "ready (k_scheduler w) = xs @ ys" "ready (k_scheduler w') = xs @ ah_next (s_threads w) # ys"
    "k_stack_pool w' = pool'" "s_heap w' = h'" "ah_next (s_threads w') = Suc (ah_next (s_threads w))"
    "ah_room (s_threads w') = ah_room (s_threads w) - 1"
proof -
  let ?p = "ah_next (s_threads w)"
  have i: "kernel_inv ready ok w" "resources_ok taken heap_ok w" using inv by (auto simp: system_inv_def)
  obtain w' xs ys where w': "spawn_thread ops alloc Small 0 0 0 0 w = Inr (Inr ?p, w')"
    "k_initialized w'" "k_current_thread w' = k_current_thread w"
    "ready (k_scheduler w) = xs @ ys" "ready (k_scheduler w') = xs @ ?p # ys"
    "k_stack_pool w' = pool'" "s_heap w' = h'" "ah_next (s_threads w') = Suc ?p"
    "ah_room (s_threads w') = ah_room (s_threads w) - 1"
    by (rule spawn_run [OF i init room pool, of 0 0 0 0]) (rule that; assumption)
  have step: "kstep ops alloc w (Spawn (Inr ?p)) w'"
    by (rule kstep.spawn_fn [of _ _ 0 0]) (simp add: spawn_fn_def w')
  show ?thesis
    by (rule that [OF step]) (use w' kernel_step [OF inv step] in \<open>simp_all add: current_def\<close>)
qed

lemma boot_two:
  assumes s: "ok s" "ready s = []" and h: "heap_ok h" "boot_machine m" "2 \<le> room" "Suc room < 2 ^ 64"
    and a1: "pool_allocate alloc h new_stack_pool Small = (Some k1, pool1, h1)"
    and a2: "pool_allocate alloc h1 pool1 Small = (Some k2, pool2, h2)"
  obtains w c d where
    "kernel_run ops alloc (kernel_new s (arc_empty room ws) h m)
       [Init True, Spawn (Inr 1), Spawn (Inr 2), Start] w"
    "current w = Some c" "ready (k_scheduler w) = [d]" "m_save (s_machine w) = c" "m_load (s_machine w) = c"
    "{c, d} = {1, 2}" "c \<noteq> d" "k_initialized w"
proof -
  let ?w0 = "kernel_new s (arc_empty room ws) h m"
  define w1 where "w1 = ?w0\<lparr>k_initialized := True\<rparr>"
  have s1: "kstep ops alloc ?w0 (Init True) w1"
    by (rule kstep.init) (simp add: kernel_init_def w1_def kernel_new_def)
  have i1: "system_inv ready ok taken heap_ok w1"
    using kernel_step [OF kernel_new_inv(1) [OF s h(1,2,4)] s1] by simp
  have w1: "k_initialized w1" "ah_next (s_threads w1) = 1" "current w1 = None"
    "pool_allocate alloc (s_heap w1) (k_stack_pool w1) Small = (Some k1, pool1, h1)" "ready (k_scheduler w1) = []"
    "ah_room (s_threads w1) = room"
    using a1 s by (simp_all add: w1_def kernel_new_def current_def arc_empty_def)
  obtain w2 where w2: "kstep ops alloc w1 (Spawn (Inr 1)) w2" "system_inv ready ok taken heap_ok w2"
    "k_initialized w2" "current w2 = None" "ready (k_scheduler w2) = [1]"
    "k_stack_pool w2 = pool1" "s_heap w2 = h1" "ah_next (s_threads w2) = 2" "ah_room (s_threads w2) = room - 1"
    by (rule spawn_next [OF i1 w1(1) _ w1(4)]) (use h(3) w1 in auto)
  have p2: "ah_room (s_threads w2) \<noteq> 0"
    "pool_allocate alloc (s_heap w2) (k_stack_pool w2) Small = (Some k2, pool2, h2)"
    using h(3) w2(6,7,9) a2 by simp_all
  obtain w3 xs ys where w3: "kstep ops alloc w2 (Spawn (Inr 2)) w3" "system_inv ready ok taken heap_ok w3"
    "k_initialized w3" "current w3 = None" "[1] = xs @ ys" "ready (k_scheduler w3) = xs @ 2 # ys"
    by (rule spawn_next [OF w2(2,3) p2, unfolded w2(4,5,8)]) (rule that; assumption)
  obtain c d where cd: "ready (k_scheduler w3) = [c, d]" "{c, d} = {1, 2}" "c \<noteq> d"
  proof (cases xs)
    case Nil
    with w3(5,6) show ?thesis by (intro that [of 2 1]) auto
  next
    case (Cons x zs)
    with w3(5,6) show ?thesis by (intro that [of 1 2]) auto
  qed
  have i3: "kernel_inv ready ok w3" using w3(2) by (simp add: system_inv_def)
  define now :: instant where "now = Instant 0"
  obtain w4 where w4: "start_first_thread ops now w3 = Inr (Switched, w4)" "current w4 = Some c"
    "ready (k_scheduler w4) = [d]" "k_initialized w4"
    "s_machine w4 = (s_machine w3)\<lparr>m_exec := c, m_save := c, m_load := c, m_live := switch_load
      (m_value (t_context (arc_val (s_threads w3) c))) (m_live (s_machine (disable_interrupts w3)))\<rparr>"
    by (rule start_run [OF i3 w3(4,3) cd(1), where now = now]) (rule that; assumption)
  have "kernel_run ops alloc ?w0 (((([] @ [Init True]) @ [Spawn (Inr 1)]) @ [Spawn (Inr 2)]) @ [Start]) w4"
    using run_nil s1 w2(1) w3(1) kstep.start [OF w4(1)] by (blast intro: run_step)
  then show ?thesis using w4 cd by (intro that [of w4 c d]) simp_all
qed

end

text \<open>The booted example kernels that the witnesses start from.\<close>

definition boot_heap :: bump_heap where
  "boot_heap = \<lparr>heap_start = 0x90000, heap_next = 0\<rparr>"

definition reset_machine :: machine where
  "reset_machine = \<lparr>m_exec = 0, m_save = 0, m_load = 0, m_live = default_context, m_addr = (\<lambda>_. 0)\<rparr>"

lemma boot_heap_ok: "bump_ok boot_heap"
  by (simp add: bump_ok_def boot_heap_def)

lemma reset_machine_boot: "boot_machine reset_machine"
  by (simp add: boot_machine_def reset_machine_def)

lemma boot_stacks:
  obtains k1 pool1 h1 k2 pool2 h2 where
    "pool_allocate (bump_alloc []) boot_heap new_stack_pool Small = (Some k1, pool1, h1)"
    "pool_allocate (bump_alloc []) h1 pool1 Small = (Some k2, pool2, h2)"
proof -
  define r1 where "r1 = pool_allocate (bump_alloc []) boot_heap new_stack_pool Small"
  define r2 where "r2 = pool_allocate (bump_alloc []) (snd (snd r1)) (fst (snd r1)) Small"
  note run = pool_allocate_def allocate_new_stack_def layout_from_size_align_def new_stack_pool_def
    mutex_try_lock_def mutex_unlock_new vec_pop_def bump_candidate_def HEAP_SIZE_def boot_heap_def
  have "fst r1 \<noteq> None" by (simp add: r1_def run Let_def)
  then obtain k1 p1 h1 where 1: "r1 = (Some k1, p1, h1)" by (cases r1) auto
  have "fst r2 \<noteq> None" by (simp add: r2_def r1_def run Let_def)
  then obtain k2 p2 h2 where "r2 = (Some k2, p2, h2)" by (cases r2) auto
  with 1 show ?thesis by (intro that [of k1 p1 h1 k2 p2 h2]) (simp_all add: r1_def r2_def)
qed

lemma fcfs_boot:
  obtains w c d where
    "kernel_run fcfs_ops (bump_alloc []) (kernel_new (fcfs_new []) (arc_empty 5 []) boot_heap reset_machine)
       [Init True, Spawn (Inr 1), Spawn (Inr 2), Start] w"
    "current w = Some c" "fcfs_ready (k_scheduler w) = [d]" "m_save (s_machine w) = c"
    "m_load (s_machine w) = c" "{c, d} = {1, 2}" "c \<noteq> d" "k_initialized w"
proof -
  obtain k1 pool1 h1 k2 pool2 h2 where
    "pool_allocate (bump_alloc []) boot_heap new_stack_pool Small = (Some k1, pool1, h1)"
    "pool_allocate (bump_alloc []) h1 pool1 Small = (Some k2, pool2, h2)" by (rule boot_stacks)
  note b = fcfs_kernel.boot_two [OF fcfs_ok_new boot_heap_ok reset_machine_boot _ _ this, of 5]
  show ?thesis by (rule b) (simp, simp, rule that)
qed

lemma rr_boot:
  obtains w c d where
    "kernel_run rr_ops (bump_alloc []) (kernel_new (rr_new (\<lambda>i l. []) 1) (arc_empty 5 []) boot_heap reset_machine)
       [Init True, Spawn (Inr 1), Spawn (Inr 2), Start] w"
    "current w = Some c" "rr1_ready (k_scheduler w) = [d]" "m_save (s_machine w) = c"
    "m_load (s_machine w) = c" "{c, d} = {1, 2}" "c \<noteq> d" "k_initialized w"
proof -
  obtain k1 pool1 h1 k2 pool2 h2 where
    "pool_allocate (bump_alloc []) boot_heap new_stack_pool Small = (Some k1, pool1, h1)"
    "pool_allocate (bump_alloc []) h1 pool1 Small = (Some k2, pool2, h2)" by (rule boot_stacks)
  note b = rr_kernel.boot_two [OF rr1_ok_new boot_heap_ok reset_machine_boot _ _ this, of 5]
  show ?thesis by (rule b) (simp, simp, rule that)
qed

text \<open>The threads in the order in which they will run, the current one first.\<close>

definition run_order :: "(fcfs, 'h) system \<Rightarrow> ptr list" where
  "run_order w = (case current w of None \<Rightarrow> [] | Some c \<Rightarrow> c # fcfs_ready (k_scheduler w))"

lemma fcfs_requeue:
  assumes "fcfs_ok s" "list_all (arc_live st) (c # fcfs_ready s)"
    "so_enqueue fcfs_ops c s st = Inr s1" "so_pick_next fcfs_ops 0 s1 st = Inr (Some n, s2)"
  shows "n # fcfs_ready s2 = fcfs_ready s @ [c]"
proof -
  have s1: "fcfs_ok s1" "fcfs_ready s1 = fcfs_ready s @ [c]"
    using fcfs_enqueue_run [OF assms(1), of st c] assms(2,3) by (auto simp: fcfs_ops_def)
  then have "list_all (arc_live st) (fcfs_ready s1)" using assms(2) by simp
  from fcfs_pick_run [OF s1(1) this, of 0] assms(4) show ?thesis
    by (auto simp: fcfs_ops_def s1(2) split: list.splits)
qed

lemma fcfs_rotates:
  assumes "kernel_inv fcfs_ready fcfs_ok w" "current w = Some c"
    "\<exists>st1 s1. same_threads (s_threads w) st1 \<and> so_enqueue fcfs_ops c (k_scheduler w) st1 = Inr s1 \<and>
      so_pick_next fcfs_ops 0 s1 st1 = Inr (Some n, k_scheduler w')" "current w' = Some n"
  shows "run_order w' = rotate1 (run_order w)"
proof -
  note i = kernel_invD [OF assms(1)]
  obtain st1 s1 where s: "same_threads (s_threads w) st1" "so_enqueue fcfs_ops c (k_scheduler w) st1 = Inr s1"
    "so_pick_next fcfs_ops 0 s1 st1 = Inr (Some n, k_scheduler w')" using assms(3) by blast
  have "list_all (arc_live st1) (c # fcfs_ready (k_scheduler w))"
    using i(8,9) assms(2) same_threads_live [OF s(1)] by (auto simp: list_all_iff)
  from fcfs_requeue [OF i(1) this s(2,3)] assms(2,4) show ?thesis by (simp add: run_order_def)
qed

section \<open>Thread states\<close>

text \<open>A thread's state says where the kernel has it.\<close>

definition states_ok :: "('s \<Rightarrow> ptr list) \<Rightarrow> ('s, 'h) system \<Rightarrow> bool" where
  "states_ok ready w \<longleftrightarrow> (\<forall>p. arc_live (s_threads w) p \<longrightarrow>
     (thread_in (s_threads w) Running p \<longleftrightarrow> current w = Some p) \<and>
     (thread_in (s_threads w) Ready p \<longleftrightarrow> p \<in> set (ready (k_scheduler w))) \<and>
     (thread_in (s_threads w) Finished p \<longleftrightarrow> current w \<noteq> Some p \<and> p \<notin> set (ready (k_scheduler w)))) \<and>
     distinct (ready (k_scheduler w)) \<and> (\<forall>p. current w = Some p \<longrightarrow> m_exec (s_machine w) = p)"

lemma states_ok_inv:
  assumes "kernel_inv ready ok w" "all_placed ready w"
  shows "states_ok ready w"
proof -
  note i = kernel_invD [OF assms(1)]
  have ex: "s = s'" if "thread_in (s_threads w) s p" "thread_in (s_threads w) s' p" for s s' p
    using that by (simp add: thread_in_def)
  have placed: "current w = Some p \<or> p \<in> set (ready (k_scheduler w)) \<or> thread_in (s_threads w) Finished p"
    if "arc_live (s_threads w) p" for p
    using that assms(2) by (auto simp: all_placed_def schedulable_def split: option.splits)
  show ?thesis
    unfolding states_ok_def
  proof (intro conjI allI impI)
    fix p assume p: "arc_live (s_threads w) p"
    have r: "p \<in> set (ready (k_scheduler w)) \<Longrightarrow> thread_in (s_threads w) Ready p"
      using i(5) by (simp add: list_all_iff)
    show "thread_in (s_threads w) Running p \<longleftrightarrow> current w = Some p"
      using placed [OF p] r i(6) ex by blast
    show "thread_in (s_threads w) Ready p \<longleftrightarrow> p \<in> set (ready (k_scheduler w))"
      using placed [OF p] r i(6) ex by blast
    show "thread_in (s_threads w) Finished p \<longleftrightarrow> current w \<noteq> Some p \<and> p \<notin> set (ready (k_scheduler w))"
      using placed [OF p] r i(6) [of p] ex [of Finished p] by blast
  qed (use i(4,7) in auto)
qed

text \<open>
  C1. No thread is lost and the thread states are true.  In every state that a single-CPU kernel
  with the round-robin scheduler reaches, by any interleaving of \<open>init\<close>, \<open>spawn\<close>, \<open>spawn_fn\<close>,
  \<open>start_first_thread\<close>, \<open>yield_now\<close>, \<open>finish_and_yield\<close>, timer interrupts, thread code and released join
  handles: a thread is Running exactly when it is the current thread, Ready exactly when it waits
  in a run queue, and Finished exactly when it is neither; no thread waits twice; and the CPU
  executes the current thread.
\<close>

theorem kernel_loses_no_thread:
  assumes "kernel_run rr_ops (bump_alloc []) (kernel_new (rr_new wk 1) (arc_empty room ws) h m) es w"
    "bump_ok h" "boot_machine m" "Suc room < 2 ^ 64"
  shows "states_ok rr1_ready w"
proof (rule states_ok_inv)
  show "kernel_inv rr1_ready rr1_ok w" "all_placed rr1_ready w"
    using rr_kernel.reached [OF assms(1) rr1_ok_new assms(2-4)] by (simp_all add: system_inv_def)
qed

theorem kernel_loses_no_thread_witness:
  "\<exists>es w c d. kernel_run rr_ops (bump_alloc [])
       (kernel_new (rr_new (\<lambda>i l. []) 1) (arc_empty 5 []) boot_heap reset_machine) es w \<and>
     states_ok rr1_ready w \<and> current w = Some c \<and> rr1_ready (k_scheduler w) = [d] \<and> {c, d} = {1, 2}"
proof (rule rr_boot)
  fix w c d
  assume r: "kernel_run rr_ops (bump_alloc [])
      (kernel_new (rr_new (\<lambda>i l. []) 1) (arc_empty 5 []) boot_heap reset_machine)
      [Init True, Spawn (Inr 1), Spawn (Inr 2), Start] w"
    and w: "current w = Some c" "rr1_ready (k_scheduler w) = [d]" "{c, d} = {1, 2}"
  have "states_ok rr1_ready w"
    by (rule kernel_loses_no_thread [OF r boot_heap_ok reset_machine_boot]) simp
  with r w show ?thesis by blast
qed

text \<open>
  C12. Threads are isolated.  In every state a first-come-first-served kernel reaches, two different
  threads have different identifiers and stacks that share no byte, every thread owns a stack of
  the memory the allocator handed out, and no identifier is reused.
\<close>

theorem kernel_threads_isolated:
  assumes "kernel_run fcfs_ops (bump_alloc []) (kernel_new (fcfs_new wk) (arc_empty room ws) h m) es w"
    "bump_ok h" "boot_machine m" "Suc room < 2 ^ 64"
  shows "\<forall>p q. arc_live (s_threads w) p \<longrightarrow> arc_live (s_threads w) q \<longrightarrow> p \<noteq> q \<longrightarrow>
    t_id (arc_val (s_threads w) p) \<noteq> t_id (arc_val (s_threads w) q) \<and>
    t_id (arc_val (s_threads w) p) \<noteq> k_next_thread_id w \<and>
    (\<exists>s s'. t_stack (arc_val (s_threads w) p) = Some s \<and> t_stack (arc_val (s_threads w) q) = Some s' \<and>
       stack_region s \<inter> stack_region s' = {} \<and> stack_wf (bump_taken (s_heap w)) s)"
proof (intro allI impI)
  fix p q assume pq: "arc_live (s_threads w) p" "arc_live (s_threads w) q" "p \<noteq> q"
  have inv: "system_inv fcfs_ready fcfs_ok bump_taken bump_ok w"
    by (rule fcfs_kernel.reached(1) [OF assms(1) fcfs_ok_new assms(2-4)])
  then show "t_id (arc_val (s_threads w) p) \<noteq> t_id (arc_val (s_threads w) q) \<and>
    t_id (arc_val (s_threads w) p) \<noteq> k_next_thread_id w \<and>
    (\<exists>s s'. t_stack (arc_val (s_threads w) p) = Some s \<and> t_stack (arc_val (s_threads w) q) = Some s' \<and>
       stack_region s \<inter> stack_region s' = {} \<and> stack_wf (bump_taken (s_heap w)) s)"
    using pq by (intro conjI resources_isolated) (auto simp: system_inv_def kernel_inv_def)
qed

theorem kernel_threads_isolated_witness:
  "\<exists>es w p q. kernel_run fcfs_ops (bump_alloc [])
       (kernel_new (fcfs_new []) (arc_empty 5 []) boot_heap reset_machine) es w \<and>
     arc_live (s_threads w) p \<and> arc_live (s_threads w) q \<and> p \<noteq> q \<and>
     t_id (arc_val (s_threads w) p) \<noteq> t_id (arc_val (s_threads w) q)"
proof (rule fcfs_boot)
  fix w c d
  assume r: "kernel_run fcfs_ops (bump_alloc [])
      (kernel_new (fcfs_new []) (arc_empty 5 []) boot_heap reset_machine)
      [Init True, Spawn (Inr 1), Spawn (Inr 2), Start] w"
    and w: "current w = Some c" "fcfs_ready (k_scheduler w) = [d]" "c \<noteq> d"
  have "system_inv fcfs_ready fcfs_ok bump_taken bump_ok w"
    by (rule fcfs_kernel.reached(1) [OF r fcfs_ok_new boot_heap_ok reset_machine_boot]) simp
  then have "arc_live (s_threads w) c" "arc_live (s_threads w) d"
    using w kernel_invD(8,9) [of fcfs_ready fcfs_ok w] by (auto simp: system_inv_def)
  with kernel_threads_isolated [OF r boot_heap_ok reset_machine_boot] r w(3) show ?thesis by force
qed

text \<open>
  C16. Finished is final.  Once a thread of a reachable kernel is Finished, no further run brings it
  back: it stays Finished, is never current and never waits in a run queue.
\<close>

theorem finished_threads_stay_finished:
  assumes "kernel_run rr_ops (bump_alloc []) (kernel_new (rr_new wk 1) (arc_empty room ws) h m) es w"
    "bump_ok h" "boot_machine m" "Suc room < 2 ^ 64"
    "kernel_run rr_ops (bump_alloc []) w es' w'" "thread_in (s_threads w) Finished p"
  shows "thread_in (s_threads w') Finished p \<and> current w' \<noteq> Some p \<and> p \<notin> set (rr1_ready (k_scheduler w'))"
proof -
  note i = rr_kernel.kernel_run_inv [OF assms(5) rr_kernel.reached [OF assms(1) rr1_ok_new assms(2-4)]]
  then have "thread_in (s_threads w') Finished p" "kernel_inv rr1_ready rr1_ok w'"
    using assms(6) by (simp_all add: system_inv_def)
  then show ?thesis using finished_not_schedulable [of rr1_ready rr1_ok w' p] by (simp add: thread_in_def)
qed

theorem finished_threads_stay_finished_witness:
  "\<exists>es w es' w' p. kernel_run rr_ops (bump_alloc [])
       (kernel_new (rr_new (\<lambda>i l. []) 1) (arc_empty 5 []) boot_heap reset_machine) es w \<and>
     kernel_run rr_ops (bump_alloc []) w es' w' \<and> es' = [Yield] \<and>
     thread_in (s_threads w) Finished p \<and> thread_in (s_threads w') Finished p"
proof (rule rr_boot)
  fix w c d
  let ?w0 = "kernel_new (rr_new (\<lambda>i l. []) 1) (arc_empty 5 []) boot_heap reset_machine"
  assume r: "kernel_run rr_ops (bump_alloc []) ?w0 [Init True, Spawn (Inr 1), Spawn (Inr 2), Start] w"
    and w: "current w = Some c" "rr1_ready (k_scheduler w) = [d]" "k_initialized w"
  have room: "Suc 5 < 2 ^ 64" by simp
  note reach = rr_kernel.reached(1) [OF _ rr1_ok_new boot_heap_ok reset_machine_boot room]
  have i: "kernel_inv rr1_ready rr1_ok w" "control_ok w" using reach [OF r] by (auto simp: system_inv_def)
  obtain w1 where w1: "finish_and_yield rr_ops False (Instant 0) 0 w = Inr (Switched, w1)"
    "current w1 = Some d" "k_initialized w1"
    by (rule rr1.finish_run [OF i(1) w(1,3,2)]) blast
  have r1: "kernel_run rr_ops (bump_alloc []) ?w0 ([Init True, Spawn (Inr 1), Spawn (Inr 2), Start] @ [Finish]) w1"
    by (rule run_step [OF r kstep.finish [OF w1(1)]])
  have f: "thread_in (s_threads w1) Finished c" using rr1.finish_step [OF i w1(1)] w(1) by simp
  have i1: "kernel_inv rr1_ready rr1_ok w1" using reach [OF r1] by (simp add: system_inv_def)
  obtain w2 where "yield_now rr_ops (Instant 0) 0 w1 = Inr (Switched, w2)"
    by (rule rr1.yield_run [OF i1 w1(2,3)]) blast
  then have r2: "kernel_run rr_ops (bump_alloc []) w1 ([] @ [Yield]) w2"
    by (intro run_step [OF run_nil] kstep.yield)
  from finished_threads_stay_finished [OF r1 boot_heap_ok reset_machine_boot room r2 f] r1 r2 f show ?thesis
    by auto
qed

section \<open>Spawning\<close>

text \<open>
  C14. What \<open>spawn\<close> prepares.  On an initialised first-come-first-served kernel with memory left,
  \<open>spawn\<close> succeeds; the new thread is Ready, waits behind all others and has the given priority; its
  saved context enters \<open>thread_trampoline\<close> with the closure pointer in \<open>x0\<close> and the stack pointer at
  the end of a fresh Medium stack; no other thread changes.
\<close>

theorem spawn_prepares_thread:
  assumes "system_inv fcfs_ready fcfs_ok bump_taken bump_ok w" "k_initialized w"
    "ah_room (s_threads w) \<noteq> 0"
    "pool_allocate (bump_alloc []) (s_heap w) (k_stack_pool w) Medium = (Some stk, pool', h')"
  shows "\<exists>p w'. spawn fcfs_ops (bump_alloc []) trampoline empty_fn closure_ptr priority w = Inr (Inr p, w') \<and>
    system_inv fcfs_ready fcfs_ok bump_taken bump_ok w' \<and> \<not> arc_live (s_threads w) p \<and>
    fcfs_ready (k_scheduler w') = fcfs_ready (k_scheduler w) @ [p] \<and> current w' = current w \<and>
    thread_in (s_threads w') Ready p \<and> t_priority (arc_val (s_threads w') p) = priority \<and>
    c_pc (m_value (t_context (arc_val (s_threads w') p))) = trampoline \<and>
    c_x (m_value (t_context (arc_val (s_threads w') p))) 0 = closure_ptr \<and>
    c_sp (m_value (t_context (arc_val (s_threads w') p))) = stack_bottom stk \<and>
    t_stack (arc_val (s_threads w') p) = Some stk \<and> st_size_class stk = Medium \<and>
    (\<forall>q. q \<noteq> p \<longrightarrow> arc_val (s_threads w') q = arc_val (s_threads w) q)"
proof -
  have i: "kernel_inv fcfs_ready fcfs_ok w" "resources_ok bump_taken bump_ok w"
    using assms(1) by (auto simp: system_inv_def)
  let ?p = "ah_next (s_threads w)"
  obtain w' where w': "spawn_thread fcfs_ops (bump_alloc []) Medium empty_fn trampoline closure_ptr priority w = Inr (Inr ?p, w')"
    "k_current_thread w' = k_current_thread w" "thread_in (s_threads w') Ready ?p" "\<not> arc_live (s_threads w) ?p"
    "m_value (t_context (arc_val (s_threads w') ?p)) = initial_context trampoline (stack_bottom stk) closure_ptr"
    "t_priority (arc_val (s_threads w') ?p) = priority" "t_stack (arc_val (s_threads w') ?p) = Some stk" "st_size_class stk = Medium"
    "so_enqueue fcfs_ops ?p (k_scheduler w) (s_threads w') = Inr (k_scheduler w')"
    "\<And>q. q \<noteq> ?p \<Longrightarrow> arc_val (s_threads w') q = arc_val (s_threads w) q"
    by (rule fcfs_kernel.spawn_run [OF i assms(2-4)]) (rule that; assumption)
  have "system_inv fcfs_ready fcfs_ok bump_taken bump_ok w'"
    using fcfs_kernel.spawn_step [OF assms(1) w'(1)] by simp
  moreover have "fcfs_ready (k_scheduler w') = fcfs_ready (k_scheduler w) @ [?p]"
    using fcfs_enqueue_run [OF kernel_invD(1) [OF i(1)], of "s_threads w'" ?p] w'(3,9)
    by (auto simp: thread_in_def fcfs_ops_def)
  ultimately show ?thesis using w'
    by (intro exI [of _ ?p] exI [of _ w']) (simp add: spawn_def current_def initial_context_def)
qed

theorem spawn_prepares_thread_witness:
  "\<exists>(w :: (fcfs, bump_heap) system) p w'.
     spawn fcfs_ops (bump_alloc []) 0x8000 0x9000 0xA000 128 w = Inr (Inr p, w') \<and>
     fcfs_ready (k_scheduler w') = [p] \<and>
     c_pc (m_value (t_context (arc_val (s_threads w') p))) = 0x8000 \<and>
     c_x (m_value (t_context (arc_val (s_threads w') p))) 0 = 0xA000"
proof -
  let ?w0 = "kernel_new (fcfs_new []) (arc_empty 5 []) boot_heap reset_machine"
  define w where "w = ?w0\<lparr>k_initialized := True\<rparr>"
  have "kstep fcfs_ops (bump_alloc []) ?w0 (Init True) w"
    by (rule kstep.init) (simp add: kernel_init_def w_def kernel_new_def)
  then have inv: "system_inv fcfs_ready fcfs_ok bump_taken bump_ok w"
    using fcfs_kernel.kernel_step [OF fcfs_kernel.kernel_new_inv(1)
        [OF fcfs_ok_new boot_heap_ok reset_machine_boot, of 5 "[]" "[]"]] by simp
  define r where "r = pool_allocate (bump_alloc []) boot_heap new_stack_pool Medium"
  have "fst r \<noteq> None"
    by (simp add: r_def pool_allocate_def allocate_new_stack_def layout_from_size_align_def
        new_stack_pool_def mutex_try_lock_def mutex_unlock_new vec_pop_def bump_candidate_def HEAP_SIZE_def
        boot_heap_def Let_def)
  then obtain stk pool h where "r = (Some stk, pool, h)" by (cases r) auto
  then have a: "pool_allocate (bump_alloc []) (s_heap w) (k_stack_pool w) Medium = (Some stk, pool, h)"
    by (simp add: r_def w_def kernel_new_def)
  have w: "k_initialized w" "ah_room (s_threads w) \<noteq> 0" "fcfs_ready (k_scheduler w) = []"
    using fcfs_ok_new by (simp_all add: w_def kernel_new_def arc_empty_def)
  from spawn_prepares_thread [OF inv w(1,2) a, of "0x8000" "0x9000" "0xA000" 128] w(3) show ?thesis
    by auto
qed

section \<open>Registers\<close>

text \<open>
  The registers of a thread: those of the CPU while it runs, its saved context otherwise.  The
  interrupt pointers are linked when they point to the current thread.
\<close>

definition thread_regs :: "('s, 'h) system \<Rightarrow> ptr \<Rightarrow> aarch64_context" where
  "thread_regs w q = (if current w = Some q then m_live (s_machine w)
     else m_value (t_context (arc_val (s_threads w) q)))"

definition irq_linked :: "('s, 'h) system \<Rightarrow> bool" where
  "irq_linked w \<longleftrightarrow> current w \<noteq> None \<and> current w = Some (m_save (s_machine w)) \<and>
     current w = Some (m_load (s_machine w))"

lemma rr_timer_transparent:
  assumes "kernel_inv rr1_ready rr1_ok w" "control_ok w" "irq_linked w"
  obtains w' where "timer_irq (handle_irq_preemption rr_ops now) w = Inr w'" "irq_linked w'"
    "kernel_inv rr1_ready rr1_ok w'" "control_ok w'" "schedulable rr1_ready w' = schedulable rr1_ready w"
    "\<And>q. arc_live (s_threads w) q \<Longrightarrow> thread_regs w' q = thread_regs w q"
proof -
  obtain c where c: "current w = Some c" "m_save (s_machine w) = c" using assms(3) by (auto simp: irq_linked_def)
  obtain w' n where w': "timer_irq (handle_irq_preemption rr_ops now) w = Inr w'" "kernel_inv rr1_ready rr1_ok w'"
    "current w' = Some n" "schedulable rr1_ready w' = schedulable rr1_ready w"
    "\<And>q. m_value (t_context (arc_val (s_threads w') q)) = (if q = m_save (s_machine w) \<and> q \<noteq> 0
      then m_live (s_machine w) else m_value (t_context (arc_val (s_threads w) q)))"
    "s_machine w' = (s_machine w)\<lparr>m_exec := n, m_save := n, m_load := n,
      m_live := m_value (t_context (arc_val (s_threads w') n))\<rparr>"
    by (rule rr1.timer_run [OF assms(1) c(1) control_ok_current [OF assms(2) c(1)] assms(2), where now = now])
      (rule that; assumption)
  have ctl: "control_ok w'" using rr1.timer_step [OF assms(1,2) w'(1)] by (simp add: good_step_def)
  have regs: "thread_regs w' q = thread_regs w q" if "arc_live (s_threads w) q" for q
    using store_ok_live [OF kernel_invD(3) [OF assms(1)] that] w'(3,5,6) c by (simp add: thread_regs_def)
  have "irq_linked w'" using w'(3,6) by (simp add: irq_linked_def)
  from w'(1) this w'(2) ctl w'(4) regs show thesis by (rule that)
qed



text \<open>
  C17. Yielding breaks preemption.  \<open>yield_now\<close> switches threads without moving the interrupt
  pointers.  If the current thread of a linked first-come-first-served kernel yields to the next
  thread and that one is then preempted by the timer with registers \<open>regs\<close>, these registers
  overwrite the saved context of the thread that yielded, and the preempted thread keeps the
  context it had before it ran.
\<close>

theorem yield_then_timer_corrupts_contexts:
  assumes "kernel_inv fcfs_ready fcfs_ok w" "control_ok w" "irq_linked w" "current w = Some c"
    "fcfs_ready (k_scheduler w) = n # rs"
  shows "\<exists>w1 w2. yield_now fcfs_ops now resume w = Inr (Switched, w1) \<and> current w1 = Some n \<and>
    timer_irq (handle_irq_preemption fcfs_ops now')
      (w1\<lparr>s_machine := (s_machine w1)\<lparr>m_live := regs\<rparr>\<rparr>) = Inr w2 \<and>
    m_value (t_context (arc_val (s_threads w2) c)) = regs \<and>
    m_value (t_context (arc_val (s_threads w2) n)) = m_value (t_context (arc_val (s_threads w) n))"
proof -
  note i = kernel_invD [OF assms(1)]
  have c: "m_save (s_machine w) = c" "c \<noteq> 0" "n \<noteq> c"
    using assms(3-5) store_ok_live [OF i(3) i(9) [OF assms(4)]] i(10) [OF assms(4)] by (auto simp: irq_linked_def)
  obtain w1 n' where w1: "yield_now fcfs_ops now resume w = Inr (Switched, w1)" "kernel_inv fcfs_ready fcfs_ok w1"
    "current w1 = Some n'" "k_initialized w1"
    "\<exists>st1 s1. same_threads (s_threads w) st1 \<and> so_enqueue fcfs_ops c (k_scheduler w) st1 = Inr s1 \<and>
      so_pick_next fcfs_ops 0 s1 st1 = Inr (Some n', k_scheduler w1)"
    "\<And>q. m_value (t_context (arc_val (s_threads w1) q)) = (if q = c
      then switch_save (m_addr (s_machine w) c) (m_addr (s_machine w) n') resume
        (m_live (s_machine (disable_interrupts w)))
      else m_value (t_context (arc_val (s_threads w) q)))"
    "s_machine w1 = (s_machine w)\<lparr>m_exec := n', m_live := switch_load
      (m_value (t_context (arc_val (s_threads w1) n'))) (m_live (s_machine (disable_interrupts w)))\<rparr>"
    by (rule fcfs.yield_run [OF assms(1,4) control_ok_current [OF assms(2,4)], where now = now and resume = resume])
      (rule that; assumption)
  have n': "n' = n"
    using fcfs_rotates [OF assms(1,4) w1(5,3)] w1(3) assms(4,5) by (simp add: run_order_def)
  define v where "v = w1\<lparr>s_machine := (s_machine w1)\<lparr>m_live := regs\<rparr>\<rparr>"
  have v: "kernel_inv fcfs_ready fcfs_ok v" "current v = Some n" "k_initialized v" "control_ok v"
    "m_save (s_machine v) = c" "m_live (s_machine v) = regs" "s_threads v = s_threads w1"
    using kernel_inv_cong [OF w1(2), of v] fcfs.yield_step [OF assms(1,2) w1(1)] w1(3,4,7) n' c
    by (simp_all add: v_def current_def good_step_def control_ok_def)
  obtain w2 where w2: "timer_irq (handle_irq_preemption fcfs_ops now') v = Inr w2"
    "\<And>q. m_value (t_context (arc_val (s_threads w2) q)) = (if q = m_save (s_machine v) \<and> q \<noteq> 0
      then m_live (s_machine v) else m_value (t_context (arc_val (s_threads v) q)))"
    by (rule fcfs.timer_run [OF v(1-4), where now = now']) (rule that; assumption)
  show ?thesis
    using w1(1,3,6) w2 v(5-7) c n' by (intro exI [of _ w1] exI [of _ w2]) (simp add: v_def)
qed

theorem yield_then_timer_corrupts_contexts_witness:
  "\<exists>(w :: (fcfs, bump_heap) system) w1 w2 c d. c \<noteq> d \<and> current w = Some c \<and>
     yield_now fcfs_ops (Instant 1) 0x8000 w = Inr (Switched, w1) \<and>
     timer_irq (handle_irq_preemption fcfs_ops (Instant 2))
       (w1\<lparr>s_machine := (s_machine w1)\<lparr>m_live := default_context\<rparr>\<rparr>) = Inr w2 \<and>
     m_value (t_context (arc_val (s_threads w2) c)) = default_context"
proof (rule fcfs_boot)
  fix w c d
  assume r: "kernel_run fcfs_ops (bump_alloc [])
      (kernel_new (fcfs_new []) (arc_empty 5 []) boot_heap reset_machine)
      [Init True, Spawn (Inr 1), Spawn (Inr 2), Start] w"
    and w: "current w = Some c" "fcfs_ready (k_scheduler w) = [d]" "m_save (s_machine w) = c"
      "m_load (s_machine w) = c" "c \<noteq> d"
  have "system_inv fcfs_ready fcfs_ok bump_taken bump_ok w"
    by (rule fcfs_kernel.reached(1) [OF r fcfs_ok_new boot_heap_ok reset_machine_boot]) simp
  then have i: "kernel_inv fcfs_ready fcfs_ok w" "control_ok w" by (simp_all add: system_inv_def)
  have l: "irq_linked w" using w by (simp add: irq_linked_def)
  from yield_then_timer_corrupts_contexts [OF i l w(1,2), of "Instant 1" "0x8000" "Instant 2" default_context] w(1,5)
  show ?thesis by blast
qed

section \<open>Starting and finishing\<close>

lemma switch_load_masked: "\<not> interrupts_enabled (w\<lparr>s_machine := (s_machine w)
    \<lparr>m_live := switch_load n (m_live (s_machine (disable_interrupts w)))\<rparr>\<rparr>)"
proof -
  have "bit (c_pstate (switch_load n (m_live (s_machine (disable_interrupts w)))) AND IRQ_BIT) 7"
    by (simp add: switch_load_def disable_interrupts_def set_pstate_def IRQ_BIT_def NZCV_MASK_def bit_simps)
  then have "c_pstate (switch_load n (m_live (s_machine (disable_interrupts w)))) AND IRQ_BIT \<noteq> 0"
    by (rule contrapos_pn) simp
  then show ?thesis by (simp add: interrupts_enabled_def)
qed

text \<open>
  C11. Starting the first thread.  \<open>start_first_thread\<close> on an initialised kernel with waiting threads and
  no current one transfers control to the first waiting thread with the registers, stack pointer and
  program counter its context holds, and links the interrupt pointers.  Interrupts stay masked:
  the switch restores only the condition flags, so a thread that does not enable them itself,
  as one made by \<open>spawn_fn\<close>, is never preempted.
\<close>

theorem first_thread_starts:
  assumes "kernel_inv rr1_ready rr1_ok w" "current w = None" "k_initialized w"
    "rr1_ready (k_scheduler w) = n # rs"
  shows "\<exists>w'. start_first_thread rr_ops now w = Inr (Switched, w') \<and> kernel_inv rr1_ready rr1_ok w' \<and>
    current w' = Some n \<and> rr1_ready (k_scheduler w') = rs \<and> irq_linked w' \<and>
    thread_in (s_threads w') Running n \<and> \<not> interrupts_enabled w' \<and>
    (\<forall>i. i \<noteq> 11 \<longrightarrow> c_x (m_live (s_machine w')) i = c_x (thread_regs w n) i) \<and>
    c_sp (m_live (s_machine w')) = c_sp (thread_regs w n) \<and>
    c_pc (m_live (s_machine w')) = c_pc (thread_regs w n)"
proof -
  obtain w' where w': "start_first_thread rr_ops now w = Inr (Switched, w')" "kernel_inv rr1_ready rr1_ok w'"
    "current w' = Some n" "rr1_ready (k_scheduler w') = rs"
    "s_machine w' = (s_machine w)\<lparr>m_exec := n, m_save := n, m_load := n, m_live := switch_load
      (m_value (t_context (arc_val (s_threads w) n))) (m_live (s_machine (disable_interrupts w)))\<rparr>"
    by (rule rr1.start_run [OF assms, where now = now]) (rule that; assumption)
  have "\<not> interrupts_enabled w'"
    using switch_load_masked [where w = w] by (simp add: interrupts_enabled_def w'(5))
  then show ?thesis using w' kernel_invD(6) [OF w'(2,3)] assms(2)
    by (intro exI [of _ w']) (simp add: irq_linked_def thread_regs_def switch_load_def)
qed

theorem first_thread_starts_witness:
  "\<exists>(w :: (round_robin, bump_heap) system) w' n. start_first_thread rr_ops (Instant 4) w = Inr (Switched, w') \<and>
     current w' = Some n \<and> irq_linked w' \<and> \<not> interrupts_enabled w'"
proof -
  define w :: "(round_robin, bump_heap) system" where "w = (kernel_new (rr_new (\<lambda>i l. []) 1) (arc_empty 5 []) boot_heap reset_machine)\<lparr>k_initialized := True\<rparr>"
  obtain k1 pool1 h1 k2 pool2 h2 where
    a: "pool_allocate (bump_alloc []) boot_heap new_stack_pool Small = (Some k1, pool1, h1)"
    "pool_allocate (bump_alloc []) h1 pool1 Small = (Some k2, pool2, h2)" by (rule boot_stacks)
  have s0: "kstep rr_ops (bump_alloc []) (kernel_new (rr_new (\<lambda>i l. []) 1) (arc_empty 5 []) boot_heap reset_machine)
      (Init True) w"
    by (rule kstep.init) (simp add: kernel_init_def w_def kernel_new_def)
  have i: "system_inv rr1_ready rr1_ok bump_taken bump_ok w"
    using rr_kernel.kernel_step [OF rr_kernel.kernel_new_inv(1)
        [OF rr1_ok_new boot_heap_ok reset_machine_boot] s0] by simp
  have w: "k_initialized w" "ah_room (s_threads w) \<noteq> 0" "current w = None" "rr1_ready (k_scheduler w) = []"
    "pool_allocate (bump_alloc []) (s_heap w) (k_stack_pool w) Small = (Some k1, pool1, h1)"
    using a(1) rr1_ok_new by (simp_all add: w_def kernel_new_def arc_empty_def current_def)
  obtain v where v: "system_inv rr1_ready rr1_ok bump_taken bump_ok v" "k_initialized v" "current v = None"
    "rr1_ready (k_scheduler v) = [ah_next (s_threads w)]"
    by (rule rr_kernel.spawn_next [OF i w(1,2,5), unfolded w(3,4)]) auto
  have "kernel_inv rr1_ready rr1_ok v" using v(1) by (simp add: system_inv_def)
  from first_thread_starts [OF this v(3,2,4), of "Instant 4"] show ?thesis by blast
qed

text \<open>
  C12. The last thread finishes.  When the current thread of a round-robin kernel finishes and nobody
  waits, \<open>finish_and_yield\<close> marks it Finished, leaves no current thread and returns to the caller,
  provided a join handle still refers to the thread.  If the kernel's reference is the last one,
  giving it up reaches \<open>unimplemented!()\<close> in the bare-metal build.
\<close>

theorem last_thread_finishes:
  assumes "kernel_inv rr1_ready rr1_ok w" "current w = Some c" "k_initialized w" "rr1_ready (k_scheduler w) = []"
  shows "if arc_cnt (s_threads w) c = 1
    then finish_and_yield rr_ops False now resume w = Inl Unimplemented
    else \<exists>w'. finish_and_yield rr_ops False now resume w = Inr (Returned, w') \<and>
      kernel_inv rr1_ready rr1_ok w' \<and> current w' = None \<and> thread_in (s_threads w') Finished c \<and>
      schedulable rr1_ready w' = {#}"
proof -
  have live: "arc_live (s_threads w) c" by (rule kernel_invD(9) [OF assms(1,2)])
  show ?thesis
    using rr1.finish_alone [OF assms, of now resume] live
    by (auto simp: thread_in_def schedulable_def same_threads_live)
qed

theorem last_thread_finishes_witness:
  "\<exists>(w :: (round_robin, bump_heap) system) c. current w = Some c \<and>
     (if arc_cnt (s_threads w) c = 1
      then finish_and_yield rr_ops False (Instant 0) 0x8000 w = Inl Unimplemented
      else \<exists>w'. finish_and_yield rr_ops False (Instant 0) 0x8000 w = Inr (Returned, w') \<and> current w' = None)"
proof (rule rr_boot)
  fix w c d
  assume r: "kernel_run rr_ops (bump_alloc [])
      (kernel_new (rr_new (\<lambda>i l. []) 1) (arc_empty 5 []) boot_heap reset_machine)
      [Init True, Spawn (Inr 1), Spawn (Inr 2), Start] w"
    and w: "current w = Some c" "rr1_ready (k_scheduler w) = [d]" "k_initialized w"
  have "system_inv rr1_ready rr1_ok bump_taken bump_ok w"
    by (rule rr_kernel.reached(1) [OF r rr1_ok_new boot_heap_ok reset_machine_boot]) simp
  then have "kernel_inv rr1_ready rr1_ok w" by (simp add: system_inv_def)
  then obtain w1 :: "(round_robin, bump_heap) system" where
    w1: "kernel_inv rr1_ready rr1_ok w1" "current w1 = Some d" "k_initialized w1"
    "rr1_ready (k_scheduler w1) = []"
    by (rule rr1.finish_run [OF _ w(1,3,2), where now = "Instant 0" and resume = 0 and std_shim = False])
      (rule that; assumption)
  from last_thread_finishes [OF w1, of "Instant 0" "0x8000"] w1(2) show ?thesis
    by (intro exI [of _ w1] exI [of _ d]) (auto split: if_splits)
qed

end
