(* ===== verification/Context_Switch.thy ===== *)
theory Context_Switch
  imports Aarch64
begin

text \<open>
  \<open>Arch::context_switch\<close> of \<open>arch/aarch64.rs\<close>, instruction by instruction.  \<open>rp\<close> and \<open>rn\<close> are
  the registers the compiler chose for the operands \<open>prev\<close> and \<open>next\<close> (never x10 to x13, which
  the block declares as outputs), \<open>resume\<close> is the address of the label \<open>1:\<close> behind the branch.
\<close>

definition save_block :: "nat \<Rightarrow> nat \<Rightarrow> u64 \<Rightarrow> instr list" where
  "save_block rp rn resume =
    [Mov 12 rp, Mov 13 rn,
     MovFromSP 11, Str 11 (XB 12) 248,
     Adr 11 resume, Str 11 (XB 12) 256,
     Mrs 11 NZCV, Str 11 (XB 12) 264,
     Stp 0 1 (XB 12) 0, Stp 2 3 (XB 12) 16, Stp 4 5 (XB 12) 32, Stp 6 7 (XB 12) 48,
     Str 8 (XB 12) 64, Str 9 (XB 12) 72,
     Stp 10 11 (XB 12) 80, Stp 12 13 (XB 12) 96, Stp 14 15 (XB 12) 112,
     Stp 16 17 (XB 12) 128, Stp 18 19 (XB 12) 144, Stp 20 21 (XB 12) 160,
     Stp 22 23 (XB 12) 176, Stp 24 25 (XB 12) 192, Stp 26 27 (XB 12) 208,
     Stp 28 29 (XB 12) 224, Str 30 (XB 12) 240]"

definition load_block :: "instr list" where
  "load_block =
    [Ldr 11 (XB 13) 248, MovToSP 11,
     Ldr 11 (XB 13) 264, Msr NZCV 11,
     Ldp 0 1 (XB 13) 0, Ldp 2 3 (XB 13) 16, Ldp 4 5 (XB 13) 32, Ldp 6 7 (XB 13) 48,
     Ldr 8 (XB 13) 64, Ldr 9 (XB 13) 72,
     Ldp 14 15 (XB 13) 112, Ldp 16 17 (XB 13) 128, Ldp 18 19 (XB 13) 144,
     Ldp 20 21 (XB 13) 160, Ldp 22 23 (XB 13) 176, Ldp 24 25 (XB 13) 192,
     Ldp 26 27 (XB 13) 208, Ldp 28 29 (XB 13) 224, Ldr 30 (XB 13) 240,
     Ldr 11 (XB 13) 256,
     Ldp 10 12 (XB 13) 80,
     Ldp 12 13 (XB 13) 96]"

definition context_switch_asm :: "nat \<Rightarrow> nat \<Rightarrow> u64 \<Rightarrow> instr list" where
  "context_switch_asm rp rn resume = save_block rp rn resume @ load_block @ [Br 11]"

definition context_switch :: "nat \<Rightarrow> nat \<Rightarrow> u64 \<Rightarrow> cpu \<Rightarrow> cpu res" where
  "context_switch rp rn resume = exec (\<lambda>_. Inl Hang) (context_switch_asm rp rn resume)"

definition operand_reg :: "nat \<Rightarrow> bool" where
  "operand_reg r \<longleftrightarrow> r < 31 \<and> r \<notin> {10, 11, 12, 13}"

section \<open>The two halves\<close>

text \<open>What the save half leaves in the context record.\<close>

definition saved_by_switch :: "u64 \<Rightarrow> u64 \<Rightarrow> u64 \<Rightarrow> cpu \<Rightarrow> aarch64_context" where
  "saved_by_switch p n resume s =
     \<lparr>c_x = (\<lambda>i. if i < 31 then ((gpr s)(11 := nzcv s, 12 := p, 13 := n)) i else 0),
      c_sp = sp s, c_pc = resume, c_pstate = nzcv s\<rparr>"

lemma save_block_run:
  fixes s :: cpu and resume :: u64
  assumes "operand_reg rp" "operand_reg rn"
  defines "p \<equiv> gpr s rp" and "n \<equiv> gpr s rn"
  defines "s' \<equiv> run_straight (save_block rp rn resume) s"
  shows "gpr s' = (gpr s)(11 := nzcv s, 12 := p, 13 := n)"
    and "s' = s\<lparr>gpr := gpr s', mem := mem s'\<rparr>"
    and "\<And>a. a \<notin> ctx_cells p \<Longrightarrow> mem s' a = mem s a"
    and "ctx_at (mem s') p = saved_by_switch p n resume s"
proof -
  have r: "rp \<noteq> 11" "rp \<noteq> 12" "rn \<noteq> 11" "rn \<noteq> 12" "rn \<noteq> 13" "rp \<noteq> 13"
    using assms(1,2) by (auto simp: operand_reg_def)
  show g: "gpr s' = (gpr s)(11 := nzcv s, 12 := p, 13 := n)"
    using r by (simp add: s'_def save_block_def p_def n_def Let_def fun_eq_iff)
  show "s' = s\<lparr>gpr := gpr s', mem := mem s'\<rparr>"
    by (simp add: s'_def save_block_def Let_def set_gpr_def store_def)
  show "mem s' a = mem s a" if "a \<notin> ctx_cells p" for a
    using that r unfolding ctx_cells_explicit
    by (simp add: s'_def save_block_def p_def Let_def)
  have "c_x (ctx_at (mem s') p) i = c_x (saved_by_switch p n resume s) i" for i
  proof (cases "i < 31")
    case True
    then have "i \<in> {0,1,2,3,4,5,6,7,8,9,10,11,12,13,14,15,16,17,18,19,20,21,22,23,24,25,26,27,28,29,30}"
      by (rule less31_cases)
    then show ?thesis
      by (elim insertE emptyE) (use r in \<open>simp_all add: ctx_at_def saved_by_switch_def s'_def
        save_block_def p_def n_def Let_def\<close>)
  qed (simp add: ctx_at_def saved_by_switch_def)
  then show "ctx_at (mem s') p = saved_by_switch p n resume s"
    using r by (simp add: fun_eq_iff ctx_at_def saved_by_switch_def s'_def save_block_def p_def n_def
        Let_def)
qed

lemma load_block_run:
  fixes s :: cpu
  defines "c \<equiv> ctx_at (mem s) (gpr s 13)"
  defines "s' \<equiv> run_straight load_block s"
  shows "\<And>i. i < 31 \<Longrightarrow> gpr s' i = (if i = 11 then c_pc c else c_x c i)"
    and "s' = s\<lparr>gpr := gpr s', sp := c_sp c, nzcv := c_pstate c AND NZCV_MASK\<rparr>"
proof -
  show "gpr s' i = (if i = 11 then c_pc c else c_x c i)" if "i < 31" for i
    using less31_cases [OF that]
    by (elim insertE emptyE)
      (simp_all add: c_def s'_def ctx_at_def load_block_def Let_def)
  show "s' = s\<lparr>gpr := gpr s', sp := c_sp c, nzcv := c_pstate c AND NZCV_MASK\<rparr>"
    by (simp add: c_def s'_def ctx_at_def load_block_def Let_def set_gpr_def)
qed

lemma context_switch_eq:
  "context_switch rp rn resume s =
     (let s2 = run_straight load_block (run_straight (save_block rp rn resume) s)
      in Inr (s2\<lparr>pc := gpr s2 11\<rparr>))"
proof -
  have "list_all straight (save_block rp rn resume)" "list_all straight load_block"
    by (simp_all add: save_block_def load_block_def)
  then show ?thesis
    by (simp add: context_switch_def context_switch_asm_def exec_straight Let_def)
qed

section \<open>The abstract switch\<close>

text \<open>
  What resuming a context through \<open>context_switch\<close> means: every register but x11 comes from it,
  and so do the stack pointer, the condition flags and the program counter, which x11 carries.
\<close>

definition resumed :: "aarch64_context \<Rightarrow> cpu \<Rightarrow> bool" where
  "resumed c s \<longleftrightarrow> (\<forall>i < 31. gpr s i = (if i = 11 then c_pc c else c_x c i)) \<and>
     sp s = c_sp c \<and> pc s = c_pc c \<and> nzcv s = c_pstate c AND NZCV_MASK"

lemma context_switch_run:
  assumes "operand_reg rp" "operand_reg rn" "gpr s rp = p" "gpr s rn = n"
  obtains s' where "context_switch rp rn resume s = Inr s'"
    "ctx_at (mem s') p = saved_by_switch p n resume s"
    "\<And>a. a \<notin> ctx_cells p \<Longrightarrow> mem s' a = mem s a"
    "resumed (ctx_at (mem s') n) s'"
    "daif s' = daif s" "el_mode s' = el_mode s"
proof -
  define s1 where "s1 = run_straight (save_block rp rn resume) s"
  define s2 where "s2 = run_straight load_block s1"
  note sv = save_block_run [OF assms(1,2), where s = s and resume = resume, folded s1_def,
      unfolded assms(3,4)]
  note ld = load_block_run(1) [of _ s1, folded s2_def] load_block_run(2) [of s1, folded s2_def]
  have b: "gpr s1 13 = n" using sv(1) by simp
  have m2: "mem s2 = mem s1" "sp s2 = c_sp (ctx_at (mem s1) n)"
    "nzcv s2 = c_pstate (ctx_at (mem s1) n) AND NZCV_MASK"
    "daif s2 = daif s1" "el_mode s2 = el_mode s1"
    using arg_cong [OF ld(2), of mem] arg_cong [OF ld(2), of sp] arg_cong [OF ld(2), of nzcv]
      arg_cong [OF ld(2), of daif] arg_cong [OF ld(2), of el_mode] b
    by simp_all
  have m1: "daif s1 = daif s" "el_mode s1 = el_mode s"
    using arg_cong [OF sv(2), of daif] arg_cong [OF sv(2), of el_mode] by simp_all
  show ?thesis
  proof (rule that [of "s2\<lparr>pc := gpr s2 11\<rparr>"])
    show "context_switch rp rn resume s = Inr (s2\<lparr>pc := gpr s2 11\<rparr>)"
      by (simp add: context_switch_eq s1_def s2_def Let_def)
    show "resumed (ctx_at (mem (s2\<lparr>pc := gpr s2 11\<rparr>)) n) (s2\<lparr>pc := gpr s2 11\<rparr>)"
      using ld(1) b m2 by (simp add: resumed_def)
  qed (use sv m1 m2 in \<open>simp_all\<close>)
qed

section \<open>Properties\<close>

text \<open>
  C1. \<open>context_switch\<close> implements the abstract switch.  For two context records that do not overlap,
  or for one and the same record, the assembly terminates, saves the caller's registers, stack
  pointer, flags and the address behind the switch into \<open>prev\<close>, resumes exactly what \<open>next\<close>
  holds, and touches no memory outside \<open>prev\<close> and no interrupt mask.
\<close>

theorem context_switch_saves_and_resumes:
  assumes "operand_reg rp" "operand_reg rn"
    and "gpr s rp = gpr s rn \<or> ctx_apart (gpr s rp) (gpr s rn)"
  shows "\<exists>s'. context_switch rp rn resume s = Inr s' \<and>
    ctx_at (mem s') (gpr s rp) = saved_by_switch (gpr s rp) (gpr s rn) resume s \<and>
    resumed (if gpr s rp = gpr s rn then saved_by_switch (gpr s rp) (gpr s rn) resume s
             else ctx_at (mem s) (gpr s rn)) s' \<and>
    (\<forall>a. a \<notin> ctx_cells (gpr s rp) \<longrightarrow> mem s' a = mem s a) \<and> daif s' = daif s"
proof -
  obtain s' where s': "context_switch rp rn resume s = Inr s'"
    "ctx_at (mem s') (gpr s rp) = saved_by_switch (gpr s rp) (gpr s rn) resume s"
    "\<And>a. a \<notin> ctx_cells (gpr s rp) \<Longrightarrow> mem s' a = mem s a"
    "resumed (ctx_at (mem s') (gpr s rn)) s'" "daif s' = daif s"
    by (rule context_switch_run [OF assms(1,2) refl refl]) blast
  have "ctx_at (mem s') (gpr s rn) = ctx_at (mem s) (gpr s rn)" if "ctx_apart (gpr s rp) (gpr s rn)"
    using that s'(3) by (intro ctx_at_frame) (auto simp: ctx_apart_def)
  then show ?thesis using s' assms(3) by (intro exI [of _ s']) auto
qed

definition example_cpu :: cpu where
  "example_cpu = \<lparr>gpr = (\<lambda>i. of_nat i)(0 := 0x1000, 1 := 0x2000), sp = 0x8000, pc = 0x400,
     nzcv = 0, daif = 0x3C0, el_mode = 5, elr_el1 = 0, spsr_el1 = 0, esr_el1 = 0, far_el1 = 0,
     mem = (\<lambda>a. a + 1)\<rparr>"

lemma example_apart: "ctx_apart 0x1000 0x2000" "ctx_apart 0x2000 0x1000"
  by (rule ctx_apart_below; simp)+

theorem context_switch_saves_and_resumes_witness:
  "\<exists>s'. context_switch 0 1 0x500 example_cpu = Inr s' \<and> pc s' = 0x2101 \<and> sp s' = 0x20F9 \<and>
     c_pc (ctx_at (mem s') 0x1000) = 0x500"
proof -
  obtain s' where "context_switch 0 1 0x500 example_cpu = Inr s'"
    "ctx_at (mem s') 0x1000 = saved_by_switch 0x1000 0x2000 0x500 example_cpu"
    "resumed (ctx_at (mem example_cpu) 0x2000) s'"
    using context_switch_saves_and_resumes [of 0 1 example_cpu "0x500"] example_apart
    by (auto simp: operand_reg_def example_cpu_def)
  then show ?thesis
    by (intro exI [of _ s']) (simp add: resumed_def saved_by_switch_def ctx_at_def example_cpu_def)
qed



end
