(* ===== verification/Machine_Refinement.thy ===== *)
theory Machine_Refinement
  imports Kernel_Properties Context_Switch
begin

text \<open>
  The kernel model's view of the processor against the assembly: \<open>arch_context_switch\<close> is
  implemented by the instructions of \<open>context_switch\<close>, and \<open>timer_irq\<close> by those of \<open>irq_el1h\<close>
  around a compiled handler.  The relation between the two levels says that the live registers are
  those of the CPU and that every thread's context lies in memory at its address.
\<close>

section \<open>The relation\<close>

definition contexts_rel :: "('s, 'h) system \<Rightarrow> dmem \<Rightarrow> bool" where
  "contexts_rel w m \<longleftrightarrow>
     (\<forall>q. arc_live (s_threads w) q \<longrightarrow>
        ctx_at m (m_addr (s_machine w) q) = m_value (t_context (arc_val (s_threads w) q))) \<and>
     (\<forall>q r. arc_live (s_threads w) q \<longrightarrow> arc_live (s_threads w) r \<longrightarrow> q \<noteq> r \<longrightarrow>
        ctx_apart (m_addr (s_machine w) q) (m_addr (s_machine w) r))"

definition machine_rel :: "('s, 'h) system \<Rightarrow> cpu \<Rightarrow> bool" where
  "machine_rel w s \<longleftrightarrow> m_live (s_machine w) = interrupted_context s \<and> pstate_ok s \<and> contexts_rel w (mem s)"

lemma contexts_rel_store:
  assumes rel: "contexts_rel w m" and live: "arc_live (s_threads w) p"
    and at: "ctx_at m' (m_addr (s_machine w) p) = c"
    and frame: "\<And>a q. arc_live (s_threads w) q \<Longrightarrow> q \<noteq> p \<Longrightarrow> a \<in> ctx_cells (m_addr (s_machine w) q) \<Longrightarrow> m' a = m a"
    and st: "same_threads (s_threads w) (s_threads w')" "m_addr (s_machine w') = m_addr (s_machine w)"
    "\<And>q. m_value (t_context (arc_val (s_threads w') q)) = (if q = p then c
       else m_value (t_context (arc_val (s_threads w) q)))"
  shows "contexts_rel w' m'"
proof -
  have "ctx_at m' (m_addr (s_machine w) q) = ctx_at m (m_addr (s_machine w) q)"
    if "arc_live (s_threads w) q" "q \<noteq> p" for q
    using frame [OF that] by (intro ctx_at_frame)
  then show ?thesis using rel at st by (simp add: contexts_rel_def same_threads_live)
qed

lemma switch_save_saved:
  "pstate_ok s \<Longrightarrow> switch_save p n resume (interrupted_context s) = saved_by_switch p n resume s"
  by (auto simp: switch_save_def saved_by_switch_def interrupted_context_def pstate_fields fun_eq_iff)

lemma pstate_low:
  assumes "pstate_ok s"
  shows "pstate_of s AND NOT NZCV_MASK = daif s OR el_mode s"
proof -
  have "daif s = pstate_of s AND DAIF_MASK" "el_mode s = pstate_of s AND MODE_MASK"
    "nzcv s = pstate_of s AND NZCV_MASK" by (simp_all add: pstate_fields [OF assms])
  then have eq: "pstate_of s = (pstate_of s AND NZCV_MASK) OR (pstate_of s AND DAIF_MASK) OR (pstate_of s AND MODE_MASK)"
    by (metis pstate_of_def or.assoc)
  have "DAIF_MASK AND NZCV_MASK = 0" "MODE_MASK AND NZCV_MASK = 0"
    by (simp_all add: NZCV_MASK_def DAIF_MASK_def MODE_MASK_def)
  from this [THEN arg_cong, of "\<lambda>v. bit v n" for n]
  have apart: "\<not> (bit DAIF_MASK n \<and> bit NZCV_MASK n)" "\<not> (bit MODE_MASK n \<and> bit NZCV_MASK n)" for n
    by (simp_all add: bit_and_iff)
  have "((a AND NZCV_MASK) OR (a AND DAIF_MASK) OR (a AND MODE_MASK)) AND NOT NZCV_MASK =
      (a AND DAIF_MASK) OR (a AND MODE_MASK)" for a
    by (rule bit_word_eqI) (use apart in \<open>auto simp: bit_simps\<close>)
  then show ?thesis using eq by (metis pstate_fields(2,3) [OF assms])
qed

lemma switch_load_resumed:
  assumes "resumed (ctx_at m n) s'" "pstate_ok s" "daif s' = daif s" "el_mode s' = el_mode s"
  shows "interrupted_context s' = switch_load (ctx_at m n) (interrupted_context s)"
proof -
  have "pstate_of s' = (c_pstate (ctx_at m n) AND NZCV_MASK) OR (pstate_of s AND NOT NZCV_MASK)"
    using assms by (simp add: pstate_of_def [of s'] resumed_def pstate_low [OF assms(2)] or.assoc)
  then show ?thesis using assms(1)
    by (auto simp: interrupted_context_def switch_load_def resumed_def fun_eq_iff ctx_at_def)
qed

section \<open>Refinement\<close>

text \<open>
  C8. The kernel's context switch is what the assembly does.  If the memory holds the threads'
  contexts at their addresses, apart from each other, and the operands hold the addresses of two
  threads' contexts, then the instructions of \<open>context_switch\<close> run to the end and take the
  processor to a state that again corresponds to the kernel state after \<open>arch_context_switch\<close>.
\<close>

theorem context_switch_refines:
  assumes rel: "machine_rel w s" and live: "arc_live (s_threads w) p" "arc_live (s_threads w) n"
    and r: "operand_reg rp" "operand_reg rn"
      "gpr s rp = m_addr (s_machine w) p" "gpr s rn = m_addr (s_machine w) n"
  shows "\<exists>w' s'. arch_context_switch resume p n w = Inr w' \<and> context_switch rp rn resume s = Inr s' \<and>
    machine_rel w' s'"
proof -
  let ?p = "m_addr (s_machine w) p" and ?n = "m_addr (s_machine w) n"
  have ok: "pstate_ok s" and lv: "m_live (s_machine w) = interrupted_context s"
    and cr: "contexts_rel w (mem s)" using rel by (auto simp: machine_rel_def)
  obtain s' where s': "context_switch rp rn resume s = Inr s'"
    "ctx_at (mem s') ?p = saved_by_switch ?p ?n resume s" "\<And>a. a \<notin> ctx_cells ?p \<Longrightarrow> mem s' a = mem s a"
    "resumed (ctx_at (mem s') ?n) s'" "daif s' = daif s" "el_mode s' = el_mode s"
    by (rule context_switch_run [OF r]) blast
  obtain w' where w': "arch_context_switch resume p n w = Inr w'" "same_threads (s_threads w) (s_threads w')"
    "\<And>q. m_value (t_context (arc_val (s_threads w') q)) =
      (if q = p then switch_save ?p ?n resume (m_live (s_machine w))
       else m_value (t_context (arc_val (s_threads w) q)))"
    "s_machine w' = (s_machine w)\<lparr>m_exec := n,
      m_live := switch_load (m_value (t_context (arc_val (s_threads w') n))) (m_live (s_machine w))\<rparr>"
    by (rule arch_context_switch_run [OF live, where resume = resume]) (rule that; assumption)
  have cr': "contexts_rel w' (mem s')"
  proof (rule contexts_rel_store [OF cr live(1) s'(2) _ w'(2)])
    show "mem s' a = mem s a" if "arc_live (s_threads w) q" "q \<noteq> p" "a \<in> ctx_cells (m_addr (s_machine w) q)" for a q
      using cr live(1) that by (intro s'(3)) (auto simp: contexts_rel_def ctx_apart_def)
  qed (simp_all add: w'(3,4) lv switch_save_saved [OF ok])
  have "m_value (t_context (arc_val (s_threads w') n)) = ctx_at (mem s') ?n"
    using cr' live(2) w'(2,4) by (simp add: contexts_rel_def same_threads_live)
  then have "m_live (s_machine w') = interrupted_context s'"
    using switch_load_resumed [OF s'(4) ok s'(5,6)] by (simp add: w'(4) lv)
  moreover have "pstate_ok s'" using ok s'(4-6) by (auto simp: pstate_ok_def resumed_def and.assoc)
  ultimately show ?thesis using w'(1) s'(1) cr' by (auto simp: machine_rel_def)
qed

text \<open>Three threads with default contexts at 0x1000, 0x2000 and 0x3000.\<close>

definition example_system :: "cpu \<Rightarrow> (fcfs, bump_heap) system" where
  "example_system s = kernel_new (fcfs_new []) (example_threads 0) boot_heap
     \<lparr>m_exec = 1, m_save = 1, m_load = 1, m_live = interrupted_context s, m_addr = (\<lambda>q. 0x1000 * of_nat q)\<rparr>"

definition example_state :: cpu where
  "example_state = \<lparr>gpr = (\<lambda>i. of_nat i)(0 := 0x1000, 1 := 0x2000), sp = 0x8000, pc = 0x400,
     nzcv = 0, daif = 0, el_mode = 5, elr_el1 = 0, spsr_el1 = 0, esr_el1 = 0, far_el1 = 0,
     mem = (\<lambda>a. 0)(0x1108 := 0x3c5, 0x2108 := 0x3c5, 0x3108 := 0x3c5, 0x100 := 0x1000, 0x108 := 0x1000)\<rparr>"

lemma example_ctx_apart:
  "ctx_apart 0x1000 0x2000" "ctx_apart 0x2000 0x1000" "ctx_apart 0x1000 0x3000" "ctx_apart 0x3000 0x1000"
  "ctx_apart 0x2000 0x3000" "ctx_apart 0x3000 0x2000"
  by (rule ctx_apart_below; simp)+

lemma example_machine_rel: "machine_rel (example_system example_state) example_state"
proof -
  have st: "s_threads (example_system example_state) = example_threads 0"
    "m_addr (s_machine (example_system example_state)) = (\<lambda>q. 0x1000 * of_nat q)"
    "m_live (s_machine (example_system example_state)) = interrupted_context example_state"
    by (simp_all add: example_system_def kernel_new_def)
  have z: "mem example_state (p + 8 * of_nat i) = 0" if "i < 31" "p \<in> {0x1000, 0x2000, 0x3000}" for p i
    using less31_cases [OF that(1)] that(2) by (elim insertE emptyE) (simp_all add: example_state_def)
  have "ctx_at (mem example_state) p = default_context" if "p \<in> {0x1000, 0x2000, 0x3000}" for p
    using that z [OF _ that] by (elim insertE emptyE)
      (auto simp: ctx_at_def default_context_def fun_eq_iff, simp_all add: example_state_def)
  moreover have "m_value (t_context (arc_val (example_threads 0) q)) = default_context" if "q \<in> {1, 2, 3}" for q
    using that by (auto simp: example_threads_def new_thread_inner_def arc_val_def mutex_new_def)
  ultimately have "contexts_rel (example_system example_state) (mem example_state)"
    using example_ctx_apart by (auto simp: contexts_rel_def st example_threads_live)
  moreover have "pstate_ok example_state"
    by (simp add: example_state_def pstate_ok_def NZCV_MASK_def DAIF_MASK_def MODE_MASK_def)
  ultimately show ?thesis by (simp add: machine_rel_def st)
qed

theorem context_switch_refines_witness:
  "\<exists>w' s'. arch_context_switch 0x500 1 2 (example_system example_state) = Inr w' \<and>
     context_switch 0 1 0x500 example_state = Inr s' \<and> machine_rel w' s'"
proof (rule context_switch_refines [OF example_machine_rel])
  show "arc_live (s_threads (example_system example_state)) 1" "arc_live (s_threads (example_system example_state)) 2"
    by (simp_all add: example_system_def kernel_new_def example_threads_live)
qed (simp_all add: operand_reg_def example_state_def example_system_def kernel_new_def)

section \<open>The timer interrupt\<close>

text \<open>
  The handler the vector calls is compiled Rust; what the entry needs of it is that it implements
  the kernel's handler on the memory that holds the contexts and \<open>IRQ_LOAD_CTX\<close>.
\<close>

definition irq_rel :: "irq_symbols \<Rightarrow> ('s, 'h) system \<Rightarrow> dmem \<Rightarrow> bool" where
  "irq_rel y w m \<longleftrightarrow> contexts_rel w m \<and> m (sym_load y) = m_addr (s_machine w) (m_load (s_machine w))"

definition handler_refines ::
  "irq_symbols \<Rightarrow> (('s, 'h) system \<Rightarrow> ('s, 'h) system res) \<Rightarrow> (cpu \<Rightarrow> cpu res) \<Rightarrow> bool" where
  "handler_refines y handler irq_handler \<longleftrightarrow> (\<forall>w h w'. irq_rel y w (mem h) \<longrightarrow> handler w = Inr w' \<longrightarrow>
     (\<exists>h'. irq_handler h = Inr h' \<and> irq_rel y w' (mem h')))"

text \<open>The kernel's statics and contexts lie apart from each other and from the interrupted stack.\<close>

definition irq_layout :: "irq_symbols \<Rightarrow> ('s, 'h) system \<Rightarrow> cpu \<Rightarrow> bool" where
  "irq_layout y w s \<longleftrightarrow>
     mem s (sym_save y) = m_addr (s_machine w) (m_save (s_machine w)) \<and>
     sym_save y \<notin> spill_cells (sp s - 64) \<and> sym_load y \<notin> spill_cells (sp s - 64) \<and>
     (\<forall>q. arc_live (s_threads w) q \<longrightarrow> m_addr (s_machine w) q \<noteq> 0 \<and>
        sym_load y \<notin> ctx_cells (m_addr (s_machine w) q) \<and>
        spill_cells (sp s - 64) \<inter> ctx_cells (m_addr (s_machine w) q) = {})"

definition pstate_valid :: "u64 \<Rightarrow> bool" where
  "pstate_valid v \<longleftrightarrow> v = (v AND NZCV_MASK) OR (v AND DAIF_MASK) OR (v AND MODE_MASK)"

lemma irq_resumed_context:
  assumes "irq_resumed (ctx_at m p) s'" "pstate_valid (c_pstate (ctx_at m p))"
  shows "interrupted_context s' = ctx_at m p" "pstate_ok s'"
  using assms by (auto simp: irq_resumed_def interrupted_context_def pstate_of_def pstate_valid_def
      pstate_ok_def ctx_at_def fun_eq_iff and.assoc)



end
