(* ===== verification/Arch_Timer.thy ===== *)
theory Arch_Timer
  imports Prelude
begin

text \<open>
  The generic timer as \<open>arch/aarch64.rs\<close> programs it: the system registers, the frequency cached in
  the static \<open>TIMER_FREQ\<close>, arming the preemption timer and the conversions between ticks and
  nanoseconds.  The first argument of the arithmetic operations says whether the build checks for
  overflow.
\<close>

record generic_timer =
  cntfrq_el0 :: u64
  cntpct_el0 :: u64
  cntp_cval_el0 :: u64
  cntp_ctl_el0 :: u64
  TIMER_FREQ :: u64

text \<open>
  The timer's interrupt line: enabled (bit 0), not masked (bit 1), and the counter has reached the
  compare value.
\<close>

definition timer_condition :: "generic_timer \<Rightarrow> bool" where
  "timer_condition t \<longleftrightarrow> cntp_cval_el0 t \<le> cntpct_el0 t"

definition timer_line :: "generic_timer \<Rightarrow> bool" where
  "timer_line t \<longleftrightarrow> bit (cntp_ctl_el0 t) 0 \<and> \<not> bit (cntp_ctl_el0 t) 1 \<and> timer_condition t"

section \<open>Operations\<close>

definition arch_init :: "generic_timer \<Rightarrow> generic_timer" where
  "arch_init t = t\<lparr>TIMER_FREQ := cntfrq_el0 t, cntp_ctl_el0 := 1\<rparr>"

text \<open>\<open>False\<close> is the error \<open>Timer frequency not initialized\<close>.\<close>

definition setup_preemption_timer ::
  "bool \<Rightarrow> u32 \<Rightarrow> generic_timer \<Rightarrow> (bool \<times> generic_timer) res" where
  "setup_preemption_timer checks interval_us t =
     (let freq = TIMER_FREQ t
      in if freq = 0 then Inr (False, t)
         else
           rbind (mul_u checks freq (ucast interval_us)) (\<lambda>product.
           rbind (div_u product 1000000) (\<lambda>ticks.
           rbind (add_u checks (cntpct_el0 t) ticks) (\<lambda>compare_val.
             Inr (True, t\<lparr>cntp_cval_el0 := compare_val, cntp_ctl_el0 := 1\<rparr>)))))"

definition get_timestamp :: "generic_timer \<Rightarrow> u64" where
  "get_timestamp t = cntpct_el0 t"

definition ticks_to_ns :: "bool \<Rightarrow> u64 \<Rightarrow> generic_timer \<Rightarrow> u64 res" where
  "ticks_to_ns checks ticks t =
     (let freq = TIMER_FREQ t
      in if freq = 0 then Inr 0
         else rbind (mul_u checks ticks 1000000000) (\<lambda>p. div_u p freq))"

definition ns_to_ticks :: "bool \<Rightarrow> u64 \<Rightarrow> generic_timer \<Rightarrow> u64 res" where
  "ns_to_ticks checks ns t =
     (let freq = TIMER_FREQ t
      in if freq = 0 then Inr 0
         else rbind (mul_u checks ns freq) (\<lambda>p. div_u p 1000000000))"

text \<open>What the timer's part of the interrupt handler does first: mask the timer.\<close>

definition mask_timer :: "generic_timer \<Rightarrow> generic_timer" where
  "mask_timer t = t\<lparr>cntp_ctl_el0 := 2\<rparr>"

section \<open>Lemmas\<close>

lemma ticks_to_ns_fits:
  assumes "TIMER_FREQ t \<noteq> 0" "unat ticks * 1000000000 < 2 ^ 64"
  shows "\<exists>ns. ticks_to_ns checks ticks t = Inr ns \<and> unat ns = unat ticks * 1000000000 div unat (TIMER_FREQ t)"
proof -
  have "unat (1000000000 :: u64) = 1000000000" by simp
  then have m: "unat ticks * unat (1000000000 :: u64) < 2 ^ LENGTH(64)" using assms(2) by simp
  show ?thesis using assms mul_u_fits(1) [OF m, of checks] mul_u_fits(2) [OF m]
    by (simp add: ticks_to_ns_def Let_def unat_div)
qed

lemma ns_to_ticks_fits:
  assumes "TIMER_FREQ t \<noteq> 0" "unat ns * unat (TIMER_FREQ t) < 2 ^ 64"
  shows "\<exists>k. ns_to_ticks checks ns t = Inr k \<and> unat k = unat ns * unat (TIMER_FREQ t) div 1000000000"
proof -
  have m: "unat ns * unat (TIMER_FREQ t) < 2 ^ LENGTH(64)" using assms(2) by simp
  show ?thesis using assms mul_u_fits(1) [OF m, of checks] mul_u_fits(2) [OF m]
    by (simp add: ns_to_ticks_def Let_def unat_div)
qed

lemma setup_timer_fits:
  assumes "TIMER_FREQ t \<noteq> 0" "unat (TIMER_FREQ t) * unat us < 2 ^ 64"
    "unat (cntpct_el0 t) + unat (TIMER_FREQ t) * unat us div 1000000 < 2 ^ 64"
  shows "\<exists>t'. setup_preemption_timer checks us t = Inr (True, t') \<and>
    unat (cntp_cval_el0 t') = unat (cntpct_el0 t) + unat (TIMER_FREQ t) * unat us div 1000000 \<and>
    t' = t\<lparr>cntp_cval_el0 := cntp_cval_el0 t', cntp_ctl_el0 := 1\<rparr>"
proof -
  have u: "unat (ucast us :: u64) = unat us" by (rule unat_ucast_up) simp
  have m: "unat (TIMER_FREQ t) * unat (ucast us :: u64) < 2 ^ LENGTH(64)" using assms(2) u by simp
  define k where "k = TIMER_FREQ t * ucast us div 1000000"
  have k: "unat k = unat (TIMER_FREQ t) * unat us div 1000000"
    using mul_u_fits(2) [OF m] u by (simp add: k_def unat_div)
  have "add_u checks (cntpct_el0 t) k = Inr (cntpct_el0 t + k)"
    using assms(3) k by (simp add: add_u_def)
  moreover have "unat (cntpct_el0 t + k) = unat (cntpct_el0 t) + unat k"
    using assms(3) k by (simp add: unat_word_ariths(1))
  ultimately show ?thesis using assms(1) mul_u_fits(1) [OF m, of checks] k
    by (simp add: setup_preemption_timer_def Let_def k_def [symmetric])
qed

section \<open>Properties\<close>

text \<open>
  C37. The preemption timer fires exactly on time.  Once \<open>init\<close> has run on a machine with a nonzero
  counter frequency, arming the timer for an interval succeeds (as long as the products fit in 64
  bits), the interrupt line is quiet while fewer ticks than the interval holds have passed, and
  it is raised from the tick that completes the interval on.  Before \<open>init\<close> it reports an error
  and changes nothing.
\<close>

theorem preemption_timer_fires_on_time:
  assumes "cntfrq_el0 t \<noteq> 0" "unat (cntfrq_el0 t) * unat us < 2 ^ 64"
    "unat (cntpct_el0 t) + unat (cntfrq_el0 t) * unat us div 1000000 < 2 ^ 64"
  shows "\<exists>t'. setup_preemption_timer checks us (arch_init t) = Inr (True, t') \<and>
    (\<forall>n. cntpct_el0 t \<le> n \<longrightarrow> (timer_line (t'\<lparr>cntpct_el0 := n\<rparr>) \<longleftrightarrow>
       unat (cntfrq_el0 t) * unat us div 1000000 \<le> unat n - unat (cntpct_el0 t))) \<and>
    setup_preemption_timer checks us (t\<lparr>TIMER_FREQ := 0\<rparr>) = Inr (False, t\<lparr>TIMER_FREQ := 0\<rparr>)"
proof -
  obtain t' where t': "setup_preemption_timer checks us (arch_init t) = Inr (True, t')"
    "unat (cntp_cval_el0 t') = unat (cntpct_el0 t) + unat (cntfrq_el0 t) * unat us div 1000000"
    "t' = (arch_init t)\<lparr>cntp_cval_el0 := cntp_cval_el0 t', cntp_ctl_el0 := 1\<rparr>"
    using setup_timer_fits [of "arch_init t" us checks] assms by (auto simp: arch_init_def)
  have ctl: "cntp_ctl_el0 t' = 1" using arg_cong [OF t'(3), of cntp_ctl_el0] by simp
  have "timer_line (t'\<lparr>cntpct_el0 := n\<rparr>) \<longleftrightarrow>
      unat (cntfrq_el0 t) * unat us div 1000000 \<le> unat n - unat (cntpct_el0 t)"
    if "cntpct_el0 t \<le> n" for n
    using that t'(2) ctl by (auto simp: timer_line_def timer_condition_def word_le_nat_alt bit_1_iff)
  then show ?thesis using t'(1) by (auto simp: setup_preemption_timer_def)
qed

definition example_timer :: generic_timer where
  "example_timer = \<lparr>cntfrq_el0 = 62500000, cntpct_el0 = 1000, cntp_cval_el0 = 0, cntp_ctl_el0 = 0, TIMER_FREQ = 0\<rparr>"

theorem preemption_timer_fires_on_time_witness:
  "\<exists>t'. setup_preemption_timer True 1000 (arch_init example_timer) = Inr (True, t') \<and>
     \<not> timer_line (t'\<lparr>cntpct_el0 := 63499\<rparr>) \<and> timer_line (t'\<lparr>cntpct_el0 := 63500\<rparr>)"
proof -
  from preemption_timer_fires_on_time [of example_timer 1000 True] obtain t' where
    t': "setup_preemption_timer True 1000 (arch_init example_timer) = Inr (True, t')"
    "\<And>n. 1000 \<le> n \<Longrightarrow> timer_line (t'\<lparr>cntpct_el0 := n\<rparr>) \<longleftrightarrow> 62500 \<le> unat n - 1000"
    by (auto simp: example_timer_def)
  from t'(2) [of 63499] t'(2) [of 63500] t'(1) show ?thesis by (intro exI [of _ t']) simp
qed

text \<open>
  C2. Tick conversions.  While the products fit in 64 bits, converting nanoseconds to ticks and back
  never gains time and loses less than one tick plus one nanosecond, and both conversions are the exact
  quotients.  In a build without overflow checks \<open>ticks_to_ns\<close> is wrong from
  \<open>2 ^ 64 div 10 ^ 9 + 1\<close> ticks on: the largest result it can return is below \<open>2 ^ 64 div freq + 1\<close>.
\<close>

theorem tick_conversions:
  assumes "TIMER_FREQ t \<noteq> 0" "unat ns * unat (TIMER_FREQ t) < 2 ^ 64"
    "(unat ns * unat (TIMER_FREQ t) div 1000000000) * 1000000000 < 2 ^ 64"
  shows "(\<exists>k ns'. ns_to_ticks checks ns t = Inr k \<and> ticks_to_ns checks k t = Inr ns' \<and>
      ns' \<le> ns \<and> (unat ns - unat ns' - 1) * unat (TIMER_FREQ t) < 1000000000) \<and>
    (\<forall>ticks ns''. ticks_to_ns False ticks t = Inr ns'' \<longrightarrow> unat ns'' \<le> 2 ^ 64 div unat (TIMER_FREQ t))"
proof -
  let ?f = "unat (TIMER_FREQ t)"
  have f: "0 < ?f" using assms(1) by (simp add: unat_gt_0)
  obtain k where k: "ns_to_ticks checks ns t = Inr k" "unat k = unat ns * ?f div 1000000000"
    using ns_to_ticks_fits [OF assms(1,2)] by blast
  obtain ns' where ns': "ticks_to_ns checks k t = Inr ns'" "unat ns' = unat k * 1000000000 div ?f"
    using ticks_to_ns_fits [OF assms(1), of k checks] assms(3) k(2) by auto
  have "unat k * 1000000000 \<le> unat ns * ?f" "unat ns * ?f < unat k * 1000000000 + 1000000000"
    using k(2) div_mult_mod_eq [of "unat ns * ?f" 1000000000]
      mod_less_divisor [of 1000000000 "unat ns * ?f"] by linarith+
  moreover have "unat ns' * ?f \<le> unat k * 1000000000" "unat k * 1000000000 < unat ns' * ?f + ?f"
    using div_mult_mod_eq [of "unat k * 1000000000" ?f] mod_less_divisor [OF f, of "unat k * 1000000000"]
    unfolding ns'(2) by linarith+
  ultimately have b: "unat ns' * ?f \<le> unat ns * ?f" "unat ns * ?f < unat ns' * ?f + ?f + 1000000000"
    by linarith+
  then have "unat ns' \<le> unat ns" using f by simp
  moreover have "(unat ns - unat ns' - 1) * ?f < 1000000000"
    using b f by (cases "unat ns = unat ns'") (auto simp: diff_mult_distrib)
  moreover have "unat ns'' \<le> 2 ^ 64 div ?f" if "ticks_to_ns False ticks t = Inr ns''" for ticks ns''
  proof -
    have "ns'' = ticks * 1000000000 div TIMER_FREQ t"
      using that assms(1) by (simp add: ticks_to_ns_def Let_def mul_u_def)
    then have "unat ns'' = unat (ticks * 1000000000) div ?f" by (simp add: unat_div)
    moreover have "unat (ticks * 1000000000) < 2 ^ LENGTH(64)" by (rule unsigned_less)
    then have "unat (ticks * 1000000000) \<le> 2 ^ 64" by simp
    ultimately show ?thesis using div_le_mono by metis
  qed
  ultimately show ?thesis using k(1) ns'(1) by (auto simp: word_le_nat_alt)
qed

theorem tick_conversions_witness:
  "\<exists>k ns'. ns_to_ticks True 1000000 (arch_init example_timer) = Inr k \<and>
     ticks_to_ns True k (arch_init example_timer) = Inr ns' \<and> ns' \<le> 1000000"
  using tick_conversions [of "arch_init example_timer" 1000000 True]
  by (simp add: example_timer_def arch_init_def) blast

end
