(* ===== verification/Mmio.thy ===== *)
theory Mmio
  imports Prelude
begin

text \<open>
  Memory-mapped device registers.  The drivers reach their devices by volatile 32-bit reads and
  writes (\<open>core::ptr::read_volatile\<close> and \<open>write_volatile\<close>) at fixed addresses; a device behind the
  bus has some state \<open>'d\<close>, and a read may change it.
\<close>

record 'd bus =
  read_volatile :: "usize \<Rightarrow> 'd \<Rightarrow> u32 \<times> 'd"
  write_volatile :: "usize \<Rightarrow> u32 \<Rightarrow> 'd \<Rightarrow> 'd"

text \<open>A bus that records what is written and answers reads from a table of registers.\<close>

record register_file =
  rf_regs :: "usize \<Rightarrow> u32"
  rf_log :: "(usize \<times> u32) list"

definition register_bus :: "register_file bus" where
  "register_bus = \<lparr>read_volatile = (\<lambda>a d. (rf_regs d a, d)),
     write_volatile = (\<lambda>a v d. d\<lparr>rf_regs := (rf_regs d)(a := v), rf_log := rf_log d @ [(a, v)]\<rparr>)\<rparr>"

end
