(* ===== verification/Gic.thy ===== *)
theory Gic
  imports Mmio
begin

text \<open>
  The GIC-400 driver of \<open>arch/aarch64_gic.rs\<close>.  The driver talks to the device through volatile
  32-bit reads and writes at addresses; the device itself is
  the distributor and CPU interface of the GICv2 architecture specification that the source cites,
  as far as the driver uses them.  Reading the acknowledge register changes the device, so reads
  return a new device too.
\<close>

section \<open>Addresses\<close>

definition GICD_BASE :: "bool \<Rightarrow> usize" where
  "GICD_BASE qemu_virt = (if qemu_virt then 0x08000000 else 0xFF841000)"

definition GICC_BASE :: "bool \<Rightarrow> usize" where
  "GICC_BASE qemu_virt = (if qemu_virt then 0x08010000 else 0xFF842000)"

definition GICD_CTLR :: usize where "GICD_CTLR = 0x000"
definition GICD_TYPER :: usize where "GICD_TYPER = 0x004"
definition GICD_ISENABLER :: usize where "GICD_ISENABLER = 0x100"
definition GICD_ICENABLER :: usize where "GICD_ICENABLER = 0x180"
definition GICD_ISPENDR :: usize where "GICD_ISPENDR = 0x200"
definition GICD_ICPENDR :: usize where "GICD_ICPENDR = 0x280"
definition GICD_IPRIORITYR :: usize where "GICD_IPRIORITYR = 0x400"
definition GICD_ITARGETSR :: usize where "GICD_ITARGETSR = 0x800"
definition GICD_ICFGR :: usize where "GICD_ICFGR = 0xC00"
definition GICC_CTLR :: usize where "GICC_CTLR = 0x000"
definition GICC_PMR :: usize where "GICC_PMR = 0x004"
definition GICC_BPR :: usize where "GICC_BPR = 0x008"
definition GICC_IAR :: usize where "GICC_IAR = 0x00C"
definition GICC_EOIR :: usize where "GICC_EOIR = 0x010"
definition GICC_RPR :: usize where "GICC_RPR = 0x014"
definition GICC_HPPIR :: usize where "GICC_HPPIR = 0x018"

definition TIMER_IRQ :: u32 where "TIMER_IRQ = 30"
definition VTIMER_IRQ :: u32 where "VTIMER_IRQ = 27"
definition SPURIOUS_IRQ :: u32 where "SPURIOUS_IRQ = 1023"

lemmas gic_offsets = GICD_CTLR_def GICD_TYPER_def GICD_ISENABLER_def GICD_ICENABLER_def
  GICD_ISPENDR_def GICD_ICPENDR_def GICD_IPRIORITYR_def GICD_ITARGETSR_def GICD_ICFGR_def
  GICC_CTLR_def GICC_PMR_def GICC_BPR_def GICC_IAR_def GICC_EOIR_def GICC_RPR_def GICC_HPPIR_def

section \<open>The driver\<close>

text \<open>\<open>for i in (a..n).step_by(k)\<close>.\<close>

definition step_by :: "nat \<Rightarrow> nat \<Rightarrow> nat \<Rightarrow> nat list" where
  "step_by a n k = map (\<lambda>j. a + j * k) [0..<(n - a + k - 1) div k]"

text \<open>A loop that writes \<open>v\<close> to the address \<open>addr i\<close> for every \<open>i\<close> of the range.\<close>

definition write_range :: "'d bus \<Rightarrow> (nat \<Rightarrow> usize) \<Rightarrow> u32 \<Rightarrow> nat list \<Rightarrow> 'd \<Rightarrow> 'd" where
  "write_range b addr v is d = fold (\<lambda>i. write_volatile b (addr i) v) is d"

definition init_cpu_interface :: "bool \<Rightarrow> 'd bus \<Rightarrow> 'd \<Rightarrow> 'd" where
  "init_cpu_interface qemu b d =
     (let d1 = write_volatile b (GICC_BASE qemu + GICC_PMR) 0xFF d;
          d2 = write_volatile b (GICC_BASE qemu + GICC_BPR) 0 d1
      in write_volatile b (GICC_BASE qemu + GICC_CTLR) 1 d2)"

definition gic_init :: "bool \<Rightarrow> 'd bus \<Rightarrow> 'd \<Rightarrow> bool \<times> 'd" where
  "gic_init qemu b d0 =
     (case read_volatile b (GICD_BASE qemu + GICD_TYPER) d0 of (typer, d1) \<Rightarrow>
       if typer = 0xFFFFFFFF \<or> typer = 0 then (False, d1)
       else
         (let d2 = write_volatile b (GICD_BASE qemu + GICD_CTLR) 0 d1
          in case read_volatile b (GICD_BASE qemu + GICD_TYPER) d2 of (typer, d3) \<Rightarrow>
            let num_irqs = unat (((typer AND 0x1F) + 1) * 32);
                d4 = write_range b (\<lambda>i. GICD_BASE qemu + GICD_ICENABLER + of_nat (i div 32) * 4)
                       0xFFFFFFFF (step_by 0 num_irqs 32) d3;
                d5 = write_range b (\<lambda>i. GICD_BASE qemu + GICD_ICPENDR + of_nat (i div 32) * 4)
                       0xFFFFFFFF (step_by 0 num_irqs 32) d4;
                d6 = write_range b (\<lambda>i. GICD_BASE qemu + GICD_IPRIORITYR + of_nat i)
                       0xFFFFFFFF (step_by 0 num_irqs 4) d5;
                d7 = write_range b (\<lambda>i. GICD_BASE qemu + GICD_ITARGETSR + of_nat i)
                       0x01010101 (step_by 32 num_irqs 4) d6;
                d8 = write_range b (\<lambda>i. GICD_BASE qemu + GICD_ICFGR + of_nat (i div 16) * 4)
                       0 (step_by 0 num_irqs 16) d7;
                d9 = write_volatile b (GICD_BASE qemu + GICD_CTLR) 1 d8
            in (True, init_cpu_interface qemu b d9)))"

definition reg_offset :: "u32 \<Rightarrow> usize" where
  "reg_offset irq = ucast (irq div 32) * 4"

definition irq_bit :: "u32 \<Rightarrow> u32" where
  "irq_bit irq = push_bit (unat (irq mod 32)) 1"

definition enable_irq :: "bool \<Rightarrow> 'd bus \<Rightarrow> u32 \<Rightarrow> 'd \<Rightarrow> 'd" where
  "enable_irq qemu b irq =
     write_volatile b (GICD_BASE qemu + GICD_ISENABLER + reg_offset irq) (irq_bit irq)"

definition disable_irq :: "bool \<Rightarrow> 'd bus \<Rightarrow> u32 \<Rightarrow> 'd \<Rightarrow> 'd" where
  "disable_irq qemu b irq =
     write_volatile b (GICD_BASE qemu + GICD_ICENABLER + reg_offset irq) (irq_bit irq)"

definition gic_set_priority :: "bool \<Rightarrow> 'd bus \<Rightarrow> u32 \<Rightarrow> u8 \<Rightarrow> 'd \<Rightarrow> 'd" where
  "gic_set_priority qemu b irq priority d =
     (let off = (ucast irq :: usize);
          byte_offset = unat (off AND 3);
          reg_addr = GICD_BASE qemu + GICD_IPRIORITYR + (off AND NOT 3)
      in case read_volatile b reg_addr d of (val, d1) \<Rightarrow>
        let val1 = val AND NOT (push_bit (byte_offset * 8) 0xFF);
            val2 = val1 OR push_bit (byte_offset * 8) (ucast priority)
        in write_volatile b reg_addr val2 d1)"

definition enable_timer_interrupt :: "bool \<Rightarrow> 'd bus \<Rightarrow> 'd \<Rightarrow> 'd" where
  "enable_timer_interrupt qemu b d =
     enable_irq qemu b TIMER_IRQ (gic_set_priority qemu b TIMER_IRQ 0x80 d)"

definition disable_timer_interrupt :: "bool \<Rightarrow> 'd bus \<Rightarrow> 'd \<Rightarrow> 'd" where
  "disable_timer_interrupt qemu b d = disable_irq qemu b TIMER_IRQ d"

definition acknowledge_interrupt :: "bool \<Rightarrow> 'd bus \<Rightarrow> 'd \<Rightarrow> u32 \<times> 'd" where
  "acknowledge_interrupt qemu b d =
     (case read_volatile b (GICC_BASE qemu + GICC_IAR) d of (v, d1) \<Rightarrow> (v AND 0x3FF, d1))"

definition end_interrupt :: "bool \<Rightarrow> 'd bus \<Rightarrow> u32 \<Rightarrow> 'd \<Rightarrow> 'd" where
  "end_interrupt qemu b irq d = write_volatile b (GICC_BASE qemu + GICC_EOIR) irq d"

definition running_priority :: "bool \<Rightarrow> 'd bus \<Rightarrow> 'd \<Rightarrow> u32 \<times> 'd" where
  "running_priority qemu b d =
     (case read_volatile b (GICC_BASE qemu + GICC_RPR) d of (v, d1) \<Rightarrow> (v AND 0xFF, d1))"

definition highest_pending :: "bool \<Rightarrow> 'd bus \<Rightarrow> 'd \<Rightarrow> u32 \<times> 'd" where
  "highest_pending qemu b d =
     (case read_volatile b (GICC_BASE qemu + GICC_HPPIR) d of (v, d1) \<Rightarrow> (v AND 0x3FF, d1))"

definition is_pending :: "bool \<Rightarrow> 'd bus \<Rightarrow> u32 \<Rightarrow> 'd \<Rightarrow> bool \<times> 'd" where
  "is_pending qemu b irq d =
     (case read_volatile b (GICD_BASE qemu + GICD_ISPENDR + reg_offset irq) d of
        (v, d1) \<Rightarrow> (v AND irq_bit irq \<noteq> 0, d1))"

definition set_pending :: "bool \<Rightarrow> 'd bus \<Rightarrow> u32 \<Rightarrow> 'd \<Rightarrow> 'd" where
  "set_pending qemu b irq =
     write_volatile b (GICD_BASE qemu + GICD_ISPENDR + reg_offset irq) (irq_bit irq)"

definition clear_pending :: "bool \<Rightarrow> 'd bus \<Rightarrow> u32 \<Rightarrow> 'd \<Rightarrow> 'd" where
  "clear_pending qemu b irq =
     write_volatile b (GICD_BASE qemu + GICD_ICPENDR + reg_offset irq) (irq_bit irq)"

text \<open>The module's \<open>init\<close>.\<close>

definition gic_module_init :: "bool \<Rightarrow> 'd bus \<Rightarrow> 'd \<Rightarrow> bool \<times> 'd" where
  "gic_module_init qemu b d =
     (case gic_init qemu b d of
        (True, d1) \<Rightarrow> (True, enable_timer_interrupt qemu b d1)
      | (False, d1) \<Rightarrow> (False, d1))"

section \<open>The device\<close>

text \<open>
  The state the architecture specification gives the distributor and the CPU interface of CPU 0.
  \<open>g_impl\<close> are the implemented priority bits (the specification requires at least the upper four),
  \<open>g_line\<close> the level-sensitive inputs, \<open>g_latch\<close> the pending states set by software and \<open>g_active\<close>
  the stack of acknowledged interrupts.  Interrupts 0 to 15 are software generated: they are
  always enabled and their pending state is not written through the driver's registers;
  interrupts 0 to 31 have fixed targets and triggers.
\<close>

record gic =
  g_typer :: u32
  g_impl :: u8
  g_ctlr :: u32
  g_enabled :: "nat \<Rightarrow> bool"
  g_line :: "nat \<Rightarrow> bool"
  g_latch :: "nat \<Rightarrow> bool"
  g_priority :: "nat \<Rightarrow> u8"
  g_target :: "nat \<Rightarrow> u8"
  g_edge :: "nat \<Rightarrow> bool"
  g_active :: "nat list"
  g_cpu_ctlr :: u32
  g_pmr :: u8
  g_bpr :: u32

definition byte_of :: "u32 \<Rightarrow> nat \<Rightarrow> u8" where
  "byte_of v i = ucast (drop_bit (8 * i) v)"

definition word_of_bytes :: "(nat \<Rightarrow> u8) \<Rightarrow> u32" where
  "word_of_bytes f = ucast (f 0) OR push_bit 8 (ucast (f 1)) OR push_bit 16 (ucast (f 2)) OR
     push_bit 24 (ucast (f 3))"

definition word_of_bits :: "(nat \<Rightarrow> bool) \<Rightarrow> u32" where
  "word_of_bits f = foldr (\<lambda>i w. (if f i then push_bit i 1 else 0) OR w) [0..<32] 0"

definition gic_pending :: "gic \<Rightarrow> nat \<Rightarrow> bool" where
  "gic_pending g i \<longleftrightarrow> g_line g i \<or> g_latch g i"

definition group_priority :: "gic \<Rightarrow> u8 \<Rightarrow> u8" where
  "group_priority g p = drop_bit (Suc (unat (g_bpr g AND 7))) p"

definition gic_running :: "gic \<Rightarrow> u8" where
  "gic_running g = (case g_active g of [] \<Rightarrow> 0xFF | i # _ \<Rightarrow> g_priority g i)"

text \<open>The pending interrupt with the highest priority (smallest number first), if it is above the mask.\<close>

definition eligible :: "gic \<Rightarrow> nat \<Rightarrow> bool" where
  "eligible g i \<longleftrightarrow> g_enabled g i \<and> gic_pending g i \<and> i \<notin> set (g_active g)"

fun best :: "gic \<Rightarrow> nat list \<Rightarrow> nat option" where
  "best g [] = None"
| "best g (i # is) =
     (case best g is of
        None \<Rightarrow> if eligible g i then Some i else None
      | Some j \<Rightarrow> if eligible g i \<and> g_priority g i \<le> g_priority g j then Some i else Some j)"

definition gic_highest :: "gic \<Rightarrow> nat option" where
  "gic_highest g =
     (if bit (g_ctlr g) 0 \<and> bit (g_cpu_ctlr g) 0 then
        (case best g [0..<1020] of
           None \<Rightarrow> None
         | Some i \<Rightarrow> if g_priority g i < g_pmr g then Some i else None)
      else None)"

text \<open>The interrupt the CPU interface signals: it must also preempt what is being handled.\<close>

definition gic_signal :: "gic \<Rightarrow> nat option" where
  "gic_signal g =
     (case gic_highest g of
        None \<Rightarrow> None
      | Some i \<Rightarrow>
          if g_active g = [] \<or> group_priority g (g_priority g i) < group_priority g (gic_running g)
          then Some i else None)"

definition in_block :: "nat \<Rightarrow> nat \<Rightarrow> nat \<Rightarrow> bool" where
  "in_block off base len \<longleftrightarrow> base \<le> off \<and> off < base + len"

definition gicd_write :: "nat \<Rightarrow> u32 \<Rightarrow> gic \<Rightarrow> gic" where
  "gicd_write off v g =
     (let hit = (\<lambda>base i. 16 \<le> i \<and> i div 32 = (off - base) div 4 \<and> bit v (i mod 32))
      in if off = 0 then g\<lparr>g_ctlr := v\<rparr>
         else if in_block off 0x100 0x80 then g\<lparr>g_enabled := (\<lambda>i. g_enabled g i \<or> hit 0x100 i)\<rparr>
         else if in_block off 0x180 0x80 then g\<lparr>g_enabled := (\<lambda>i. g_enabled g i \<and> \<not> hit 0x180 i)\<rparr>
         else if in_block off 0x200 0x80 then g\<lparr>g_latch := (\<lambda>i. g_latch g i \<or> hit 0x200 i)\<rparr>
         else if in_block off 0x280 0x80 then g\<lparr>g_latch := (\<lambda>i. g_latch g i \<and> \<not> hit 0x280 i)\<rparr>
         else if in_block off 0x400 0x400 then
           g\<lparr>g_priority := (\<lambda>i. if i div 4 = (off - 0x400) div 4 then byte_of v (i mod 4) AND g_impl g
                              else g_priority g i)\<rparr>
         else if in_block off 0x800 0x400 then
           g\<lparr>g_target := (\<lambda>i. if i div 4 = (off - 0x800) div 4 \<and> 32 \<le> i then byte_of v (i mod 4)
                            else g_target g i)\<rparr>
         else if in_block off 0xC00 0x100 then
           g\<lparr>g_edge := (\<lambda>i. if i div 16 = (off - 0xC00) div 4 \<and> 32 \<le> i then bit v (2 * (i mod 16) + 1)
                          else g_edge g i)\<rparr>
         else g)"

definition gicd_read :: "nat \<Rightarrow> gic \<Rightarrow> u32" where
  "gicd_read off g =
     (if off = 0 then g_ctlr g
      else if off = 4 then g_typer g
      else if in_block off 0x200 0x80 then word_of_bits (\<lambda>k. gic_pending g (32 * ((off - 0x200) div 4) + k))
      else if in_block off 0x400 0x400 then word_of_bytes (\<lambda>k. g_priority g (4 * ((off - 0x400) div 4) + k))
      else 0)"

definition gicc_write :: "nat \<Rightarrow> u32 \<Rightarrow> gic \<Rightarrow> gic" where
  "gicc_write off v g =
     (if off = 0 then g\<lparr>g_cpu_ctlr := v\<rparr>
      else if off = 4 then g\<lparr>g_pmr := ucast v AND g_impl g\<rparr>
      else if off = 8 then g\<lparr>g_bpr := v AND 7\<rparr>
      else if off = 16 then g\<lparr>g_active := remove1 (unat (v AND 0x3FF)) (g_active g)\<rparr>
      else g)"

definition gicc_read :: "nat \<Rightarrow> gic \<Rightarrow> u32 \<times> gic" where
  "gicc_read off g =
     (if off = 0 then (g_cpu_ctlr g, g)
      else if off = 12 then
        (case gic_signal g of
           None \<Rightarrow> (1023, g)
         | Some i \<Rightarrow> (of_nat i, g\<lparr>g_active := i # g_active g, g_latch := (g_latch g)(i := False)\<rparr>))
      else if off = 20 then (ucast (gic_running g), g)
      else if off = 24 then ((case gic_highest g of None \<Rightarrow> 1023 | Some i \<Rightarrow> of_nat i), g)
      else (0, g))"

text \<open>The registers of the two blocks that the driver writes and reads.\<close>

definition gicd_writable :: "nat \<Rightarrow> bool" where
  "gicd_writable off \<longleftrightarrow> off mod 4 = 0 \<and> (off = 0 \<or> in_block off 0x100 0x200 \<or> in_block off 0x400 0x900)"

definition gicd_readable :: "nat \<Rightarrow> bool" where
  "gicd_readable off \<longleftrightarrow> off mod 4 = 0 \<and> (off = 4 \<or> in_block off 0x200 0x80 \<or> in_block off 0x400 0x400)"

definition gicc_writable :: "nat \<Rightarrow> bool" where
  "gicc_writable off \<longleftrightarrow> off \<in> {0, 4, 8, 16}"

definition gicc_readable :: "nat \<Rightarrow> bool" where
  "gicc_readable off \<longleftrightarrow> off \<in> {12, 20, 24}"

text \<open>
  What the driver relies on: a bus at whose addresses a GICv2 sits.  \<open>view\<close> reads the state of the
  controller out of the state of the platform behind the bus.
\<close>

locale gic_device =
  fixes qemu :: bool and b :: "'d bus" and view :: "'d \<Rightarrow> gic"
  assumes gicd_write_law: "gicd_writable off \<Longrightarrow>
      view (write_volatile b (GICD_BASE qemu + of_nat off) v d) = gicd_write off v (view d)"
    and gicd_read_law: "gicd_readable off \<Longrightarrow> read_volatile b (GICD_BASE qemu + of_nat off) d = (w, d') \<Longrightarrow>
      w = gicd_read off (view d) \<and> view d' = view d"
    and gicc_write_law: "gicc_writable off \<Longrightarrow>
      view (write_volatile b (GICC_BASE qemu + of_nat off) v d) = gicc_write off v (view d)"
    and gicc_read_law: "gicc_readable off \<Longrightarrow> read_volatile b (GICC_BASE qemu + of_nat off) d = (w, d') \<Longrightarrow>
      (w, view d') = gicc_read off (view d)"

text \<open>A bus with nothing but the controller behind it.\<close>

definition gic_bus :: "bool \<Rightarrow> gic bus" where
  "gic_bus qemu =
     \<lparr>read_volatile = (\<lambda>a g.
        if in_block (unat a) (unat (GICD_BASE qemu)) 0x1000
        then (gicd_read (unat a - unat (GICD_BASE qemu)) g, g)
        else if in_block (unat a) (unat (GICC_BASE qemu)) 0x1000
        then gicc_read (unat a - unat (GICC_BASE qemu)) g
        else (0, g)),
      write_volatile = (\<lambda>a v g.
        if in_block (unat a) (unat (GICD_BASE qemu)) 0x1000
        then gicd_write (unat a - unat (GICD_BASE qemu)) v g
        else if in_block (unat a) (unat (GICC_BASE qemu)) 0x1000
        then gicc_write (unat a - unat (GICC_BASE qemu)) v g
        else g)\<rparr>"

lemma unat_gic_base:
  "unat (GICD_BASE qemu) = (if qemu then 0x08000000 else 0xFF841000)"
  "unat (GICC_BASE qemu) = (if qemu then 0x08010000 else 0xFF842000)"
  by (simp_all add: GICD_BASE_def GICC_BASE_def)

lemma unat_gic_addr:
  assumes "off < 0x1000"
  shows "unat (GICD_BASE qemu + of_nat off) = unat (GICD_BASE qemu) + off"
    "unat (GICC_BASE qemu + of_nat off) = unat (GICC_BASE qemu) + off"
  using assms by (simp_all add: unat_word_ariths(1) unat_of_nat unat_gic_base)

lemma gicd_access:
  assumes "off < 0x1000"
  shows "write_volatile (gic_bus qemu) (GICD_BASE qemu + of_nat off) v g = gicd_write off v g"
    "read_volatile (gic_bus qemu) (GICD_BASE qemu + of_nat off) g = (gicd_read off g, g)"
  using assms by (simp_all add: gic_bus_def unat_gic_addr in_block_def)

lemma gicc_access:
  assumes "off < 0x1000"
  shows "write_volatile (gic_bus qemu) (GICC_BASE qemu + of_nat off) v g = gicc_write off v g"
    "read_volatile (gic_bus qemu) (GICC_BASE qemu + of_nat off) g = gicc_read off g"
  using assms unat_gic_base [of qemu] by (auto simp: gic_bus_def in_block_def unat_gic_addr)

lemma gic_registers_small:
  "gicd_writable off \<Longrightarrow> off < 0x1000" "gicd_readable off \<Longrightarrow> off < 0x1000"
  "gicc_writable off \<Longrightarrow> off < 0x1000" "gicc_readable off \<Longrightarrow> off < 0x1000"
  by (auto simp: gicd_writable_def gicd_readable_def gicc_writable_def gicc_readable_def in_block_def)

lemma gic_bus_device: "gic_device qemu (gic_bus qemu) (\<lambda>g. g)"
  by unfold_locales (auto simp: gicd_access gicc_access gic_registers_small)

interpretation plain: gic_device qemu "gic_bus qemu" "\<lambda>g. g" for qemu
  by (rule gic_bus_device)

section \<open>The interrupt that is signalled\<close>

lemma best_None: "best g is = None \<longleftrightarrow> (\<forall>i \<in> set is. \<not> eligible g i)"
  by (induction "is") (auto split: option.splits)

lemma best_Some:
  "best g is = Some j \<Longrightarrow> j \<in> set is \<and> eligible g j \<and> (\<forall>i \<in> set is. eligible g i \<longrightarrow> g_priority g j \<le> g_priority g i)"
proof (induction "is" arbitrary: j)
  case (Cons i "is")
  show ?case
  proof (cases "best g is")
    case None
    with Cons.prems show ?thesis by (auto simp: best_None split: if_splits)
  next
    case (Some k)
    from Cons.IH [OF this] Cons.prems Some show ?thesis
      by (auto split: if_splits)
  qed
qed simp

text \<open>When one interrupt is above the mask and all others are not, it alone is signalled.\<close>

lemma only_signal:
  assumes "bit (g_ctlr g) 0" "bit (g_cpu_ctlr g) 0" "t < 1020" "g_active g = []"
    and above: "g_priority g t < g_pmr g"
    and masked: "\<And>i. i < 1020 \<Longrightarrow> i \<noteq> t \<Longrightarrow> eligible g i \<Longrightarrow> g_pmr g \<le> g_priority g i"
  shows "gic_signal g = (if eligible g t then Some t else None)"
proof (cases "eligible g t")
  case True
  then obtain j where j: "best g [0..<1020] = Some j"
    using assms(3) by (cases "best g [0..<1020]") (auto simp: best_None)
  from best_Some [OF j] True assms(3) have "j < 1020" "eligible g j" "g_priority g j \<le> g_priority g t"
    by auto
  with above masked [of j] have "j = t" by (cases "j = t") auto
  with j True assms show ?thesis by (simp add: gic_signal_def gic_highest_def)
next
  case False
  then have "gic_highest g = None"
    using best_Some [of g "[0..<1020]"] masked
    by (fastforce simp: gic_highest_def not_less split: option.splits)
  with False show ?thesis by (simp add: gic_signal_def)
qed

section \<open>Loops over registers\<close>

lemma step_by_covers:
  assumes "0 < s" "s dvd a" "s dvd n"
  shows "(\<exists>k \<in> set (step_by a n s). k div s = i div s) \<longleftrightarrow> a \<le> i \<and> i < n"
proof -
  from assms obtain p q where pq: "a = s * p" "n = s * q" by (auto simp: dvd_def)
  have "(n - a + s - 1) div s = q - p"
  proof -
    have "n - a + s - 1 = (s - 1) + (q - p) * s"
      using assms(1) pq by (simp add: algebra_simps)
    then have "(n - a + s - 1) div s = ((s - 1) + (q - p) * s) div s"
      by (rule arg_cong)
    also have "\<dots> = q - p"
      using assms(1) by (subst div_mult_self1) auto
    finally show ?thesis .
  qed
  then have "set (step_by a n s) = (\<lambda>j. s * (p + j)) ` {0..<q - p}"
    by (simp add: step_by_def pq algebra_simps image_def)
  then have "(\<exists>k \<in> set (step_by a n s). k div s = i div s) \<longleftrightarrow> p \<le> i div s \<and> i div s < q"
    using assms(1) by (auto simp: image_iff intro!: bexI [of _ "i div s - p"])
  also have "\<dots> \<longleftrightarrow> a \<le> i \<and> i < n"
    using assms(1) by (simp add: pq less_eq_div_iff_mult_less_eq div_less_iff_less_mult mult.commute)
  finally show ?thesis .
qed

lemma step_by_dvd: "k \<in> set (step_by a n s) \<Longrightarrow> s dvd a \<Longrightarrow> s dvd k"
  by (auto simp: step_by_def)

lemma step_by_bound: "k \<in> set (step_by a n s) \<Longrightarrow> 0 < s \<Longrightarrow> s dvd a \<Longrightarrow> s dvd n \<Longrightarrow> k < n"
  using step_by_covers [of s a n k] by auto

section \<open>What the driver does to the controller\<close>

lemma gicd_addresses:
  "GICD_BASE qemu + GICD_CTLR = GICD_BASE qemu + of_nat 0"
  "GICD_BASE qemu + GICD_TYPER = GICD_BASE qemu + of_nat 4"
  "GICD_BASE qemu + GICD_ISENABLER + of_nat k * 4 = GICD_BASE qemu + of_nat (0x100 + 4 * k)"
  "GICD_BASE qemu + GICD_ICENABLER + of_nat k * 4 = GICD_BASE qemu + of_nat (0x180 + 4 * k)"
  "GICD_BASE qemu + GICD_ISPENDR + of_nat k * 4 = GICD_BASE qemu + of_nat (0x200 + 4 * k)"
  "GICD_BASE qemu + GICD_ICPENDR + of_nat k * 4 = GICD_BASE qemu + of_nat (0x280 + 4 * k)"
  "GICD_BASE qemu + GICD_IPRIORITYR + of_nat k = GICD_BASE qemu + of_nat (0x400 + k)"
  "GICD_BASE qemu + GICD_ITARGETSR + of_nat k = GICD_BASE qemu + of_nat (0x800 + k)"
  "GICD_BASE qemu + GICD_ICFGR + of_nat k * 4 = GICD_BASE qemu + of_nat (0xC00 + 4 * k)"
  by (simp_all add: gic_offsets)

lemma gicc_addresses:
  "GICC_BASE qemu + GICC_CTLR = GICC_BASE qemu + of_nat 0"
  "GICC_BASE qemu + GICC_PMR = GICC_BASE qemu + of_nat 4"
  "GICC_BASE qemu + GICC_BPR = GICC_BASE qemu + of_nat 8"
  "GICC_BASE qemu + GICC_IAR = GICC_BASE qemu + of_nat 12"
  "GICC_BASE qemu + GICC_EOIR = GICC_BASE qemu + of_nat 16"
  "GICC_BASE qemu + GICC_RPR = GICC_BASE qemu + of_nat 20"
  "GICC_BASE qemu + GICC_HPPIR = GICC_BASE qemu + of_nat 24"
  by (simp_all add: gic_offsets)

lemma reg_offset_nat: "reg_offset irq = of_nat (unat irq div 32) * 4"
proof -
  have "(ucast (irq div 32) :: usize) = of_nat (unat (irq div 32))" by simp
  then show ?thesis by (simp add: reg_offset_def unat_div)
qed

lemma bit_irq_bit: "bit (irq_bit irq) k \<longleftrightarrow> k = unat irq mod 32"
proof -
  have "unat (irq mod 32) = unat irq mod 32" by (simp add: unat_mod)
  moreover have "unat irq mod 32 < 32" by simp
  ultimately show ?thesis
    by (auto simp: irq_bit_def bit_exp_iff)
qed

lemma gicd_write_blocks:
  "k < 32 \<Longrightarrow> gicd_write (0x100 + 4 * k) v g =
     g\<lparr>g_enabled := (\<lambda>i. g_enabled g i \<or> 16 \<le> i \<and> i div 32 = k \<and> bit v (i mod 32))\<rparr>"
  "k < 32 \<Longrightarrow> gicd_write (0x180 + 4 * k) v g =
     g\<lparr>g_enabled := (\<lambda>i. g_enabled g i \<and> \<not> (16 \<le> i \<and> i div 32 = k \<and> bit v (i mod 32)))\<rparr>"
  "k < 32 \<Longrightarrow> gicd_write (0x200 + 4 * k) v g =
     g\<lparr>g_latch := (\<lambda>i. g_latch g i \<or> 16 \<le> i \<and> i div 32 = k \<and> bit v (i mod 32))\<rparr>"
  "k < 32 \<Longrightarrow> gicd_write (0x280 + 4 * k) v g =
     g\<lparr>g_latch := (\<lambda>i. g_latch g i \<and> \<not> (16 \<le> i \<and> i div 32 = k \<and> bit v (i mod 32)))\<rparr>"
  "k < 0x400 \<Longrightarrow> gicd_write (0x400 + k) v g =
     g\<lparr>g_priority := (\<lambda>i. if i div 4 = k div 4 then byte_of v (i mod 4) AND g_impl g else g_priority g i)\<rparr>"
  "k < 0x400 \<Longrightarrow> gicd_write (0x800 + k) v g =
     g\<lparr>g_target := (\<lambda>i. if i div 4 = k div 4 \<and> 32 \<le> i then byte_of v (i mod 4) else g_target g i)\<rparr>"
  "k < 64 \<Longrightarrow> gicd_write (0xC00 + 4 * k) v g =
     g\<lparr>g_edge := (\<lambda>i. if i div 16 = k \<and> 32 \<le> i then bit v (2 * (i mod 16) + 1) else g_edge g i)\<rparr>"
  by (simp_all add: gicd_write_def in_block_def)

lemma gicd_writable_blocks:
  "k < 32 \<Longrightarrow> gicd_writable (0x100 + 4 * k)" "k < 32 \<Longrightarrow> gicd_writable (0x180 + 4 * k)"
  "k < 32 \<Longrightarrow> gicd_writable (0x200 + 4 * k)" "k < 32 \<Longrightarrow> gicd_writable (0x280 + 4 * k)"
  "k < 64 \<Longrightarrow> gicd_writable (0xC00 + 4 * k)" "k < 0x400 \<Longrightarrow> 4 dvd k \<Longrightarrow> gicd_writable (0x400 + k)"
  "k < 0x400 \<Longrightarrow> 4 dvd k \<Longrightarrow> gicd_writable (0x800 + k)" "gicd_writable 0"
  by (auto simp: gicd_writable_def in_block_def mod_add_eq [symmetric])

lemma irq_hit: "i div 32 = unat irq div 32 \<and> bit (irq_bit irq) (i mod 32) \<longleftrightarrow> i = unat irq"
  unfolding bit_irq_bit by (metis div_mult_mod_eq)

lemma bit_word_of_bits: "bit (word_of_bits f) k \<longleftrightarrow> k < 32 \<and> f k"
proof -
  have "bit (foldr (\<lambda>i w. (if f i then push_bit i 1 else 0) OR w) is (0 :: u32)) k \<longleftrightarrow> k < 32 \<and> k \<in> set is \<and> f k"
    for "is"
    by (induction "is") (auto simp: bit_or_iff bit_exp_iff)
  from this [of "[0..<32]"] show ?thesis unfolding word_of_bits_def by auto
qed

lemma and_irq_bit: "v AND irq_bit irq \<noteq> 0 \<longleftrightarrow> bit v (unat irq mod 32)"
proof -
  have "v AND irq_bit irq \<noteq> 0 \<longleftrightarrow> (\<exists>n. bit (v AND irq_bit irq) n)"
    by (metis bit_0_eq bit_eq_iff bot_apply bot_bool_def)
  then show ?thesis by (simp add: bit_and_iff bit_irq_bit)
qed

lemma bit_byte_of: "bit (byte_of w j) n \<longleftrightarrow> n < 8 \<and> bit w (8 * j + n)"
  by (auto simp: byte_of_def bit_ucast_iff bit_drop_bit_eq)

lemma byte_word_of_bytes:
  assumes "j < 4"
  shows "byte_of (word_of_bytes f) j = f j"
proof (rule bit_word_eqI)
  fix n assume "n < LENGTH(8)"
  then have n: "n < 8" by simp
  have "j \<in> {0, 1, 2, 3}" using assms by auto
  then show "bit (byte_of (word_of_bytes f) j) n = bit (f j) n"
    using n by (auto simp: bit_byte_of word_of_bytes_def bit_or_iff bit_push_bit_iff bit_ucast_iff
        dest: bit_imp_le_length)
qed

lemma byte_of_replaced:
  assumes "j < 4" "k < 4"
  shows "byte_of (w AND NOT (push_bit (k * 8) 0xFF) OR push_bit (k * 8) (ucast (p :: u8))) j =
    (if j = k then p else byte_of w j)"
proof (rule bit_word_eqI)
  fix n assume "n < LENGTH(8)"
  then have n: "n < 8" by simp
  define c :: u32 where "c = 0xFF"
  have "c = mask 8" by (simp add: c_def mask_eq_exp_minus_1)
  then have m: "bit c i \<longleftrightarrow> i < 8" for i by (auto simp: bit_mask_iff)
  have "j \<in> {0, 1, 2, 3}" "k \<in> {0, 1, 2, 3}" using assms by auto
  then show "bit (byte_of (w AND NOT (push_bit (k * 8) 0xFF) OR push_bit (k * 8) (ucast p)) j) n =
      bit (if j = k then p else byte_of w j) n"
    unfolding c_def [symmetric] using n by (auto simp: bit_byte_of bit_or_iff bit_and_iff bit_not_iff bit_push_bit_iff bit_ucast_iff m
        dest: bit_imp_le_length)
qed

lemma all_ones: "bit (0xFFFFFFFF :: u32) (i mod 32)" "byte_of 0xFFFFFFFF (i mod 4) = 0xFF"
proof -
  have ones: "(0xFFFFFFFF :: u32) = - 1" by simp
  show "bit (0xFFFFFFFF :: u32) (i mod 32)" unfolding ones by (simp add: bit_minus_1_iff)
  have "i mod 4 \<in> {0, 1, 2, 3}" by auto
  then show "byte_of 0xFFFFFFFF (i mod 4) = 0xFF" by (auto simp: byte_of_def drop_bit_eq_div)
qed

lemma cpu0_targets: "byte_of 0x01010101 (i mod 4) = 1"
proof -
  have "i mod 4 \<in> {0, 1, 2, 3}" by auto
  then show ?thesis by (auto simp: byte_of_def drop_bit_eq_div)
qed

text \<open>The number of interrupts the type register announces, and the state \<open>init\<close> establishes.\<close>

definition irq_count :: "gic \<Rightarrow> nat" where
  "irq_count g = (unat (g_typer g) mod 32 + 1) * 32"

definition gic_configured :: "gic \<Rightarrow> gic" where
  "gic_configured g = g\<lparr>g_ctlr := 1,
     g_enabled := (\<lambda>i. g_enabled g i \<and> \<not> (16 \<le> i \<and> i < irq_count g)),
     g_latch := (\<lambda>i. g_latch g i \<and> \<not> (16 \<le> i \<and> i < irq_count g)),
     g_priority := (\<lambda>i. if i < irq_count g then 0xFF AND g_impl g else g_priority g i),
     g_target := (\<lambda>i. if 32 \<le> i \<and> i < irq_count g then 1 else g_target g i),
     g_edge := (\<lambda>i. g_edge g i \<and> \<not> (32 \<le> i \<and> i < irq_count g)),
     g_pmr := 0xFF AND g_impl g, g_bpr := 0, g_cpu_ctlr := 1\<rparr>"

lemma irq_count_facts:
  "irq_count g \<le> 1024" "32 dvd irq_count g" "16 dvd irq_count g" "4 dvd irq_count g"
  "unat (((g_typer g AND 0x1F) + 1) * 32) = irq_count g"
proof -
  have lt: "unat (g_typer g) mod 32 < 32" by simp
  then have "unat (g_typer g) mod 32 + 1 \<le> 32" by linarith
  from mult_le_mono1 [OF this, of 32] show "irq_count g \<le> 1024" by (simp add: irq_count_def)
  show d: "32 dvd irq_count g" by (simp add: irq_count_def)
  have "(16 :: nat) dvd 32" "(4 :: nat) dvd 32" by simp_all
  with d show "16 dvd irq_count g" "4 dvd irq_count g" using dvd_trans by blast+
  have "g_typer g AND 0x1F = g_typer g mod 32"
    using take_bit_eq_mask [of 5 "g_typer g"] by (simp add: take_bit_eq_mod mask_eq_exp_minus_1)
  then have t: "unat (g_typer g AND 0x1F) = unat (g_typer g) mod 32" by (simp add: unat_mod)
  then have "unat ((g_typer g AND 0x1F) + 1) = unat (g_typer g) mod 32 + 1"
    using lt by (simp add: unat_word_ariths(1))
  then show "unat (((g_typer g AND 0x1F) + 1) * 32) = irq_count g"
    unfolding unat_word_ariths(2) irq_count_def using lt by simp
qed

lemma step_by_sets:
  assumes "n \<le> 1024" "32 dvd n"
  shows "\<forall>k \<in> set (step_by 0 n 32). k < 1024" "\<forall>k \<in> set (step_by 0 n 16). k < 1024"
    "\<forall>k \<in> set (step_by 0 n 4). k < 1024 \<and> 4 dvd k" "\<forall>k \<in> set (step_by 32 n 4). k < 1024 \<and> 4 dvd k"
proof -
  have d: "(16 :: nat) dvd n" "(4 :: nat) dvd n"
    using assms(2) dvd_trans [of 16 32 n] dvd_trans [of 4 32 n] by simp_all
  show "\<forall>k \<in> set (step_by 0 n 32). k < 1024" "\<forall>k \<in> set (step_by 0 n 16). k < 1024"
    "\<forall>k \<in> set (step_by 0 n 4). k < 1024 \<and> 4 dvd k" "\<forall>k \<in> set (step_by 32 n 4). k < 1024 \<and> 4 dvd k"
    using assms d step_by_bound [of _ 0 n 32] step_by_bound [of _ 0 n 16] step_by_bound [of _ 0 n 4]
      step_by_bound [of _ 32 n 4] step_by_dvd [of _ 0 n 4] step_by_dvd [of _ 32 n 4]
    by fastforce+
qed

lemma irq_id_mask: "i < 1020 \<Longrightarrow> (of_nat i :: u32) AND 0x3FF = of_nat i"
proof -
  assume i: "i < 1020"
  have "(of_nat i :: u32) AND 0x3FF = take_bit 10 (of_nat i)"
    by (simp add: take_bit_eq_mask mask_eq_exp_minus_1)
  also have "\<dots> = of_nat i"
    using i by (simp add: take_bit_of_nat take_bit_nat_eq_self)
  finally show ?thesis .
qed

lemma and_le_first: "x AND y \<le> (x :: 'a::len word)"
  by (rule word_and_le2)

lemma implemented_priorities:
  fixes x :: u8
  assumes "x AND 0xF0 = 0xF0"
  shows "0x80 AND x = 0x80" "0xFF AND x = x" "0x80 < x"
proof -
  have "0x80 AND x = 0x80 AND (x AND 0xF0)" by (simp add: and.left_commute and.commute)
  then show "0x80 AND x = 0x80" by (simp add: assms)
  have "(0xFF :: u8) = - 1" by simp
  then show "0xFF AND x = x" by (simp only: and.left_neutral)
  have "(0xF0 :: u8) \<le> x" using and_le_first [of x "0xF0"] assms by simp
  then show "0x80 < x" by (rule less_le_trans [rotated]) simp
qed

context gic_device
begin

lemma write_ctlr: "view (write_volatile b (GICD_BASE qemu + GICD_CTLR) v d) = (view d)\<lparr>g_ctlr := v\<rparr>"
  using gicd_write_law [of 0 v d] by (simp add: gicd_writable_blocks gicd_write_def gic_offsets)

lemmas irq_ops = enable_irq_def disable_irq_def set_pending_def clear_pending_def reg_offset_nat
  gicd_addresses gicd_write_law gicd_writable_blocks gicd_write_blocks irq_hit

lemma irq_ops_view:
  assumes "unat irq < 1024"
  shows "view (enable_irq qemu b irq d) =
      (view d)\<lparr>g_enabled := (\<lambda>i. g_enabled (view d) i \<or> 16 \<le> i \<and> i = unat irq)\<rparr>"
    "view (disable_irq qemu b irq d) =
      (view d)\<lparr>g_enabled := (\<lambda>i. g_enabled (view d) i \<and> \<not> (16 \<le> i \<and> i = unat irq))\<rparr>"
    "view (set_pending qemu b irq d) =
      (view d)\<lparr>g_latch := (\<lambda>i. g_latch (view d) i \<or> 16 \<le> i \<and> i = unat irq)\<rparr>"
    "view (clear_pending qemu b irq d) =
      (view d)\<lparr>g_latch := (\<lambda>i. g_latch (view d) i \<and> \<not> (16 \<le> i \<and> i = unat irq))\<rparr>"
proof -
  have k: "unat irq div 32 < 32" using assms by simp
  show "view (enable_irq qemu b irq d) =
      (view d)\<lparr>g_enabled := (\<lambda>i. g_enabled (view d) i \<or> 16 \<le> i \<and> i = unat irq)\<rparr>"
    "view (disable_irq qemu b irq d) =
      (view d)\<lparr>g_enabled := (\<lambda>i. g_enabled (view d) i \<and> \<not> (16 \<le> i \<and> i = unat irq))\<rparr>"
    "view (set_pending qemu b irq d) =
      (view d)\<lparr>g_latch := (\<lambda>i. g_latch (view d) i \<or> 16 \<le> i \<and> i = unat irq)\<rparr>"
    "view (clear_pending qemu b irq d) =
      (view d)\<lparr>g_latch := (\<lambda>i. g_latch (view d) i \<and> \<not> (16 \<le> i \<and> i = unat irq))\<rparr>"
    using k by (simp_all add: irq_ops del: of_nat_add)
qed

lemma is_pending_view:
  assumes "unat irq < 1024" "is_pending qemu b irq d = (r, d')"
  shows "r \<longleftrightarrow> gic_pending (view d) (unat irq)" "view d' = view d"
proof -
  have k: "unat irq div 32 < 32" using assms by simp
  then have read: "gicd_readable (0x200 + 4 * (unat irq div 32))"
    "gicd_read (0x200 + 4 * (unat irq div 32)) g = word_of_bits (\<lambda>j. gic_pending g (32 * (unat irq div 32) + j))"
    for g by (auto simp: gicd_readable_def gicd_read_def in_block_def mod_add_eq [symmetric])
  obtain v where v: "read_volatile b (GICD_BASE qemu + of_nat (0x200 + 4 * (unat irq div 32))) d = (v, d')"
    and r: "r \<longleftrightarrow> v AND irq_bit irq \<noteq> 0"
    using assms(2) by (auto simp: is_pending_def reg_offset_nat gicd_addresses split: prod.splits simp del: of_nat_add)
  from gicd_read_law [OF read(1) v] r show "r \<longleftrightarrow> gic_pending (view d) (unat irq)" "view d' = view d"
    by (auto simp: read(2) and_irq_bit bit_word_of_bits)
qed

lemma set_priority_view:
  assumes "unat irq < 1024" "\<And>i. g_priority (view d) i AND g_impl (view d) = g_priority (view d) i"
  shows "view (gic_set_priority qemu b irq p d) =
    (view d)\<lparr>g_priority := (g_priority (view d))(unat irq := p AND g_impl (view d))\<rparr>"
proof -
  define off where "off = (ucast irq :: usize)"
  define k where "k = 4 * (unat irq div 4)"
  have "unat off = unat irq" by (simp add: off_def unat_ucast_up)
  moreover have "off AND 3 = take_bit 2 off"
    by (simp add: take_bit_eq_mask mask_eq_exp_minus_1)
  ultimately have lo: "unat (off AND 3) = unat irq mod 4"
    by (simp add: take_bit_eq_mod unat_mod)
  have "off AND NOT 3 = off - (off AND 3)"
    by (subst disjunctive_diff) (auto simp: bit_and_iff bit.conj_disj_distrib)
  moreover have "off AND 3 = of_nat (unat irq mod 4)"
    unfolding lo [symmetric] by simp
  moreover have "off = of_nat (unat irq)" by (simp add: off_def)
  ultimately have hi: "off AND NOT 3 = of_nat k"
    by (simp add: k_def minus_mod_eq_mult_div [symmetric] of_nat_diff)
  have k: "k < 0x400" "4 dvd k" using assms(1) by (auto simp: k_def)
  have kr: "gicd_readable (0x400 + k)"
    "gicd_read (0x400 + k) g = word_of_bytes (\<lambda>j. g_priority g (k + j))" for g
    using k by (auto simp: gicd_readable_def gicd_read_def in_block_def mod_add_eq [symmetric])
  obtain v d1 where v: "read_volatile b (GICD_BASE qemu + of_nat (0x400 + k)) d = (v, d1)" by fastforce
  note rd = gicd_read_law [OF kr(1) v]
  have "view (gic_set_priority qemu b irq p d) = gicd_write (0x400 + k)
      (v AND NOT (push_bit (unat irq mod 4 * 8) 0xFF) OR push_bit (unat irq mod 4 * 8) (ucast p)) (view d)"
    unfolding gic_set_priority_def Let_def off_def [symmetric] hi lo gicd_addresses(7) v prod.case
    using rd k by (simp add: gicd_write_law gicd_writable_blocks del: of_nat_add)
  also have "\<dots> = (view d)\<lparr>g_priority := (g_priority (view d))(unat irq := p AND g_impl (view d))\<rparr>"
  proof -
    have "(if i div 4 = k div 4 then byte_of (v AND NOT (push_bit (unat irq mod 4 * 8) 0xFF) OR
            push_bit (unat irq mod 4 * 8) (ucast p)) (i mod 4) AND g_impl (view d)
          else g_priority (view d) i) = ((g_priority (view d))(unat irq := p AND g_impl (view d))) i" for i
    proof (cases "i div 4 = k div 4")
      case True
      then have "k + i mod 4 = i" by (metis k(2) dvd_mult_div_cancel mult_div_mod_eq)
      moreover have "i mod 4 = unat irq mod 4 \<longleftrightarrow> i = unat irq"
        using True by (metis k_def div_mult_mod_eq nonzero_mult_div_cancel_left zero_neq_numeral)
      ultimately show ?thesis
        using True rd by (simp add: byte_of_replaced kr(2) byte_word_of_bytes assms(2))
    qed (auto simp: k_def)
    then show ?thesis using k(1) by (simp add: gicd_write_blocks fun_upd_def)
  qed
  finally show ?thesis .
qed

lemma write_range_Cons: "write_range b addr v (i # is) d = write_range b addr v is (write_volatile b (addr i) v d)"
  by (simp add: write_range_def)

lemma write_range_Nil: "write_range b addr v [] d = d"
  by (simp add: write_range_def)

lemmas range_simps = write_range_Nil write_range_Cons gicd_addresses gicd_write_law gicd_writable_blocks
  gicd_write_blocks all_ones cpu0_targets fun_eq_iff

lemma disable_range:
  "\<forall>k \<in> set is. k < 1024 \<Longrightarrow>
   view (write_range b (\<lambda>i. GICD_BASE qemu + GICD_ICENABLER + of_nat (i div 32) * 4) 0xFFFFFFFF is d) =
     (view d)\<lparr>g_enabled := (\<lambda>i. g_enabled (view d) i \<and> \<not> (16 \<le> i \<and> (\<exists>k \<in> set is. k div 32 = i div 32)))\<rparr>"
  by (induction "is" arbitrary: d) (auto simp: range_simps intro!: gic.equality simp del: of_nat_add bit_numeral_word_iff)

lemma clear_range:
  "\<forall>k \<in> set is. k < 1024 \<Longrightarrow>
   view (write_range b (\<lambda>i. GICD_BASE qemu + GICD_ICPENDR + of_nat (i div 32) * 4) 0xFFFFFFFF is d) =
     (view d)\<lparr>g_latch := (\<lambda>i. g_latch (view d) i \<and> \<not> (16 \<le> i \<and> (\<exists>k \<in> set is. k div 32 = i div 32)))\<rparr>"
  by (induction "is" arbitrary: d) (auto simp: range_simps intro!: gic.equality simp del: of_nat_add bit_numeral_word_iff)

lemma priority_range:
  "\<forall>k \<in> set is. k < 1024 \<and> 4 dvd k \<Longrightarrow>
   view (write_range b (\<lambda>i. GICD_BASE qemu + GICD_IPRIORITYR + of_nat i) 0xFFFFFFFF is d) =
     (view d)\<lparr>g_priority := (\<lambda>i. if \<exists>k \<in> set is. k div 4 = i div 4 then 0xFF AND g_impl (view d)
       else g_priority (view d) i)\<rparr>"
  by (induction "is" arbitrary: d) (auto simp: range_simps intro!: gic.equality simp del: of_nat_add bit_numeral_word_iff)

lemma target_range:
  "\<forall>k \<in> set is. k < 1024 \<and> 4 dvd k \<Longrightarrow>
   view (write_range b (\<lambda>i. GICD_BASE qemu + GICD_ITARGETSR + of_nat i) 0x01010101 is d) =
     (view d)\<lparr>g_target := (\<lambda>i. if 32 \<le> i \<and> (\<exists>k \<in> set is. k div 4 = i div 4) then 1
       else g_target (view d) i)\<rparr>"
  by (induction "is" arbitrary: d) (auto simp: range_simps intro!: gic.equality simp del: of_nat_add bit_numeral_word_iff)

lemma trigger_range:
  "\<forall>k \<in> set is. k < 1024 \<Longrightarrow>
   view (write_range b (\<lambda>i. GICD_BASE qemu + GICD_ICFGR + of_nat (i div 16) * 4) 0 is d) =
     (view d)\<lparr>g_edge := (\<lambda>i. g_edge (view d) i \<and> \<not> (32 \<le> i \<and> (\<exists>k \<in> set is. k div 16 = i div 16)))\<rparr>"
  by (induction "is" arbitrary: d) (auto simp: range_simps intro!: gic.equality simp del: of_nat_add bit_numeral_word_iff)

lemma init_cpu_interface_view:
  "view (init_cpu_interface qemu b d) =
     (view d)\<lparr>g_pmr := 0xFF AND g_impl (view d), g_bpr := 0, g_cpu_ctlr := 1\<rparr>"
  using gicc_write_law [of 0] gicc_write_law [of 4] gicc_write_law [of 8]
  by (simp add: init_cpu_interface_def Let_def gic_offsets gicc_writable_def gicc_write_def)

lemma gic_init_view:
  assumes "gic_init qemu b d = (r, d')"
  shows "g_typer (view d) \<in> {0, 0xFFFFFFFF} \<Longrightarrow> \<not> r \<and> view d' = view d"
    "g_typer (view d) \<notin> {0, 0xFFFFFFFF} \<Longrightarrow> r \<and> view d' = gic_configured (view d)"
proof -
  have rd: "gicd_readable 4" "gicd_read 4 g = g_typer g" for g
    by (simp_all add: gicd_readable_def gicd_read_def)
  obtain t1 d1 where t1: "read_volatile b (GICD_BASE qemu + GICD_TYPER) d = (t1, d1)" by fastforce
  then have v1: "t1 = g_typer (view d)" "view d1 = view d"
    using gicd_read_law [OF rd(1), of d t1 d1] by (simp_all add: gicd_addresses rd)
  define d2 where "d2 = write_volatile b (GICD_BASE qemu + GICD_CTLR) 0 d1"
  have vd2: "view d2 = (view d)\<lparr>g_ctlr := 0\<rparr>" by (simp add: d2_def write_ctlr v1)
  obtain t2 d3 where t2: "read_volatile b (GICD_BASE qemu + GICD_TYPER) d2 = (t2, d3)" by fastforce
  then have v2: "t2 = g_typer (view d)" "view d3 = (view d)\<lparr>g_ctlr := 0\<rparr>"
    using gicd_read_law [OF rd(1), of d2 t2 d3] by (simp_all add: gicd_addresses rd vd2)
  show "\<not> r \<and> view d' = view d" if "g_typer (view d) \<in> {0, 0xFFFFFFFF}"
    using assms that t1 v1 by (auto simp: gic_init_def)
  define n where "n = irq_count (view d)"
  have n: "n \<le> 1024" "32 dvd n" "16 dvd n" "4 dvd n" "unat (((t2 AND 0x1F) + 1) * 32) = n"
    unfolding n_def v2 by (rule irq_count_facts)+
  have cover: "(\<exists>k \<in> set (step_by 0 n 32). k div 32 = i div 32) \<longleftrightarrow> i < n"
    "(\<exists>k \<in> set (step_by 0 n 16). k div 16 = i div 16) \<longleftrightarrow> i < n"
    "(\<exists>k \<in> set (step_by 0 n 4). k div 4 = i div 4) \<longleftrightarrow> i < n"
    "(\<exists>k \<in> set (step_by 32 n 4). k div 4 = i div 4) \<longleftrightarrow> 32 \<le> i \<and> i < n" for i
    using n by (simp_all add: step_by_covers)
  note sets = step_by_sets [OF n(1,2)]
  note ranges = disable_range [OF sets(1)] clear_range [OF sets(1)] priority_range [OF sets(3)]
    target_range [OF sets(4)] trigger_range [OF sets(2)]
  note unfolded = assms [unfolded gic_init_def t1 prod.case Let_def d2_def [symmetric] t2 n(5)]
  show "r \<and> view d' = gic_configured (view d)" if "g_typer (view d) \<notin> {0, 0xFFFFFFFF}"
  proof -
    from that have "\<not> (t1 = 0xFFFFFFFF \<or> t1 = 0)" by (auto simp: v1)
    note run = unfolded [unfolded if_not_P [OF this], symmetric, unfolded prod.inject]
    show ?thesis unfolding run [THEN conjunct1] run [THEN conjunct2]
      by (auto simp: init_cpu_interface_view write_ctlr ranges cover v2 gic_configured_def
          simp flip: n_def intro!: gic.equality)
  qed
qed

lemma acknowledge_view:
  assumes "acknowledge_interrupt qemu b d = (v, d')"
  shows "gic_signal (view d) = None \<Longrightarrow> v = SPURIOUS_IRQ \<and> view d' = view d"
    "gic_signal (view d) = Some i \<Longrightarrow> i < 1020 \<and> v = of_nat i \<and>
       view d' = (view d)\<lparr>g_active := i # g_active (view d), g_latch := (g_latch (view d))(i := False)\<rparr>"
proof -
  obtain w where w: "read_volatile b (GICC_BASE qemu + GICC_IAR) d = (w, d')" "v = w AND 0x3FF"
    using assms by (auto simp: acknowledge_interrupt_def split: prod.splits)
  then have r: "(w, view d') = gicc_read 12 (view d)"
    using gicc_read_law [of 12 d w d'] by (simp add: gicc_readable_def gic_offsets)
  show "v = SPURIOUS_IRQ \<and> view d' = view d" if "gic_signal (view d) = None"
    using r w(2) that by (simp add: gicc_read_def SPURIOUS_IRQ_def)
  show "i < 1020 \<and> v = of_nat i \<and>
      view d' = (view d)\<lparr>g_active := i # g_active (view d), g_latch := (g_latch (view d))(i := False)\<rparr>"
    if sig: "gic_signal (view d) = Some i"
  proof -
    have i: "i < 1020"
      using sig best_Some [of "view d" "[0..<1020]"]
      by (auto simp: gic_signal_def gic_highest_def split: option.splits if_splits)
    then show ?thesis using irq_id_mask [OF i] r w(2) sig by (simp add: gicc_read_def)
  qed
qed

lemma end_interrupt_view:
  assumes "i < 1020"
  shows "view (end_interrupt qemu b (of_nat i) d) = (view d)\<lparr>g_active := remove1 i (g_active (view d))\<rparr>"
proof -
  have "unat ((of_nat i :: u32) AND 0x3FF) = i"
    using assms irq_id_mask [OF assms] by (simp add: unat_of_nat)
  then show ?thesis
    using gicc_write_law [of 16] by (simp add: end_interrupt_def gicc_writable_def gic_offsets gicc_write_def)
qed

text \<open>After the module's \<open>init\<close> the timer interrupt and no other one can reach the CPU.\<close>

lemma module_init_view:
  assumes "g_typer (view d) \<notin> {0, 0xFFFFFFFF}" "gic_module_init qemu b d = (r, d')"
    and "g_impl (view d) AND 0xF0 = 0xF0"
    and "\<And>i. irq_count (view d) \<le> i \<Longrightarrow> g_priority (view d) i AND g_impl (view d) = g_priority (view d) i"
  shows "r \<and> view d' = (gic_configured (view d))\<lparr>
      g_priority := (g_priority (gic_configured (view d)))(30 := 0x80),
      g_enabled := (g_enabled (gic_configured (view d)))(30 := True)\<rparr>"
proof -
  obtain r1 d1 where d1: "gic_init qemu b d = (r1, d1)" by fastforce
  from gic_init_view(2) [OF this assms(1)] have r1: "r1" and v1: "view d1 = gic_configured (view d)"
    by auto
  have impl: "0x80 AND g_impl (view d) = 0x80"
    using implemented_priorities [OF assms(3)] by simp
  have idem: "(0xFF AND x) AND x = 0xFF AND x" for x :: u8 by (simp add: and.assoc)
  have "view (gic_set_priority qemu b TIMER_IRQ 0x80 d1) =
      (view d1)\<lparr>g_priority := (g_priority (view d1))(30 := 0x80)\<rparr>"
    using set_priority_view [of TIMER_IRQ d1 "0x80"] assms(4) impl idem
    by (auto simp: TIMER_IRQ_def v1 gic_configured_def not_less)
  moreover have "d' = enable_timer_interrupt qemu b d1" "r"
    using assms(2) d1 r1 by (auto simp: gic_module_init_def)
  ultimately show ?thesis
    by (auto simp: enable_timer_interrupt_def irq_ops_view TIMER_IRQ_def v1 gic_configured_def
        intro!: gic.equality ext)
qed

lemma ack_end_view:
  assumes "gic_signal (view d) = Some i"
  shows "\<exists>d1. acknowledge_interrupt qemu b d = (of_nat i, d1) \<and> i < 1020 \<and>
    view d1 = (view d)\<lparr>g_active := i # g_active (view d), g_latch := (g_latch (view d))(i := False)\<rparr> \<and>
    view (end_interrupt qemu b (of_nat i) d1) = (view d)\<lparr>g_latch := (g_latch (view d))(i := False)\<rparr>"
proof -
  obtain v d1 where ack: "acknowledge_interrupt qemu b d = (v, d1)" by fastforce
  from acknowledge_view(2) [OF this assms] show ?thesis using ack by (auto simp: end_interrupt_view)
qed

end

section \<open>The driver as the kernel uses it\<close>

text \<open>
  The state in which the timer interrupt is the only one the controller passes on.
\<close>

definition timer_only :: "gic \<Rightarrow> bool" where
  "timer_only g \<longleftrightarrow> bit (g_ctlr g) 0 \<and> bit (g_cpu_ctlr g) 0 \<and> g_enabled g 30 \<and> g_priority g 30 < g_pmr g \<and>
     (\<forall>i \<in> {0..<1020} - {30}. g_enabled g i \<and> gic_pending g i \<longrightarrow> g_pmr g \<le> g_priority g i)"

lemma timer_only_signal:
  assumes "timer_only g" "g_active g = []"
  shows "gic_signal g = (if gic_pending g 30 then Some 30 else None)"
  using only_signal [of g 30] assms by (auto simp: timer_only_def eligible_def)

lemma timer_only_handled:
  "timer_only g \<Longrightarrow> timer_only (g\<lparr>g_active := a, g_latch := (g_latch g)(30 := False)\<rparr>)"
  by (auto simp: timer_only_def gic_pending_def)

lemma timer_only_quiet:
  assumes "timer_only g" "g_active g = [30]"
  shows "gic_signal g = None"
proof -
  have "g_priority g i < g_pmr g \<Longrightarrow> eligible g i \<Longrightarrow> i < 1020 \<Longrightarrow> i = 30" for i
    using assms(1) by (cases "i = 30") (auto simp: timer_only_def eligible_def)
  then have "gic_highest g = None"
    using assms(2) best_Some [of g "[0..<1020]"]
    by (fastforce simp: gic_highest_def eligible_def split: option.splits)
  then show ?thesis by (simp add: gic_signal_def)
qed

lemma module_init_outcome:
  assumes dev: "gic_device qemu b view" and run: "gic_module_init qemu b d = (ok, d')"
    and impl: "g_impl (view d) AND 0xF0 = 0xF0"
    and raz: "\<And>i. g_priority (view d) i AND g_impl (view d) = g_priority (view d) i"
    and absent: "\<And>i. irq_count (view d) \<le> i \<Longrightarrow> \<not> gic_pending (view d) i"
    and idle: "g_active (view d) = []"
  shows "(ok \<longleftrightarrow> g_typer (view d) \<notin> {0, 0xFFFFFFFF}) \<and> (\<not> ok \<longrightarrow> view d' = view d) \<and>
    (ok \<longrightarrow> timer_only (view d') \<and> g_active (view d') = [] \<and> g_line (view d') = g_line (view d) \<and>
      gic_signal (view d') = (if g_line (view d) 30 then Some 30 else None) \<and>
      (\<forall>i. 32 \<le> i \<and> i < irq_count (view d) \<longrightarrow> g_target (view d') i = 1 \<and> \<not> g_edge (view d') i))"
proof (cases "g_typer (view d) \<in> {0, 0xFFFFFFFF}")
  case True
  obtain r1 d1 where d1: "gic_init qemu b d = (r1, d1)" by fastforce
  from gic_device.gic_init_view(1) [OF dev this True] have "\<not> r1" "view d1 = view d" by auto
  with run d1 True show ?thesis by (auto simp: gic_module_init_def)
next
  case False
  from gic_device.module_init_view [OF dev False run impl raz] have ok and
    v: "view d' = (gic_configured (view d))\<lparr>
      g_priority := (g_priority (gic_configured (view d)))(30 := 0x80),
      g_enabled := (g_enabled (gic_configured (view d)))(30 := True)\<rparr>" by auto
  have count: "30 < irq_count (view d)" by (simp add: irq_count_def)
  have only: "timer_only (view d')"
    using absent implemented_priorities [OF impl] unfolding v
    by (auto simp: timer_only_def gic_configured_def gic_pending_def not_less)
  have act: "g_active (view d') = []" by (simp add: v gic_configured_def idle)
  have sig: "gic_signal (view d') = (if g_line (view d) 30 then Some 30 else None)"
    using count unfolding timer_only_signal [OF only act] by (simp add: v gic_configured_def gic_pending_def)
  from \<open>ok\<close> False only act sig show ?thesis by (auto simp: v gic_configured_def)
qed

text \<open>
  C36. For every bus with a GICv2 behind it: when the type register reads 0 or all ones, the module's
  \<open>init\<close> reports failure and leaves the controller as it was; otherwise it succeeds, and then the
  timer interrupt 30 is the only one that can reach the CPU, whatever was configured or pending
  before: it is signalled exactly when its line is high.  Every shared interrupt is sent to CPU 0
  and level triggered.
\<close>

theorem gic_init_passes_only_timer:
  assumes dev: "gic_device qemu b view" and run: "gic_module_init qemu b d = (ok, d')"
    and impl: "g_impl (view d) AND 0xF0 = 0xF0"
    and raz: "\<And>i. g_priority (view d) i AND g_impl (view d) = g_priority (view d) i"
    and absent: "\<And>i. irq_count (view d) \<le> i \<Longrightarrow> \<not> gic_pending (view d) i"
    and idle: "g_active (view d) = []"
  shows "(ok \<longleftrightarrow> g_typer (view d) \<notin> {0, 0xFFFFFFFF}) \<and> (\<not> ok \<longrightarrow> view d' = view d) \<and>
    (ok \<longrightarrow> timer_only (view d') \<and> g_active (view d') = [] \<and> g_line (view d') = g_line (view d) \<and>
      gic_signal (view d') = (if g_line (view d) 30 then Some 30 else None) \<and>
      (\<forall>i. 32 \<le> i \<and> i < irq_count (view d) \<longrightarrow> g_target (view d') i = 1 \<and> \<not> g_edge (view d') i))"
  using assms by (rule module_init_outcome)

definition example_gic :: gic where
  "example_gic = \<lparr>g_typer = 1, g_impl = 0xF8, g_ctlr = 0, g_enabled = (\<lambda>i. i < 16 \<or> i = 40),
     g_line = (\<lambda>i. i = 30 \<or> i = 40), g_latch = (\<lambda>i. i = 33), g_priority = (\<lambda>_. 0), g_target = (\<lambda>_. 0),
     g_edge = (\<lambda>_. False), g_active = [], g_cpu_ctlr = 0, g_pmr = 0, g_bpr = 0\<rparr>"

theorem gic_init_passes_only_timer_witness:
  "fst (gic_module_init True (gic_bus True) example_gic) \<and>
   gic_signal (snd (gic_module_init True (gic_bus True) example_gic)) = Some 30"
  using gic_init_passes_only_timer [OF gic_bus_device, of True example_gic
      "fst (gic_module_init True (gic_bus True) example_gic)" "snd (gic_module_init True (gic_bus True) example_gic)"]
  by (simp add: example_gic_def gic_pending_def irq_count_def)

text \<open>
  In a state where only the timer passes, acknowledging gives 1023 and changes nothing when the timer
  is not pending; when it is, acknowledging gives 30, no further interrupt is signalled while it is
  handled, and ending it returns the controller to the state before, so the timer is signalled
  again exactly when its line is still high.
\<close>

theorem gic_acknowledge_then_end:
  assumes dev: "gic_device qemu b view" and only: "timer_only (view d)" and idle: "g_active (view d) = []"
  shows "(\<not> gic_pending (view d) 30 \<longrightarrow>
      (\<exists>d1. acknowledge_interrupt qemu b d = (SPURIOUS_IRQ, d1) \<and> view d1 = view d)) \<and>
    (gic_pending (view d) 30 \<longrightarrow>
      (\<exists>d1. acknowledge_interrupt qemu b d = (TIMER_IRQ, d1) \<and> gic_signal (view d1) = None \<and>
        view (end_interrupt qemu b TIMER_IRQ d1) = (view d)\<lparr>g_latch := (g_latch (view d))(30 := False)\<rparr> \<and>
        gic_signal (view (end_interrupt qemu b TIMER_IRQ d1)) = (if g_line (view d) 30 then Some 30 else None)))"
proof (cases "gic_pending (view d) 30")
  case False
  obtain v d1 where ack: "acknowledge_interrupt qemu b d = (v, d1)" by fastforce
  from gic_device.acknowledge_view(1) [OF dev ack] False show ?thesis
    using ack by (simp add: timer_only_signal [OF only idle])
next
  case True
  then have "gic_signal (view d) = Some 30" by (simp add: timer_only_signal [OF only idle])
  from gic_device.ack_end_view [OF dev this] obtain d1 where
    ack: "acknowledge_interrupt qemu b d = (of_nat 30, d1)" and
    v1: "view d1 = (view d)\<lparr>g_active := [30], g_latch := (g_latch (view d))(30 := False)\<rparr>" and
    v2: "view (end_interrupt qemu b (of_nat 30) d1) = (view d)\<lparr>g_latch := (g_latch (view d))(30 := False)\<rparr>"
    by (auto simp: idle)
  have "gic_signal (view d1) = None"
    unfolding v1 by (rule timer_only_quiet [OF timer_only_handled [OF only]]) simp
  moreover have "timer_only ((view d)\<lparr>g_latch := (g_latch (view d))(30 := False)\<rparr>)"
    using timer_only_handled [OF only, of "g_active (view d)"] by simp
  from timer_only_signal [OF this] have
    "gic_signal ((view d)\<lparr>g_latch := (g_latch (view d))(30 := False)\<rparr>) = (if g_line (view d) 30 then Some 30 else None)"
    by (simp add: idle gic_pending_def)
  ultimately show ?thesis using True ack v2 by (simp add: TIMER_IRQ_def)
qed

definition running_gic :: gic where
  "running_gic = example_gic\<lparr>g_ctlr := 1, g_enabled := (\<lambda>i. i = 30), g_priority := (\<lambda>_. 0x80), g_cpu_ctlr := 1,
     g_pmr := 0xF8\<rparr>"

lemma running_gic_ok: "timer_only running_gic" "g_active running_gic = []" "g_line running_gic 30"
  by (auto simp: running_gic_def example_gic_def timer_only_def)

theorem gic_acknowledge_then_end_witness:
  "\<exists>d1. acknowledge_interrupt True (gic_bus True) running_gic = (TIMER_IRQ, d1) \<and> gic_signal d1 = None"
  using gic_acknowledge_then_end [OF gic_bus_device running_gic_ok(1,2)] running_gic_ok(3)
  by (auto simp: gic_pending_def)

text \<open>
  C0. For an interrupt number from 16 to 1023, enabling, disabling, setting and clearing the pending
  state and setting the priority each change that interrupt and nothing else, and \<open>is_pending\<close>
  reads the line or the latch of that interrupt without changing the controller.
\<close>

theorem gic_irq_operations:
  assumes dev: "gic_device qemu b view" and irq: "16 \<le> unat irq" "unat irq < 1024"
    and raz: "\<And>i. g_priority (view d) i AND g_impl (view d) = g_priority (view d) i"
  shows "view (enable_irq qemu b irq d) = (view d)\<lparr>g_enabled := (g_enabled (view d))(unat irq := True)\<rparr> \<and>
    view (disable_irq qemu b irq d) = (view d)\<lparr>g_enabled := (g_enabled (view d))(unat irq := False)\<rparr> \<and>
    view (set_pending qemu b irq d) = (view d)\<lparr>g_latch := (g_latch (view d))(unat irq := True)\<rparr> \<and>
    view (clear_pending qemu b irq d) = (view d)\<lparr>g_latch := (g_latch (view d))(unat irq := False)\<rparr> \<and>
    view (gic_set_priority qemu b irq p d) =
      (view d)\<lparr>g_priority := (g_priority (view d))(unat irq := p AND g_impl (view d))\<rparr> \<and>
    (\<exists>d'. is_pending qemu b irq d = (gic_pending (view d) (unat irq), d') \<and> view d' = view d)"
proof -
  have upd: "(\<lambda>i. f i \<or> 16 \<le> i \<and> i = unat irq) = f(unat irq := True)"
    "(\<lambda>i. f i \<and> \<not> (16 \<le> i \<and> i = unat irq)) = f(unat irq := False)" for f
    using irq(1) by (auto simp: fun_eq_iff)
  obtain r d' where pend: "is_pending qemu b irq d = (r, d')" by fastforce
  show ?thesis
    using gic_device.is_pending_view [OF dev irq(2) pend] gic_device.irq_ops_view [OF dev irq(2), of d]
      gic_device.set_priority_view [OF dev irq(2) raz] pend
    unfolding upd by simp
qed

theorem gic_irq_operations_witness:
  "g_enabled (enable_irq False (gic_bus False) 40 running_gic) = (g_enabled running_gic)(40 := True)"
  using gic_irq_operations [OF gic_bus_device, of 40 running_gic False 0]
  by (simp add: running_gic_def example_gic_def)

end
