(* ===== verification/Vectors.thy ===== *)
theory Vectors
  imports Irq_Entry
begin

text \<open>
  The vector table of \<open>arch/aarch64_vectors.rs\<close>, the synchronous-exception entry \<open>sync_el1h\<close>
  instruction by instruction and the Rust function \<open>sync_exception_handler\<close> it calls.  A Rust
  function may leave anything in the caller-saved registers; \<open>clob\<close> stands for what it leaves.
\<close>

section \<open>Vector table\<close>

datatype exception_kind = Sync | Irq | Fiq | SError
datatype exception_source = EL1t | EL1h | EL0_64 | EL0_32

datatype vector = Hangs | IrqEntry | SyncEntry

text \<open>The sixteen entries in the order of the table; every handler but two is \<open>b .\<close>.\<close>

definition vectors :: "vector list" where
  "vectors =
    [Hangs, Hangs, Hangs, Hangs,
     SyncEntry, IrqEntry, Hangs, Hangs,
     Hangs, Hangs, Hangs, Hangs,
     Hangs, Hangs, Hangs, Hangs]"

primrec source_row :: "exception_source \<Rightarrow> nat" where
  "source_row EL1t = 0" | "source_row EL1h = 1" | "source_row EL0_64 = 2" | "source_row EL0_32 = 3"

primrec kind_column :: "exception_kind \<Rightarrow> nat" where
  "kind_column Sync = 0" | "kind_column Irq = 1" | "kind_column Fiq = 2" | "kind_column SError = 3"

text \<open>The hardware's dispatch: the entry 128 bytes times its index behind the table's base.\<close>

definition vector_offset :: "exception_source \<Rightarrow> exception_kind \<Rightarrow> u64" where
  "vector_offset src k = of_nat (128 * (4 * source_row src + kind_column k))"

definition dispatch :: "u64 \<Rightarrow> vector" where
  "dispatch offset = vectors ! (unat offset div 128)"

section \<open>Synchronous exceptions\<close>

definition sync_save :: "instr list" where
  "sync_save =
    [SubSP 272, Stp 0 1 SPB 0, Stp 2 3 SPB 16, Stp 4 5 SPB 32, Stp 6 7 SPB 48, Stp 8 9 SPB 64,
     Stp 10 11 SPB 80, Stp 12 13 SPB 96, Stp 14 15 SPB 112, Stp 16 17 SPB 128, Stp 18 19 SPB 144,
     Stp 20 21 SPB 160, Stp 22 23 SPB 176, Stp 24 25 SPB 192, Stp 26 27 SPB 208,
     Stp 28 29 SPB 224, Str 30 SPB 240,
     Mrs 0 ELR_EL1, Mrs 1 SPSR_EL1, Mrs 2 ESR_EL1, Mrs 3 FAR_EL1,
     Stp 0 1 SPB 248, Stp 2 3 SPB 264,
     MovFromSP 0]"

definition sync_restore :: "instr list" where
  "sync_restore =
    [Ldp 0 1 SPB 248, Msr ELR_EL1 0, Msr SPSR_EL1 1,
     Ldp 0 1 SPB 0, Ldp 2 3 SPB 16, Ldp 4 5 SPB 32, Ldp 6 7 SPB 48, Ldp 8 9 SPB 64,
     Ldp 10 11 SPB 80, Ldp 12 13 SPB 96, Ldp 14 15 SPB 112, Ldp 16 17 SPB 128, Ldp 18 19 SPB 144,
     Ldp 20 21 SPB 160, Ldp 22 23 SPB 176, Ldp 24 25 SPB 192, Ldp 26 27 SPB 208,
     Ldp 28 29 SPB 224, Ldr 30 SPB 240, AddSP 272]"

definition sync_el1h :: "(cpu \<Rightarrow> cpu res) \<Rightarrow> cpu \<Rightarrow> cpu res" where
  "sync_el1h handler = exec handler (sync_save @ [Bl] @ sync_restore @ [Eret])"

text \<open>
  The handler reads \<open>ctx.esr\<close> (offset 264 of \<open>ExceptionContext\<close>) through its argument x0 and
  returns for a supervisor call or an abort; anything else hangs.
\<close>

definition exception_class :: "u64 \<Rightarrow> u64" where
  "exception_class esr = drop_bit 26 esr AND 0x3F"

definition handled_class :: "u64 \<Rightarrow> bool" where
  "handled_class ec \<longleftrightarrow> ec = 0x15 \<or> ec = 0x20 \<or> ec = 0x21 \<or> ec = 0x24 \<or> ec = 0x25"

definition sync_exception_handler :: "(nat \<Rightarrow> u64) \<Rightarrow> cpu \<Rightarrow> cpu res" where
  "sync_exception_handler clob s =
     (let esr = mem s (gpr s 0 + 264); ec = exception_class esr
      in if handled_class ec
         then Inr (s\<lparr>gpr := (\<lambda>i. if i \<le> 18 \<or> i = 30 then clob i else gpr s i)\<rparr>)
         else Inl Hang)"

text \<open>The 272 bytes the entry reserves.\<close>

definition sync_frame :: "u64 \<Rightarrow> u64 set" where
  "sync_frame f = ctx_cells f"

lemma sync_save_run:
  assumes f: "sp s = f + 272" and h: "h = run_straight sync_save s"
  shows "gpr h 0 = f" "sp h = f"
    and "\<And>i. i < 31 \<Longrightarrow> mem h (f + 8 * of_nat i) = gpr s i"
    and "mem h (f + 248) = elr_el1 s" "mem h (f + 256) = spsr_el1 s" "mem h (f + 264) = esr_el1 s"
    "mem h (f + 272) = far_el1 s"
    and "\<And>a. a \<notin> ctx_cells f \<Longrightarrow> a \<noteq> f + 272 \<Longrightarrow> mem h a = mem s a"
proof -
  show "gpr h 0 = f" "sp h = f" by (simp_all add: h sync_save_def f Let_def)
  show "mem h (f + 248) = elr_el1 s" "mem h (f + 256) = spsr_el1 s" "mem h (f + 264) = esr_el1 s"
    "mem h (f + 272) = far_el1 s"
    by (simp_all add: h sync_save_def f Let_def)
  show "mem h (f + 8 * of_nat i) = gpr s i" if "i < 31" for i
    using less31_cases [OF that]
    by (elim insertE emptyE) (simp_all add: h sync_save_def f Let_def)
  show "mem h a = mem s a" if "a \<notin> ctx_cells f" "a \<noteq> f + 272" for a
    using that unfolding ctx_cells_explicit by (simp add: h sync_save_def f Let_def)
qed

lemma sync_restore_run:
  assumes "sp s = f" and h: "h = run_straight sync_restore s"
  shows "\<And>i. i < 31 \<Longrightarrow> gpr h i = mem s (f + 8 * of_nat i)"
    and "sp h = f + 272" "elr_el1 h = mem s (f + 248)" "spsr_el1 h = mem s (f + 256)"
    "mem h = mem s"
proof -
  show "gpr h i = mem s (f + 8 * of_nat i)" if "i < 31" for i
    using less31_cases [OF that]
    by (elim insertE emptyE) (simp_all add: h sync_restore_def assms(1) Let_def)
qed (simp_all add: h sync_restore_def assms(1) Let_def)

text \<open>
  C26. Synchronous exceptions that the handler accepts (supervisor calls, instruction and data
  aborts) return to the interrupted code with every register, the stack pointer and PSTATE as the
  exception found them, so an abort faults again at once.  Memory outside the reserved frame is
  unchanged with one exception: the frame is 272 bytes but the fault address is stored behind it,
  at the interrupted stack pointer, and overwrites the word on top of the interrupted stack.
\<close>

theorem sync_exception_returns_but_clobbers:
  assumes "handled_class (exception_class (esr_el1 s))"
  shows "\<exists>s'. sync_el1h (sync_exception_handler clob) s = Inr s' \<and>
    (\<forall>i < 31. gpr s' i = gpr s i) \<and> sp s' = sp s \<and> pc s' = elr_el1 s \<and>
    nzcv s' = spsr_el1 s AND NZCV_MASK \<and> daif s' = spsr_el1 s AND DAIF_MASK \<and>
    mem s' (sp s) = far_el1 s \<and>
    (\<forall>a. a \<notin> sync_frame (sp s - 272) \<and> a \<noteq> sp s \<longrightarrow> mem s' a = mem s a)"
proof -
  define f where "f = sp s - 272"
  have f: "sp s = f + 272" by (simp add: f_def)
  define h where "h = run_straight sync_save s"
  note sv = sync_save_run [OF f h_def]
  define h' where "h' = h\<lparr>gpr := (\<lambda>i. if i \<le> 18 \<or> i = 30 then clob i else gpr h i)\<rparr>"
  have call: "sync_exception_handler clob h = Inr h'"
    using assms sv by (simp add: sync_exception_handler_def h'_def Let_def)
  have st: "list_all straight sync_save" "list_all straight sync_restore"
    by (simp_all add: sync_save_def sync_restore_def)
  have run: "sync_el1h (sync_exception_handler clob) s = Inr (do_eret (run_straight sync_restore h'))"
    unfolding sync_el1h_def exec_straight [OF st(1)] h_def [symmetric]
    by (simp add: call exec_straight [OF st(2)] del: exec.simps)
  have hh: "sp h' = f" "mem h' = mem h" using sv by (simp_all add: h'_def)
  note ld = sync_restore_run [OF hh(1) refl, unfolded hh(2)]
  have "mem h a = mem s a" if "a \<notin> sync_frame f" "a \<noteq> sp s" for a
    using sv(8) [of a] that f by (simp add: sync_frame_def)
  then show ?thesis
    using run ld sv f by (intro exI [of _ "do_eret (run_straight sync_restore h')"])
      (simp add: do_eret_def f_def [symmetric])
qed

definition example_svc :: cpu where
  "example_svc = \<lparr>gpr = (\<lambda>i. of_nat i), sp = 0x8000, pc = 0x200, nzcv = 0, daif = 0x3C0, el_mode = 5,
     elr_el1 = 0x404, spsr_el1 = 0x60000005, esr_el1 = 0x56000000, far_el1 = 0xBAD, mem = (\<lambda>a. 0)\<rparr>"

theorem sync_exception_returns_but_clobbers_witness:
  "\<exists>s'. sync_el1h (sync_exception_handler (\<lambda>i. 99)) example_svc = Inr s' \<and> gpr s' 3 = 3 \<and>
     pc s' = 0x404 \<and> mem example_svc 0x8000 = 0 \<and> mem s' 0x8000 = 0xBAD"
proof -
  have "handled_class (exception_class (esr_el1 example_svc))"
    by (simp add: handled_class_def exception_class_def example_svc_def)
  from sync_exception_returns_but_clobbers [OF this, of "\<lambda>i. 99"] show ?thesis
    by (auto simp: example_svc_def)
qed

text \<open>
  Dispatch.  Of the sixteen vectors the hardware can enter, exactly the interrupt and the
  synchronous exception taken from the kernel's own mode EL1h lead to a handler; all the rest, FIQ, SError,
  every exception from EL0 and every one on SP_EL0, hangs.
\<close>

theorem vectors_dispatch:
  "dispatch (vector_offset src k) =
     (if src = EL1h \<and> k = Irq then IrqEntry else if src = EL1h \<and> k = Sync then SyncEntry else Hangs)"
  by (cases src; cases k) (simp_all add: dispatch_def vector_offset_def vectors_def)

end
