(* ===== verification/Platform.thy ===== *)
theory Platform
  imports Kernel_Properties Arch_Timer Gic Vectors
begin

text \<open>
  The interrupt path of the whole platform: the exception entry of \<open>arch/aarch64_vectors.rs\<close> calls
  \<open>irq_handler\<close>, which acknowledges the interrupt at the controller, runs the timer's handler of
  \<open>arch/aarch64.rs\<close> (mask the timer, preempt through the globally registered kernel, arm the timer
  again) and ends the interrupt.
\<close>

section \<open>State and operations\<close>

record ('s, 'h, 'd) platform =
  p_kernel :: "('s, 'h) system"
  p_registered :: "scheduler_type option"
  p_timer :: generic_timer
  p_device :: 'd
  p_vbar_el1 :: u64

text \<open>\<open>Kernel::register_global\<close>, for a kernel whose scheduler has the given type.\<close>

definition register_global :: "scheduler_type \<Rightarrow> ('s, 'h, 'd) platform \<Rightarrow> ('s, 'h, 'd) platform" where
  "register_global t p = p\<lparr>p_registered := Some t\<rparr>"

text \<open>\<open>install_vector_table\<close>; the argument is the address of \<open>_vectors\<close>.\<close>

definition install_vector_table :: "u64 \<Rightarrow> ('s, 'h, 'd) platform \<Rightarrow> ('s, 'h, 'd) platform" where
  "install_vector_table vectors_addr p = p\<lparr>p_vbar_el1 := vectors_addr\<rparr>"

definition timer_interrupt_handler ::
  "'s scheduler_ops \<Rightarrow> instant \<Rightarrow> bool \<Rightarrow> ('s, 'h, 'd) platform \<Rightarrow> ('s, 'h, 'd) platform res" where
  "timer_interrupt_handler ops now checks p =
     (let p1 = p\<lparr>p_timer := mask_timer (p_timer p)\<rparr>
      in rbind (get_global_kernel (p_registered p1) RoundRobin) (\<lambda>found.
         rbind (if found
                then rbind (handle_irq_preemption ops now (p_kernel p1)) (\<lambda>w. Inr (p1\<lparr>p_kernel := w\<rparr>))
                else Inr p1) (\<lambda>p2.
         rbind (setup_preemption_timer checks 1000 (p_timer p2)) (\<lambda>(_, t).
           Inr (p2\<lparr>p_timer := t\<rparr>)))))"

definition irq_handler ::
  "bool \<Rightarrow> 'd bus \<Rightarrow> 's scheduler_ops \<Rightarrow> instant \<Rightarrow> bool \<Rightarrow>
   ('s, 'h, 'd) platform \<Rightarrow> ('s, 'h, 'd) platform res" where
  "irq_handler qemu b ops now checks p =
     (case acknowledge_interrupt qemu b (p_device p) of (irq, d1) \<Rightarrow>
        let p1 = p\<lparr>p_device := d1\<rparr>
        in if irq = SPURIOUS_IRQ then Inr p1
           else
             rbind (if irq = TIMER_IRQ then timer_interrupt_handler ops now checks p1 else Inr p1) (\<lambda>p2.
               Inr (p2\<lparr>p_device := end_interrupt qemu b irq (p_device p2)\<rparr>)))"

text \<open>
  Taking an interrupt: the entry code stores the live state to \<open>IRQ_SAVE_CTX\<close>, calls the handler and
  loads the state of \<open>IRQ_LOAD_CTX\<close>, as \<open>timer_irq\<close> does for the kernel alone.
\<close>

definition irq_enter :: "('s, 'h) system \<Rightarrow> ('s, 'h) system res" where
  "irq_enter w =
     (let m = s_machine w
      in rbind (if m_save m = 0 then Inr (s_threads w)
                else store_context (m_save m) (m_live m) (s_threads w)) (\<lambda>st. Inr (w\<lparr>s_threads := st\<rparr>)))"

definition irq_leave :: "('s, 'h) system \<Rightarrow> ('s, 'h) system res" where
  "irq_leave w =
     (let m = s_machine w
      in if m_load m = 0 then Inl Hang
         else rbind (thread_context (m_load m) (s_threads w)) (\<lambda>c.
           Inr (w\<lparr>s_machine := m\<lparr>m_exec := m_load m, m_live := c\<rparr>\<rparr>)))"

definition take_platform_irq ::
  "(('s, 'h, 'd) platform \<Rightarrow> ('s, 'h, 'd) platform res) \<Rightarrow> ('s, 'h, 'd) platform \<Rightarrow>
   ('s, 'h, 'd) platform res" where
  "take_platform_irq handler p =
     rbind (irq_enter (p_kernel p)) (\<lambda>w.
     rbind (handler (p\<lparr>p_kernel := w\<rparr>)) (\<lambda>p1.
     rbind (irq_leave (p_kernel p1)) (\<lambda>w2. Inr (p1\<lparr>p_kernel := w2\<rparr>))))"

text \<open>
  \<open>boot_rust\<close>: the Rust part of the boot code, up to the call of the application's \<open>kernel_main\<close>.
  Only a build for the QEMU machine initialises the interrupt controller; it waits for ever when
  the controller does not answer.
\<close>

definition boot_rust ::
  "bool \<Rightarrow> 'd bus \<Rightarrow> u64 \<Rightarrow> (('s, 'h, 'd) platform \<Rightarrow> 'r res) \<Rightarrow> ('s, 'h, 'd) platform \<Rightarrow> 'r res" where
  "boot_rust qemu b vectors_addr kernel_main p =
     (let p1 = install_vector_table vectors_addr p
      in rbind (if qemu then
                  (case gic_module_init qemu b (p_device p1) of (gic_ok, d) \<Rightarrow>
                     if gic_ok then Inr (p1\<lparr>p_device := d\<rparr>) else Inl Hang)
                else Inr p1) (\<lambda>p2.
         kernel_main (p2\<lparr>p_timer := arch_init (p_timer p2)\<rparr>)))"

section \<open>Lemmas\<close>

lemma timer_irq_phases:
  "timer_irq handler w = rbind (irq_enter w) (\<lambda>w0. rbind (handler w0) irq_leave)"
  by (cases "if m_save (s_machine w) = 0 then Inr (s_threads w)
      else store_context (m_save (s_machine w)) (m_live (s_machine w)) (s_threads w)")
    (simp_all add: timer_irq_def irq_enter_def irq_leave_def [abs_def] Let_def split del: if_split)

text \<open>
  The timer's output is wired to interrupt 30 of the controller.
\<close>

definition wired :: "('d \<Rightarrow> gic) \<Rightarrow> ('s, 'h, 'd) platform \<Rightarrow> gic" where
  "wired view p = (view (p_device p))\<lparr>g_line := (g_line (view (p_device p)))(30 := timer_line (p_timer p))\<rparr>"

text \<open>When the kernel part of an interrupt works out, so does the whole.\<close>

lemma take_platform_irq_kernel:
  assumes "timer_irq handler (p_kernel p) = Inr w'"
    and "\<And>w0 w1. handler w0 = Inr w1 \<Longrightarrow> \<exists>p1. h (p\<lparr>p_kernel := w0\<rparr>) = Inr (p1\<lparr>p_kernel := w1\<rparr>) \<and> Q p1"
  shows "\<exists>p1. take_platform_irq h p = Inr (p1\<lparr>p_kernel := w'\<rparr>) \<and> Q p1"
proof -
  from assms(1) obtain w0 w1 where w: "irq_enter (p_kernel p) = Inr w0" "handler w0 = Inr w1" "irq_leave w1 = Inr w'"
    unfolding timer_irq_phases by (auto simp: rbind_eq_Inr)
  from assms(2) [OF w(2)] obtain p1 where "h (p\<lparr>p_kernel := w0\<rparr>) = Inr (p1\<lparr>p_kernel := w1\<rparr>)" "Q p1" by blast
  with w show ?thesis by (auto simp: take_platform_irq_def)
qed

lemma irq_handler_timer:
  assumes "acknowledge_interrupt qemu b (p_device p) = (TIMER_IRQ, d1)" "p_registered p = Some RoundRobin"
    "handle_irq_preemption ops now (p_kernel p) = Inr w1"
    "setup_preemption_timer checks 1000 (mask_timer (p_timer p)) = Inr (r, t)"
  shows "irq_handler qemu b ops now checks p =
    Inr (p\<lparr>p_kernel := w1, p_timer := t, p_device := end_interrupt qemu b TIMER_IRQ d1\<rparr>)"
  using assms by (simp add: irq_handler_def timer_interrupt_handler_def get_global_kernel_def Let_def
      TIMER_IRQ_def SPURIOUS_IRQ_def)

lemma wired_line: "g_line (wired view p) 30 = timer_line (p_timer p)"
  by (simp add: wired_def)

lemma timer_acknowledged:
  assumes dev: "gic_device qemu b view" and "timer_only (view d)" "g_active (view d) = []" "g_line (view d) 30"
  obtains d1 where "acknowledge_interrupt qemu b d = (TIMER_IRQ, d1)"
    "view (end_interrupt qemu b TIMER_IRQ d1) = (view d)\<lparr>g_latch := (g_latch (view d))(30 := False)\<rparr>"
proof -
  have "gic_signal (view d) = Some 30"
    using assms(4) by (simp add: timer_only_signal [OF assms(2,3)] gic_pending_def)
  from gic_device.ack_end_view [OF dev this] that show thesis by (auto simp: TIMER_IRQ_def)
qed

text \<open>Re-arming after the handler has masked the timer.\<close>

lemma rearmed:
  assumes "TIMER_FREQ t \<noteq> 0" "unat (TIMER_FREQ t) * 1000 < 2 ^ 64"
    "unat (cntpct_el0 t) + unat (TIMER_FREQ t) * 1000 div 1000000 < 2 ^ 64"
  obtains t' where "setup_preemption_timer checks 1000 (mask_timer t) = Inr (True, t')"
    "cntpct_el0 t' = cntpct_el0 t" "TIMER_FREQ t' = TIMER_FREQ t"
    "\<And>n. cntpct_el0 t \<le> n \<Longrightarrow> timer_line (t'\<lparr>cntpct_el0 := n\<rparr>) \<longleftrightarrow>
      unat (TIMER_FREQ t) * 1000 div 1000000 \<le> unat n - unat (cntpct_el0 t)"
proof -
  obtain t' where t': "setup_preemption_timer checks 1000 (mask_timer t) = Inr (True, t')"
    "unat (cntp_cval_el0 t') = unat (cntpct_el0 t) + unat (TIMER_FREQ t) * 1000 div 1000000"
    "t' = (mask_timer t)\<lparr>cntp_cval_el0 := cntp_cval_el0 t', cntp_ctl_el0 := 1\<rparr>"
    using setup_timer_fits [of "mask_timer t" 1000 checks] assms by (auto simp: mask_timer_def)
  have f: "cntpct_el0 t' = cntpct_el0 t" "TIMER_FREQ t' = TIMER_FREQ t" "cntp_ctl_el0 t' = 1"
    using arg_cong [OF t'(3), of cntpct_el0] arg_cong [OF t'(3), of TIMER_FREQ] arg_cong [OF t'(3), of cntp_ctl_el0]
    by (simp_all add: mask_timer_def)
  show thesis
    using t'(2) f by (intro that [OF t'(1) f(1,2)])
      (auto simp: timer_line_def timer_condition_def word_le_nat_alt bit_1_iff)
qed

section \<open>Properties\<close>

text \<open>
  A timer tick, end to end.  Let the controller pass only the timer and be idle, the timer's
  line be up, a round-robin kernel be registered and its interrupt pointers linked, and the
  timer initialised.  Then taking the interrupt completes; the kernel is as after its own
  preemption step, so the next thread runs with its registers and every thread keeps its
  registers; the timer's line is down, the interrupt has been ended, and the next interrupt is
  signalled exactly when one millisecond's worth of ticks has passed.
\<close>

theorem timer_tick_preempts_and_rearms:
  assumes dev: "gic_device qemu b view" and only: "timer_only (view (p_device p))"
    and idle: "g_active (view (p_device p)) = []"
    and wire: "wired view p = view (p_device p)" "timer_line (p_timer p)"
    and reg: "p_registered p = Some RoundRobin"
    and kernel: "kernel_inv rr1_ready rr1_ok (p_kernel p)" "control_ok (p_kernel p)" "irq_linked (p_kernel p)"
    and freq: "1000 \<le> unat (TIMER_FREQ (p_timer p))" "unat (TIMER_FREQ (p_timer p)) * 1000 < 2 ^ 64"
      "unat (cntpct_el0 (p_timer p)) + unat (TIMER_FREQ (p_timer p)) * 1000 div 1000000 < 2 ^ 64"
  shows "\<exists>p'. take_platform_irq (irq_handler qemu b rr_ops now checks) p = Inr p' \<and>
    timer_irq (handle_irq_preemption rr_ops now) (p_kernel p) = Inr (p_kernel p') \<and>
    irq_linked (p_kernel p') \<and> kernel_inv rr1_ready rr1_ok (p_kernel p') \<and>
    (\<forall>q. arc_live (s_threads (p_kernel p)) q \<longrightarrow> thread_regs (p_kernel p') q = thread_regs (p_kernel p) q) \<and>
    \<not> timer_line (p_timer p') \<and> timer_only (view (p_device p')) \<and> g_active (view (p_device p')) = [] \<and>
    (\<forall>n \<ge> cntpct_el0 (p_timer p).
      gic_signal (wired view (p'\<lparr>p_timer := (p_timer p')\<lparr>cntpct_el0 := n\<rparr>\<rparr>)) =
        (if unat (TIMER_FREQ (p_timer p)) * 1000 div 1000000 \<le> unat n - unat (cntpct_el0 (p_timer p))
         then Some 30 else None))"
proof -
  let ?f = "unat (TIMER_FREQ (p_timer p))"
  obtain w' where w': "timer_irq (handle_irq_preemption rr_ops now) (p_kernel p) = Inr w'" "irq_linked w'"
    "kernel_inv rr1_ready rr1_ok w'"
    "\<And>q. arc_live (s_threads (p_kernel p)) q \<Longrightarrow> thread_regs w' q = thread_regs (p_kernel p) q"
    by (rule rr_timer_transparent [OF kernel, where now = now]) (rule that; assumption)
  have line: "g_line (view (p_device p)) 30" using wire by (metis wired_line)
  obtain d1 where d1: "acknowledge_interrupt qemu b (p_device p) = (TIMER_IRQ, d1)"
    "view (end_interrupt qemu b TIMER_IRQ d1) =
      (view (p_device p))\<lparr>g_latch := (g_latch (view (p_device p)))(30 := False)\<rparr>"
    by (rule timer_acknowledged [OF dev only idle line]) (rule that; assumption)
  have nz: "TIMER_FREQ (p_timer p) \<noteq> 0" using freq(1) by auto
  obtain t where t: "setup_preemption_timer checks 1000 (mask_timer (p_timer p)) = Inr (True, t)"
    "cntpct_el0 t = cntpct_el0 (p_timer p)" "TIMER_FREQ t = TIMER_FREQ (p_timer p)"
    "\<And>n. cntpct_el0 (p_timer p) \<le> n \<Longrightarrow> timer_line (t\<lparr>cntpct_el0 := n\<rparr>) \<longleftrightarrow>
      ?f * 1000 div 1000000 \<le> unat n - unat (cntpct_el0 (p_timer p))"
    by (rule rearmed [OF nz freq(2,3), where checks = checks]) (rule that; assumption)
  define p1 where "p1 = p\<lparr>p_timer := t, p_device := end_interrupt qemu b TIMER_IRQ d1\<rparr>"
  have "\<exists>p'. take_platform_irq (irq_handler qemu b rr_ops now checks) p = Inr (p'\<lparr>p_kernel := w'\<rparr>) \<and> p' = p1"
  proof (rule take_platform_irq_kernel [OF w'(1)])
    fix w0 w1 :: "(round_robin, 'b) system"
    assume "handle_irq_preemption rr_ops now w0 = Inr w1"
    with irq_handler_timer [of qemu b "p\<lparr>p_kernel := w0\<rparr>" d1 rr_ops now w1 checks True t] d1(1) reg t(1)
    show "\<exists>p'. irq_handler qemu b rr_ops now checks (p\<lparr>p_kernel := w0\<rparr>) = Inr (p'\<lparr>p_kernel := w1\<rparr>) \<and> p' = p1"
      by (simp add: p1_def)
  qed
  then have run: "take_platform_irq (irq_handler qemu b rr_ops now checks) p = Inr (p1\<lparr>p_kernel := w'\<rparr>)" by simp
  have pos: "0 < ?f * 1000 div 1000000" using freq(1) by (simp add: div_greater_zero_iff)
  have quiet: "\<not> timer_line t"
    using t(4) [of "cntpct_el0 (p_timer p)"] pos unfolding t(2) [symmetric] by simp
  have v: "view (p_device p1) = (view (p_device p))\<lparr>g_latch := (g_latch (view (p_device p)))(30 := False)\<rparr>"
    by (simp add: p1_def d1(2))
  then have act: "g_active (view (p_device p1)) = []" by (simp add: idle)
  have pt: "p_timer p1 = t" by (simp add: p1_def)
  have only1: "timer_only ((view (p_device p1))\<lparr>g_line := (g_line (view (p_device p1)))(30 := l)\<rparr>)" for l
    using only by (auto simp: v timer_only_def gic_pending_def)
  from only1 [of "g_line (view (p_device p1)) 30"] have only': "timer_only (view (p_device p1))" by simp
  have "gic_signal (wired view (p1\<lparr>p_kernel := w', p_timer := t\<lparr>cntpct_el0 := n\<rparr>\<rparr>)) =
      (if ?f * 1000 div 1000000 \<le> unat n - unat (cntpct_el0 (p_timer p)) then Some 30 else None)"
    if "cntpct_el0 (p_timer p) \<le> n" for n
    using timer_only_signal [OF only1] t(4) [OF that] by (simp add: wired_def v idle gic_pending_def)
  then show ?thesis
    using run w' quiet only' act pt by (intro exI [of _ "p1\<lparr>p_kernel := w'\<rparr>"]) auto
qed

theorem timer_tick_preempts_and_rearms_witness:
  "\<exists>(p :: (round_robin, bump_heap, gic) platform) p'.
     take_platform_irq (irq_handler True (gic_bus True) rr_ops (Instant 3) True) p = Inr p' \<and>
     current (p_kernel p) \<noteq> None \<and> \<not> timer_line (p_timer p') \<and> irq_linked (p_kernel p')"
proof (rule rr_boot)
  fix w c d
  assume r: "kernel_run rr_ops (bump_alloc [])
      (kernel_new (rr_new (\<lambda>i l. []) 1) (arc_empty 5 []) boot_heap reset_machine)
      [Init True, Spawn (Inr 1), Spawn (Inr 2), Start] w"
    and w: "current w = Some c" "rr1_ready (k_scheduler w) = [d]" "m_save (s_machine w) = c" "m_load (s_machine w) = c"
  have "system_inv rr1_ready rr1_ok bump_taken bump_ok w"
    by (rule rr_kernel.reached(1) [OF r rr1_ok_new boot_heap_ok reset_machine_boot]) simp
  then have i: "kernel_inv rr1_ready rr1_ok w" "control_ok w" by (simp_all add: system_inv_def)
  define p :: "(round_robin, bump_heap, gic) platform" where
    "p = \<lparr>p_kernel = w, p_registered = Some RoundRobin,
       p_timer = (arch_init example_timer)\<lparr>cntpct_el0 := 2000, cntp_cval_el0 := 1500\<rparr>,
       p_device = running_gic, p_vbar_el1 = 0x80800\<rparr>"
  have p: "p_kernel p = w" "p_registered p = Some RoundRobin" "p_device p = running_gic"
    "TIMER_FREQ (p_timer p) = 62500000" "cntpct_el0 (p_timer p) = 2000" "timer_line (p_timer p)"
    by (simp_all add: p_def arch_init_def example_timer_def timer_line_def timer_condition_def bit_1_iff)
  have "wired (\<lambda>g. g) p = p_device p"
    using running_gic_ok(3) p(3,6) by (simp add: wired_def fun_upd_idem)
  moreover have "irq_linked (p_kernel p)" using w by (simp add: irq_linked_def p(1))
  moreover have "timer_only (p_device p)" "g_active (p_device p) = []" by (simp_all add: p(3) running_gic_ok)
  ultimately obtain p' where
    "take_platform_irq (irq_handler True (gic_bus True) rr_ops (Instant 3) True) p = Inr p'"
    "\<not> timer_line (p_timer p')" "irq_linked (p_kernel p')"
    using timer_tick_preempts_and_rearms [OF gic_bus_device, of p True "Instant 3" True] i p by auto
  then show ?thesis using w(1) p(1) by (intro exI [of _ p] exI [of _ p']) simp
qed

text \<open>
  C37. The other interrupts.  Without a pending interrupt the handler changes nothing and ends no
  interrupt.  Any other interrupt than the timer's is acknowledged and ended and nothing else
  happens.  With no kernel registered the timer is still armed again.  With a first-come-first-served
  kernel registered the handler reinterprets it as a round-robin kernel.
\<close>

theorem irq_handler_other_cases:
  assumes dev: "gic_device qemu b view"
  shows "(gic_signal (view (p_device p)) = None \<longrightarrow>
      (\<exists>d1. irq_handler qemu b ops now checks p = Inr (p\<lparr>p_device := d1\<rparr>) \<and> view d1 = view (p_device p))) \<and>
    (\<forall>i. gic_signal (view (p_device p)) = Some i \<and> i \<noteq> 30 \<longrightarrow>
      (\<exists>d1. irq_handler qemu b ops now checks p = Inr (p\<lparr>p_device := d1\<rparr>) \<and>
        view d1 = (view (p_device p))\<lparr>g_latch := (g_latch (view (p_device p)))(i := False)\<rparr>)) \<and>
    (gic_signal (view (p_device p)) = Some 30 \<and> p_registered p = Some FirstComeFirstServe \<longrightarrow>
      irq_handler qemu b ops now checks p = Inl TypeConfusion) \<and>
    (gic_signal (view (p_device p)) = Some 30 \<and> p_registered p = None \<and>
      setup_preemption_timer checks 1000 (mask_timer (p_timer p)) = Inr (r, t) \<longrightarrow>
      (\<exists>d1. irq_handler qemu b ops now checks p = Inr (p\<lparr>p_timer := t, p_device := d1\<rparr>) \<and>
        g_active (view d1) = g_active (view (p_device p))))"
proof -
  have other: "\<exists>d1. irq_handler qemu b ops now checks p = Inr (p\<lparr>p_device := d1\<rparr>) \<and>
      view d1 = (view (p_device p))\<lparr>g_latch := (g_latch (view (p_device p)))(i := False)\<rparr>"
    if "gic_signal (view (p_device p)) = Some i" "i \<noteq> 30" for i
  proof -
    from gic_device.ack_end_view [OF dev that(1)] obtain d1 where
      a: "acknowledge_interrupt qemu b (p_device p) = (of_nat i, d1)" "i < 1020"
      "view (end_interrupt qemu b (of_nat i) d1) =
        (view (p_device p))\<lparr>g_latch := (g_latch (view (p_device p)))(i := False)\<rparr>" by auto
    have "unat (of_nat i :: u32) = i" using a(2) by (simp add: unat_of_nat)
    with a(2) that(2) have "(of_nat i :: u32) \<noteq> TIMER_IRQ" "(of_nat i :: u32) \<noteq> SPURIOUS_IRQ"
      by (auto simp: TIMER_IRQ_def SPURIOUS_IRQ_def dest: arg_cong [where f = unat])
    with a show ?thesis
      by (intro exI [of _ "end_interrupt qemu b (of_nat i) d1"]) (simp add: irq_handler_def)
  qed
  have none: "\<exists>d1. irq_handler qemu b ops now checks p = Inr (p\<lparr>p_device := d1\<rparr>) \<and> view d1 = view (p_device p)"
    if "gic_signal (view (p_device p)) = None"
  proof -
    obtain v d1 where "acknowledge_interrupt qemu b (p_device p) = (v, d1)" by fastforce
    with gic_device.acknowledge_view(1) [OF dev this that] show ?thesis
      by (intro exI [of _ d1]) (simp add: irq_handler_def)
  qed
  have timer: "\<exists>d1. acknowledge_interrupt qemu b (p_device p) = (TIMER_IRQ, d1) \<and>
      g_active (view (end_interrupt qemu b TIMER_IRQ d1)) = g_active (view (p_device p))"
    if "gic_signal (view (p_device p)) = Some 30"
    using gic_device.ack_end_view [OF dev that] by (auto simp: TIMER_IRQ_def)
  have neq: "TIMER_IRQ \<noteq> SPURIOUS_IRQ" by (simp add: TIMER_IRQ_def SPURIOUS_IRQ_def)
  show ?thesis
    using none other timer neq
    by (auto simp: irq_handler_def timer_interrupt_handler_def get_global_kernel_def Let_def)
      (rule exI, rule conjI [OF refl], assumption)
qed

theorem irq_handler_other_cases_witness:
  "irq_handler True (gic_bus True) fcfs_ops (Instant 3) True
     \<lparr>p_kernel = kernel_new (fcfs_new []) (arc_empty 5 []) boot_heap reset_machine,
      p_registered = Some FirstComeFirstServe, p_timer = arch_init example_timer,
      p_device = running_gic, p_vbar_el1 = 0x80800\<rparr> = Inl TypeConfusion"
  by (rule irq_handler_other_cases [OF gic_bus_device, THEN conjunct2, THEN conjunct2, THEN conjunct1, THEN mp])
    (simp add: timer_only_signal [OF running_gic_ok(1,2)] gic_pending_def running_gic_ok(3))

text \<open>
  C34. What the boot code hands to \<open>kernel_main\<close>.  On the QEMU build with a working controller it is
  called with the vector table installed, the timer frequency cached and the controller passing
  only the timer interrupt, and nothing of the kernel touched; with a controller that does not
  answer it is never called.  On the Raspberry Pi build the controller is not touched at all.
\<close>

theorem boot_rust_prepares:
  assumes dev: "gic_device qemu b view"
    and impl: "g_impl (view (p_device p)) AND 0xF0 = 0xF0"
    and raz: "\<And>i. g_priority (view (p_device p)) i AND g_impl (view (p_device p)) = g_priority (view (p_device p)) i"
    and absent: "\<And>i. irq_count (view (p_device p)) \<le> i \<Longrightarrow> \<not> gic_pending (view (p_device p)) i"
    and idle: "g_active (view (p_device p)) = []"
  shows "(qemu \<and> g_typer (view (p_device p)) \<in> {0, 0xFFFFFFFF} \<longrightarrow>
      boot_rust qemu b vec main p = Inl Hang) \<and>
    (\<not> qemu \<longrightarrow> boot_rust qemu b vec main p =
      main (p\<lparr>p_vbar_el1 := vec, p_timer := arch_init (p_timer p)\<rparr>)) \<and>
    (qemu \<and> g_typer (view (p_device p)) \<notin> {0, 0xFFFFFFFF} \<longrightarrow>
      (\<exists>d. boot_rust qemu b vec main p =
          main (p\<lparr>p_vbar_el1 := vec, p_device := d, p_timer := arch_init (p_timer p)\<rparr>) \<and>
        timer_only (view d) \<and> g_active (view d) = [] \<and> g_line (view d) = g_line (view (p_device p))))"
proof -
  obtain ok d where d: "gic_module_init qemu b (p_device p) = (ok, d)" by fastforce
  have "(ok \<longleftrightarrow> g_typer (view (p_device p)) \<notin> {0, 0xFFFFFFFF}) \<and>
      (ok \<longrightarrow> timer_only (view d) \<and> g_active (view d) = [] \<and> g_line (view d) = g_line (view (p_device p)))"
    using module_init_outcome [OF dev d impl raz absent idle] by blast
  with d show ?thesis
    by (auto simp: boot_rust_def install_vector_table_def Let_def intro!: exI [of _ d])
qed

theorem boot_rust_prepares_witness:
  "\<exists>d. boot_rust True (gic_bus True) 0x80800 (\<lambda>p. Inr (p_vbar_el1 p, p_device p))
     \<lparr>p_kernel = kernel_new (fcfs_new []) (arc_empty 5 []) boot_heap reset_machine,
      p_registered = None, p_timer = example_timer, p_device = example_gic, p_vbar_el1 = 0\<rparr> = Inr (0x80800, d) \<and>
     timer_only d"
  (is "\<exists>d. boot_rust _ _ _ ?main ?p = _ \<and> _")
proof -
  have g: "g_impl example_gic AND 0xF0 = 0xF0" "\<And>i. g_priority example_gic i AND g_impl example_gic = g_priority example_gic i"
    "\<And>i. irq_count example_gic \<le> i \<Longrightarrow> \<not> gic_pending example_gic i" "g_active example_gic = []"
    "g_typer example_gic \<notin> {0, 0xFFFFFFFF}"
    by (simp_all add: example_gic_def gic_pending_def irq_count_def)
  from boot_rust_prepares [OF gic_bus_device, of ?p True "0x80800" ?main] g show ?thesis by auto
qed

end
