(* ===== verification/Uart.thy ===== *)
theory Uart
  imports Mmio
begin

text \<open>
  The PL011 driver of \<open>arch/uart_pl011.rs\<close>.  The first argument of the operations says whether the
  crate is built with the feature \<open>qemu-virt\<close>.  The wait for room in the transmit FIFO is a loop that
  runs as long as the device says so: it is a partial function, and what it needs of the device to
  end is the law of the interface below.
\<close>

section \<open>Registers\<close>

definition UART0_BASE :: "bool \<Rightarrow> usize" where
  "UART0_BASE qemu_virt = (if qemu_virt then 0x09000000 else 0x3F201000)"

definition UART0_DR :: "bool \<Rightarrow> usize" where "UART0_DR q = UART0_BASE q"
definition UART0_FR :: "bool \<Rightarrow> usize" where "UART0_FR q = UART0_BASE q + 0x18"
definition UART0_IBRD :: "bool \<Rightarrow> usize" where "UART0_IBRD q = UART0_BASE q + 0x24"
definition UART0_FBRD :: "bool \<Rightarrow> usize" where "UART0_FBRD q = UART0_BASE q + 0x28"
definition UART0_LCRH :: "bool \<Rightarrow> usize" where "UART0_LCRH q = UART0_BASE q + 0x2C"
definition UART0_CR :: "bool \<Rightarrow> usize" where "UART0_CR q = UART0_BASE q + 0x30"
definition UART0_ICR :: "bool \<Rightarrow> usize" where "UART0_ICR q = UART0_BASE q + 0x44"

definition PERIPHERAL_BASE :: usize where "PERIPHERAL_BASE = 0x3F000000"
definition GPIO_BASE :: usize where "GPIO_BASE = PERIPHERAL_BASE + 0x200000"
definition GPFSEL1 :: usize where "GPFSEL1 = GPIO_BASE + 0x04"
definition GPPUD :: usize where "GPPUD = GPIO_BASE + 0x94"
definition GPPUDCLK0 :: usize where "GPPUDCLK0 = GPIO_BASE + 0x98"

definition FR_TXFF :: u32 where "FR_TXFF = push_bit 5 1"

lemmas uart_registers = UART0_BASE_def UART0_DR_def UART0_FR_def UART0_IBRD_def UART0_FBRD_def
  UART0_LCRH_def UART0_CR_def UART0_ICR_def PERIPHERAL_BASE_def GPIO_BASE_def GPFSEL1_def GPPUD_def
  GPPUDCLK0_def

section \<open>The driver\<close>

fun delay_cycles :: "nat \<Rightarrow> 'd \<Rightarrow> 'd" where
  "delay_cycles 0 d = d"
| "delay_cycles (Suc n) d = delay_cycles n d"

lemma delay_cycles_id [simp]: "delay_cycles n d = d"
  by (induction n) simp_all

definition gpio_init :: "'d bus \<Rightarrow> 'd \<Rightarrow> 'd" where
  "gpio_init b d =
     (case read_volatile b GPFSEL1 d of (gpfsel1, d1) \<Rightarrow>
        let gpfsel1 = gpfsel1 AND NOT (push_bit 12 7 OR push_bit 15 7);
            gpfsel1 = gpfsel1 OR (push_bit 12 4 OR push_bit 15 4);
            d2 = write_volatile b GPFSEL1 gpfsel1 d1;
            d3 = delay_cycles 150 (write_volatile b GPPUD 0 d2);
            d4 = delay_cycles 150 (write_volatile b GPPUDCLK0 (push_bit 14 1 OR push_bit 15 1) d3)
        in write_volatile b GPPUDCLK0 0 d4)"

definition uart_init :: "bool \<Rightarrow> 'd bus \<Rightarrow> 'd \<Rightarrow> 'd" where
  "uart_init qemu b d =
     (let d1 = write_volatile b (UART0_CR qemu) 0 d;
          d2 = (if qemu then d1 else gpio_init b d1);
          d3 = write_volatile b (UART0_ICR qemu) 0x7FF d2;
          d4 = write_volatile b (UART0_IBRD qemu) 1 d3;
          d5 = write_volatile b (UART0_FBRD qemu) 40 d4;
          d6 = write_volatile b (UART0_LCRH qemu) (push_bit 4 1 OR push_bit 5 1 OR push_bit 6 1) d5
      in write_volatile b (UART0_CR qemu) (push_bit 0 1 OR push_bit 8 1 OR push_bit 9 1) d6)"

definition can_transmit :: "bool \<Rightarrow> 'd bus \<Rightarrow> 'd \<Rightarrow> bool \<times> 'd" where
  "can_transmit qemu b d =
     (case read_volatile b (UART0_FR qemu) d of (v, d1) \<Rightarrow> (v AND FR_TXFF = 0, d1))"

partial_function (option) wait_transmit :: "bool \<Rightarrow> 'd bus \<Rightarrow> 'd \<Rightarrow> 'd option" where
  "wait_transmit qemu b d =
     (case can_transmit qemu b d of (ok, d1) \<Rightarrow> if ok then Some d1 else wait_transmit qemu b d1)"

declare wait_transmit.simps [code]

definition send_byte :: "bool \<Rightarrow> 'd bus \<Rightarrow> u8 \<Rightarrow> 'd \<Rightarrow> 'd option" where
  "send_byte qemu b byte d =
     (case wait_transmit qemu b d of
        None \<Rightarrow> None
      | Some d1 \<Rightarrow> Some (write_volatile b (UART0_DR qemu) (ucast byte) d1))"

text \<open>\<open>send_str\<close> over the bytes of the string; \<open>write_str\<close> of the writer always reports success.\<close>

fun send_str :: "bool \<Rightarrow> 'd bus \<Rightarrow> u8 list \<Rightarrow> 'd \<Rightarrow> 'd option" where
  "send_str qemu b [] d = Some d"
| "send_str qemu b (byte # bytes) d =
     (case (if byte = 10 then send_byte qemu b 13 d else Some d) of
        None \<Rightarrow> None
      | Some d1 \<Rightarrow>
          (case send_byte qemu b byte d1 of
             None \<Rightarrow> None
           | Some d2 \<Rightarrow> send_str qemu b bytes d2))"

definition write_str :: "bool \<Rightarrow> 'd bus \<Rightarrow> u8 list \<Rightarrow> 'd \<Rightarrow> (bool \<times> 'd) option" where
  "write_str qemu b bytes d =
     (case send_str qemu b bytes d of None \<Rightarrow> None | Some d1 \<Rightarrow> Some (True, d1))"

text \<open>
  \<open>pl011_print!\<close> and \<open>pl011_println!\<close> with the text they format; the result of the write is ignored.
  Integers are formatted in decimal, as \<open>Display\<close> of the unsigned types does.
\<close>

definition pl011_print :: "bool \<Rightarrow> 'd bus \<Rightarrow> string \<Rightarrow> 'd \<Rightarrow> 'd option" where
  "pl011_print qemu b s d =
     (case write_str qemu b (map of_char s) d of None \<Rightarrow> None | Some (_, d1) \<Rightarrow> Some d1)"

definition pl011_println :: "bool \<Rightarrow> 'd bus \<Rightarrow> string \<Rightarrow> 'd \<Rightarrow> 'd option" where
  "pl011_println qemu b s d =
     (case pl011_print qemu b s d of None \<Rightarrow> None | Some d1 \<Rightarrow> pl011_print qemu b [CHR 0x0A] d1)"

fun decimal :: "nat \<Rightarrow> string" where
  "decimal n = (if n < 10 then [char_of (48 + n)] else decimal (n div 10) @ [char_of (48 + n mod 10)])"

declare decimal.simps [simp del]

section \<open>The device\<close>

text \<open>What the line carries for a list of bytes: a carriage return goes before each line feed.\<close>

definition crlf :: "u8 list \<Rightarrow> u8 list" where
  "crlf bytes = concat (map (\<lambda>c. if c = 10 then [13, 10] else [c]) bytes)"

definition console :: "string list \<Rightarrow> u8 list" where
  "console ss = concat (map (\<lambda>s. crlf (map of_char s) @ [13, 10]) ss)"

lemma console_simps: "console [] = []" "console (s # ss) = crlf (map of_char s) @ [13, 10] @ console ss"
  by (simp_all add: console_def)

lemma console_append: "console (ss @ ts) = console ss @ console ts"
  by (simp add: console_def)

lemma txff_clear: "v AND FR_TXFF = 0 \<longleftrightarrow> \<not> bit v 5"
  unfolding FR_TXFF_def push_bit_of_1 by (rule and_exp_eq_0_iff_not_bit)

text \<open>
  What the driver relies on: \<open>sent d\<close> are the bytes the transmitter has accepted, and \<open>busy d\<close> is how
  often the flag register still reads full before there is room.  The FIFO drains whenever the
  transmitter is enabled, so \<open>busy\<close> is a number: each read brings the room nearer.
\<close>

locale uart_device =
  fixes qemu :: bool and b :: "'d bus" and sent :: "'d \<Rightarrow> u8 list" and busy :: "'d \<Rightarrow> nat"
  assumes flags_law: "read_volatile b (UART0_FR qemu) d = (v, d') \<Longrightarrow>
      sent d' = sent d \<and> busy d' = busy d - 1 \<and> (bit v 5 \<longleftrightarrow> 0 < busy d)"
    and data_law: "busy d = 0 \<Longrightarrow> sent (write_volatile b (UART0_DR qemu) v d) = sent d @ [ucast v]"
begin

lemma wait_ends: "\<exists>d'. wait_transmit qemu b d = Some d' \<and> sent d' = sent d \<and> busy d' = 0"
proof (induction "busy d" arbitrary: d)
  case 0
  obtain v d1 where r: "read_volatile b (UART0_FR qemu) d = (v, d1)" by fastforce
  from flags_law [OF this] 0 have "sent d1 = sent d" "busy d1 = 0" "v AND FR_TXFF = 0"
    by (auto simp: txff_clear)
  then show ?case by (subst wait_transmit.simps) (simp add: can_transmit_def r)
next
  case (Suc n)
  obtain v d1 where r: "read_volatile b (UART0_FR qemu) d = (v, d1)" by fastforce
  from flags_law [OF this] Suc(2) have d1: "sent d1 = sent d" "n = busy d1" "v AND FR_TXFF \<noteq> 0"
    by (auto simp: txff_clear)
  from Suc(1) [OF d1(2)] d1 show ?case by (subst wait_transmit.simps) (simp add: can_transmit_def r)
qed

lemma byte_sent: "\<exists>d'. send_byte qemu b byte d = Some d' \<and> sent d' = sent d @ [byte]"
  using wait_ends [of d] by (auto simp: send_byte_def data_law)

lemma bytes_sent:
  "\<exists>d'. send_str qemu b bytes d = Some d' \<and>
     sent d' = sent d @ concat (map (\<lambda>c. if c = 10 then [13, 10] else [c]) bytes)"
proof (induction bytes arbitrary: d)
  case (Cons c bytes)
  obtain d1 where d1: "(if c = 10 then send_byte qemu b 13 d else Some d) = Some d1"
    "sent d1 = sent d @ (if c = 10 then [13] else [])"
    using byte_sent [of 13 d] by (cases "c = 10") auto
  obtain d2 where d2: "send_byte qemu b c d1 = Some d2" "sent d2 = sent d1 @ [c]"
    using byte_sent [of c d1] by auto
  from Cons [of d2] d1 d2 show ?case by auto
qed simp

lemma print_sent: "\<exists>d'. pl011_print qemu b s d = Some d' \<and> sent d' = sent d @ crlf (map of_char s)"
  using bytes_sent [of "map of_char s" d] by (auto simp: pl011_print_def write_str_def crlf_def)

lemma println_sent: "\<exists>d'. pl011_println qemu b s d = Some d' \<and> sent d' = sent d @ console [s]"
proof -
  obtain d1 where "pl011_print qemu b s d = Some d1" "sent d1 = sent d @ crlf (map of_char s)"
    using print_sent by blast
  moreover have "crlf (map of_char [CHR 0x0A]) = [13, 10]" by (simp add: crlf_def)
  ultimately show ?thesis using print_sent [of "[CHR 0x0A]" d1] by (auto simp: pl011_println_def console_simps)
qed

end

text \<open>
  What the driver leaves alone: state that no access to the UART's registers or, outside QEMU, to the
  pins' registers changes.
\<close>

definition uart_addresses :: "bool \<Rightarrow> usize set" where
  "uart_addresses qemu = {UART0_DR qemu, UART0_FR qemu, UART0_IBRD qemu, UART0_FBRD qemu, UART0_LCRH qemu,
     UART0_CR qemu, UART0_ICR qemu} \<union> (if qemu then {} else {GPFSEL1, GPPUD, GPPUDCLK0})"

definition beside_uart :: "bool \<Rightarrow> 'd bus \<Rightarrow> ('d \<Rightarrow> 'v) \<Rightarrow> bool" where
  "beside_uart qemu b view \<longleftrightarrow> (\<forall>a \<in> uart_addresses qemu. \<forall>d.
     view (snd (read_volatile b a d)) = view d \<and> (\<forall>v. view (write_volatile b a v d) = view d))"

lemma beside_uartD:
  assumes "beside_uart qemu b view"
  shows "a \<in> uart_addresses qemu \<Longrightarrow> read_volatile b a d = (v, d') \<Longrightarrow> view d' = view d"
    "a \<in> uart_addresses qemu \<Longrightarrow> view (write_volatile b a u d) = view d"
  using assms by (auto simp: beside_uart_def) (metis snd_conv)

lemma wait_transmit_beside:
  assumes "beside_uart qemu b view" "wait_transmit qemu b d = Some d'"
  shows "view d' = view d"
proof -
  have fr: "UART0_FR qemu \<in> uart_addresses qemu" by (simp add: uart_addresses_def)
  have step: "view d1 = view d" if "can_transmit qemu b d = (ok, d1)" for d d1 ok
    using that beside_uartD(1) [OF assms(1) fr] by (auto simp: can_transmit_def split: prod.splits)
  show ?thesis
    by (rule wait_transmit.raw_induct [OF _ assms(2), where P = "\<lambda>q b' d d'. q = qemu \<longrightarrow> b' = b \<longrightarrow> view d' = view d",
        rule_format, OF _ refl refl]) (auto split: prod.splits if_splits dest: step)
qed

lemma send_byte_beside:
  assumes "beside_uart qemu b view" "send_byte qemu b byte d = Some d'"
  shows "view d' = view d"
  using assms wait_transmit_beside [OF assms(1)] beside_uartD(2) [OF assms(1), of "UART0_DR qemu"]
  by (auto simp: send_byte_def uart_addresses_def split: option.splits)

lemma send_str_beside:
  assumes "beside_uart qemu b view"
  shows "send_str qemu b bytes d = Some d' \<Longrightarrow> view d' = view d"
proof (induction bytes arbitrary: d)
  case (Cons c bytes)
  then obtain d1 d2 where d: "(if c = 10 then send_byte qemu b 13 d else Some d) = Some d1"
    "send_byte qemu b c d1 = Some d2" "send_str qemu b bytes d2 = Some d'"
    by (auto split: option.splits if_splits)
  have "view d1 = view d" using d(1) send_byte_beside [OF assms, of 13 d d1] by (auto split: if_splits)
  with Cons.IH [OF d(3)] send_byte_beside [OF assms d(2)] show ?case by simp
qed simp

lemma pl011_print_beside:
  "beside_uart qemu b view \<Longrightarrow> pl011_print qemu b s d = Some d' \<Longrightarrow> view d' = view d"
  using send_str_beside [of qemu b view "map of_char s" d]
  by (auto simp: pl011_print_def write_str_def split: option.splits)

lemma pl011_println_beside:
  assumes "beside_uart qemu b view" "pl011_println qemu b s d = Some d'"
  shows "view d' = view d"
proof -
  obtain d1 where "pl011_print qemu b s d = Some d1" "pl011_print qemu b [CHR 0x0A] d1 = Some d'"
    using assms(2) by (auto simp: pl011_println_def split: option.splits)
  then show ?thesis using pl011_print_beside [OF assms(1)] by metis
qed

lemma uart_init_beside:
  assumes "beside_uart qemu b view"
  shows "view (uart_init qemu b d) = view d"
proof -
  have "view (gpio_init b d) = view d" if "\<not> qemu" for d
    using that beside_uartD [OF assms, of GPFSEL1] beside_uartD(2) [OF assms, of GPPUD]
      beside_uartD(2) [OF assms, of GPPUDCLK0]
    by (simp add: gpio_init_def uart_addresses_def Let_def split: prod.splits)
  then show ?thesis
    using beside_uartD(2) [OF assms, of "UART0_CR qemu"] beside_uartD(2) [OF assms, of "UART0_ICR qemu"]
      beside_uartD(2) [OF assms, of "UART0_IBRD qemu"] beside_uartD(2) [OF assms, of "UART0_FBRD qemu"]
      beside_uartD(2) [OF assms, of "UART0_LCRH qemu"]
    by (cases qemu) (simp_all add: uart_init_def uart_addresses_def Let_def)
qed

text \<open>A transmitter with a 16-byte FIFO that moves one byte to the line between two polls.\<close>

record uart =
  u_line :: "u8 list"
  u_fifo :: "u8 list"

definition uart_bus :: "bool \<Rightarrow> uart bus" where
  "uart_bus qemu =
     \<lparr>read_volatile = (\<lambda>a d.
        if a = UART0_FR qemu
        then (if length (u_fifo d) < 16 then 0 else 0x20,
              d\<lparr>u_line := u_line d @ take 1 (u_fifo d), u_fifo := drop 1 (u_fifo d)\<rparr>)
        else (0, d)),
      write_volatile = (\<lambda>a v d.
        if a = UART0_DR qemu then d\<lparr>u_fifo := u_fifo d @ [ucast v]\<rparr> else d)\<rparr>"

interpretation pl011: uart_device qemu "uart_bus qemu" "\<lambda>d. u_line d @ u_fifo d"
  "\<lambda>d. length (u_fifo d) - 15" for qemu
  by unfold_locales (auto simp: uart_bus_def bit_simps)

section \<open>Properties\<close>

text \<open>
  C38. Printing terminates and loses nothing.  On every device that keeps the transmitter's contract,
  \<open>write_str\<close> returns successfully after a finite wait, and has appended to what was sent exactly
  the bytes of the string, in order, with a carriage return before each line feed.
\<close>

theorem write_str_sends_all:
  assumes "uart_device qemu b sent busy"
  shows "\<exists>d'. write_str qemu b bytes d = Some (True, d') \<and>
    sent d' = sent d @ concat (map (\<lambda>c. if c = 10 then [13, 10] else [c]) bytes)"
  using uart_device.bytes_sent [OF assms, of bytes d] by (auto simp: write_str_def)

theorem write_str_sends_all_witness:
  "\<exists>d'. write_str True (uart_bus True) [72, 105, 10] \<lparr>u_line = [], u_fifo = replicate 16 0\<rparr> = Some (True, d') \<and>
     u_line d' @ u_fifo d' = replicate 16 0 @ [72, 105, 13, 10]"
  using write_str_sends_all [OF pl011.uart_device_axioms, of True "[72, 105, 10]" "\<lparr>u_line = [], u_fifo = replicate 16 0\<rparr>"]
  by simp

definition pins_14_15 :: u32 where
  "pins_14_15 = push_bit 12 7 OR push_bit 15 7"

lemma bit_pins: "bit pins_14_15 k \<longleftrightarrow> 12 \<le> k \<and> k < 18"
proof -
  have eq: "pins_14_15 = push_bit 12 (mask 6)" by (simp add: pins_14_15_def mask_eq_exp_minus_1)
  show ?thesis unfolding eq by (simp only: bit_push_bit_iff bit_mask_iff possible_bit_word) auto
qed

text \<open>
  C2. Initialisation.  On any register contents, \<open>init\<close> writes the divisors and the line format only
  between switching the UART off and switching it on, ends with 8-bit words, FIFOs and both
  directions enabled, and on the Raspberry Pi changes of the pin functions exactly those of pins 14
  and 15 (to ALT0), while the QEMU build leaves the pins alone.  The divisors are those of a 3 MHz
  clock, not the ones the comment computes for 48 MHz.
\<close>

theorem uart_init_configures:
  "\<exists>gpio. rf_log (uart_init qemu register_bus d) = rf_log d @ (UART0_CR qemu, 0) # gpio @
      [(UART0_ICR qemu, 0x7FF), (UART0_IBRD qemu, 1), (UART0_FBRD qemu, 40), (UART0_LCRH qemu, 0x70),
       (UART0_CR qemu, 0x301)] \<and>
    (qemu \<longrightarrow> gpio = []) \<and> set (map fst gpio) \<subseteq> {GPFSEL1, GPPUD, GPPUDCLK0} \<and>
    (\<not> qemu \<longrightarrow> (\<forall>k < 32. bit (rf_regs (uart_init qemu register_bus d) GPFSEL1) k \<longleftrightarrow>
      (if 12 \<le> k \<and> k < 18 then k = 14 \<or> k = 17 else bit (rf_regs d GPFSEL1) k)))"
proof -
  define v where "v = rf_regs d GPFSEL1 AND NOT pins_14_15 OR 0x24000"
  define gpio where "gpio = (if qemu then [] else [(GPFSEL1, v), (GPPUD, 0), (GPPUDCLK0, 0xC000), (GPPUDCLK0, 0)])"
  have alt: "(0x24000 :: u32) = 2 ^ 14 OR 2 ^ 17" by simp
  have k: "bit v k \<longleftrightarrow> (if 12 \<le> k \<and> k < 18 then k = 14 \<or> k = 17 else bit (rf_regs d GPFSEL1) k)"
    if "k < 32" for k
    unfolding v_def alt using that
    by (simp only: bit_or_iff bit_and_iff bit_not_iff bit_pins bit_exp_iff possible_bit_word) (auto split: if_splits)
  have "rf_regs (uart_init qemu register_bus d) GPFSEL1 = v" if "\<not> qemu"
    using that by (simp add: uart_init_def gpio_init_def register_bus_def uart_registers v_def pins_14_15_def Let_def)
  moreover have "rf_log (uart_init qemu register_bus d) = rf_log d @ (UART0_CR qemu, 0) # gpio @
      [(UART0_ICR qemu, 0x7FF), (UART0_IBRD qemu, 1), (UART0_FBRD qemu, 40), (UART0_LCRH qemu, 0x70),
       (UART0_CR qemu, 0x301)]"
    by (simp add: uart_init_def gpio_init_def register_bus_def gpio_def v_def pins_14_15_def uart_registers Let_def)
  ultimately show ?thesis using k by (intro exI [of _ gpio]) (auto simp: gpio_def)
qed

theorem uart_init_configures_witness:
  "rf_log (uart_init True register_bus \<lparr>rf_regs = (\<lambda>_. 0), rf_log = []\<rparr>) =
     [(UART0_CR True, 0), (UART0_ICR True, 0x7FF), (UART0_IBRD True, 1), (UART0_FBRD True, 40),
      (UART0_LCRH True, 0x70), (UART0_CR True, 0x301)]"
  using uart_init_configures [of True "\<lparr>rf_regs = (\<lambda>_. 0), rf_log = []\<rparr>"] by auto

end
