(* ===== verification/Example_Kernels.thy ===== *)
theory Example_Kernels
  imports Platform Uart
begin

text \<open>
  The \<open>kernel_main\<close> functions of the examples: what the boot code calls.  \<open>rpi_kernel.rs\<close> (round
  robin with the preemption timer), \<open>fcfs_kernel.rs\<close> and \<open>simple_test.rs\<close> (first come, first served,
  cooperative) and \<open>qemu_kernel.rs\<close> (round robin, never started), with everything they print.
  \<open>trampoline\<close>, \<open>empty_fn\<close> and the closures are the addresses the compiler gives to the code and the
  boxed closures.  The kernel of the first-come-first-served examples also prints from inside the
  library; that output is not part of the model, so what reaches the line is stated for the
  round-robin examples only.
\<close>

section \<open>The applications\<close>

text \<open>The console as the applications use it.  A UART that never has room would wait for ever.\<close>

definition uart_setup :: "bool \<Rightarrow> 'd bus \<Rightarrow> ('s, 'h, 'd) platform \<Rightarrow> ('s, 'h, 'd) platform" where
  "uart_setup qemu b p = p\<lparr>p_device := uart_init qemu b (p_device p)\<rparr>"

definition println :: "bool \<Rightarrow> 'd bus \<Rightarrow> string \<Rightarrow> ('s, 'h, 'd) platform \<Rightarrow> ('s, 'h, 'd) platform res" where
  "println qemu b s p =
     (case pl011_println qemu b s (p_device p) of None \<Rightarrow> Inl Hang | Some d \<Rightarrow> Inr (p\<lparr>p_device := d\<rparr>))"

primrec printlns ::
  "bool \<Rightarrow> 'd bus \<Rightarrow> string list \<Rightarrow> ('s, 'h, 'd) platform \<Rightarrow> ('s, 'h, 'd) platform res" where
  "printlns qemu b [] p = Inr p"
| "printlns qemu b (s # ss) p = rbind (println qemu b s p) (printlns qemu b ss)"

text \<open>\<open>.spawn(closure, 128).expect(...)\<close> for one closure after the other.\<close>

fun spawn_all ::
  "'s scheduler_ops \<Rightarrow> ('h \<Rightarrow> usize \<Rightarrow> usize \<Rightarrow> u64 \<times> 'h) \<Rightarrow> usize \<Rightarrow> usize \<Rightarrow> usize list \<Rightarrow>
   ('s, 'h) system \<Rightarrow> ('s, 'h) system res" where
  "spawn_all ops alloc trampoline empty_fn [] w = Inr w"
| "spawn_all ops alloc trampoline empty_fn (closure # closures) w =
     rbind (spawn ops alloc trampoline empty_fn closure 128 w) (\<lambda>(r, w1).
       case r of
         Inl e \<Rightarrow> Inl ExpectFailed
       | Inr handle \<Rightarrow> spawn_all ops alloc trampoline empty_fn closures w1)"

definition spawn_expect ::
  "'s scheduler_ops \<Rightarrow> ('h \<Rightarrow> usize \<Rightarrow> usize \<Rightarrow> u64 \<times> 'h) \<Rightarrow> usize \<Rightarrow> usize \<Rightarrow> usize list \<Rightarrow>
   ('s, 'h, 'd) platform \<Rightarrow> ('s, 'h, 'd) platform res" where
  "spawn_expect ops alloc trampoline empty_fn closures p =
     rbind (spawn_all ops alloc trampoline empty_fn closures (p_kernel p)) (\<lambda>w. Inr (p\<lparr>p_kernel := w\<rparr>))"

definition init_expect :: "('s, 'h, 'd) platform \<Rightarrow> ('s, 'h, 'd) platform res" where
  "init_expect p =
     (case kernel_init (p_kernel p) of
        (False, w) \<Rightarrow> Inl ExpectFailed
      | (True, w) \<Rightarrow> Inr (p\<lparr>p_kernel := w\<rparr>))"

text \<open>\<open>start_first_thread\<close> at the end of a \<open>kernel_main\<close>: if it returns, the code waits for ever.\<close>

definition start_or_halt ::
  "'s scheduler_ops \<Rightarrow> instant \<Rightarrow> ('s, 'h, 'd) platform \<Rightarrow> ('s, 'h, 'd) platform res" where
  "start_or_halt ops now p =
     rbind (start_first_thread ops now (p_kernel p)) (\<lambda>(f, w).
       case f of Switched \<Rightarrow> Inr (p\<lparr>p_kernel := w\<rparr>) | Returned \<Rightarrow> Inl Hang)"

definition rpi_kernel_main ::
  "bool \<Rightarrow> 'd bus \<Rightarrow> ('h \<Rightarrow> usize \<Rightarrow> usize \<Rightarrow> u64 \<times> 'h) \<Rightarrow> usize \<Rightarrow> usize \<Rightarrow> usize \<times> usize \<times> usize \<Rightarrow>
   instant \<Rightarrow> bool \<Rightarrow> (round_robin, 'h, 'd) platform \<Rightarrow> (round_robin, 'h, 'd) platform res" where
  "rpi_kernel_main qemu b alloc trampoline empty_fn = (\<lambda>(c1, c2, c3) now checks p.
     rbind (printlns qemu b
       ['''', ''========================================'', ''  Preemptive Threads Kernel v0.6.0'',
        ''  Raspberry Pi Zero 2 W'', ''========================================'', '''',
        ''[BOOT] Initializing kernel... [RPI]''] (uart_setup qemu b p)) (\<lambda>p1.
     rbind (init_expect p1) (\<lambda>p2.
     rbind (println qemu b ''[BOOT] Kernel initialized!'' p2) (\<lambda>p3.
     rbind (printlns qemu b [''[BOOT] Kernel registered globally'', ''[BOOT] Spawning threads...'']
       (register_global RoundRobin p3)) (\<lambda>p4.
     rbind (spawn_expect rr_ops alloc trampoline empty_fn [c1, c2, c3] p4) (\<lambda>p5.
     rbind (printlns qemu b [''[BOOT] 3 threads spawned!'', ''[BOOT] Setting up preemption timer (1ms)...''] p5) (\<lambda>p6.
     rbind (setup_preemption_timer checks 1000 (p_timer p6)) (\<lambda>(ok, t).
       if \<not> ok then Inl ExpectFailed
       else rbind (printlns qemu b
         [''[BOOT] Timer configured!'', '''', ''[BOOT] Starting scheduler - threads will now run!'',
          ''========================================'', ''''] (p6\<lparr>p_timer := t\<rparr>)) (\<lambda>p7.
       start_or_halt rr_ops now p7)))))))))"

text \<open>The cooperative example leaves the timer alone: arming it is commented out, announcing it is not.\<close>

definition fcfs_kernel_main ::
  "bool \<Rightarrow> 'd bus \<Rightarrow> ('h \<Rightarrow> usize \<Rightarrow> usize \<Rightarrow> u64 \<times> 'h) \<Rightarrow> usize \<Rightarrow> usize \<Rightarrow> usize \<times> usize \<times> usize \<Rightarrow>
   instant \<Rightarrow> (fcfs, 'h, 'd) platform \<Rightarrow> (fcfs, 'h, 'd) platform res" where
  "fcfs_kernel_main qemu b alloc trampoline empty_fn = (\<lambda>(c1, c2, c3) now p.
     rbind (printlns qemu b
       ['''', ''========================================'', ''  Preemptive Threads Kernel v0.6.0'',
        ''  Raspberry Pi Zero 2 W'', ''========================================'', '''',
        ''[BOOT] Initializing kernel... [FIRST COME FIRST SERVE]''] (uart_setup qemu b p)) (\<lambda>p1.
     rbind (init_expect p1) (\<lambda>p2.
     rbind (println qemu b ''[BOOT] Kernel initialized!'' p2) (\<lambda>p3.
     rbind (printlns qemu b [''[BOOT] Kernel registered globally'', ''[BOOT] Spawning threads...'']
       (register_global FirstComeFirstServe p3)) (\<lambda>p4.
     rbind (spawn_expect fcfs_ops alloc trampoline empty_fn [c1, c2, c3] p4) (\<lambda>p5.
     rbind (printlns qemu b
       [''[BOOT] 3 threads spawned!'', ''[BOOT] Setting up preemption timer (1ms)...'', '''',
        ''[BOOT] Starting scheduler - threads will now run!'', ''========================================'', '''']
       p5) (\<lambda>p6.
     start_or_halt fcfs_ops now p6)))))))"

text \<open>\<open>qemu_kernel.rs\<close>: everything up to the idle loop, and the loop, \<open>n\<close> times around.\<close>

definition qemu_kernel_main ::
  "bool \<Rightarrow> 'd bus \<Rightarrow> ('h \<Rightarrow> usize \<Rightarrow> usize \<Rightarrow> u64 \<times> 'h) \<Rightarrow> usize \<Rightarrow> usize \<Rightarrow> usize \<times> usize \<Rightarrow>
   (round_robin, 'h, 'd) platform \<Rightarrow> (round_robin, 'h, 'd) platform res" where
  "qemu_kernel_main qemu b alloc trampoline empty_fn = (\<lambda>(c1, c2) p.
     rbind (printlns qemu b
       ['''', ''========================================'', ''  Preemptive Threads Kernel v0.6.0'',
        ''  QEMU raspi3b emulation'', ''========================================'', '''',
        ''[BOOT] Initializing kernel...''] (uart_setup qemu b p)) (\<lambda>p1.
     rbind (init_expect p1) (\<lambda>p2.
     rbind (println qemu b ''[BOOT] Kernel initialized!'' p2) (\<lambda>p3.
     rbind (printlns qemu b [''[BOOT] Kernel registered globally'', ''[BOOT] Spawning Thread 1...'']
       (register_global RoundRobin p3)) (\<lambda>p4.
     rbind (spawn_expect rr_ops alloc trampoline empty_fn [c1] p4) (\<lambda>p5.
     rbind (printlns qemu b [''[BOOT] Thread 1 spawned!'', ''[BOOT] Spawning Thread 2...''] p5) (\<lambda>p6.
     rbind (spawn_expect rr_ops alloc trampoline empty_fn [c2] p6) (\<lambda>p7.
     printlns qemu b
       [''[BOOT] Thread 2 spawned!'', '''', ''[BOOT] Setup complete!'',
        ''[BOOT] NOTE: Timer interrupts not enabled in QEMU example'',
        ''[BOOT] Threads will run cooperatively'', ''========================================'', '''']
       p7))))))))"

primrec count_and_print ::
  "bool \<Rightarrow> 'd bus \<Rightarrow> u64 \<Rightarrow> (u64 \<Rightarrow> string) \<Rightarrow> nat \<Rightarrow> u64 \<Rightarrow> ('s, 'h, 'd) platform \<Rightarrow>
   (u64 \<times> ('s, 'h, 'd) platform) res" where
  "count_and_print qemu b period text 0 tick p = Inr (tick, p)"
| "count_and_print qemu b period text (Suc n) tick p =
     (let tick = tick + 1
      in rbind (if tick mod period = 0 then println qemu b (text tick) p else Inr p)
           (count_and_print qemu b period text n tick))"

definition qemu_idle ::
  "bool \<Rightarrow> 'd bus \<Rightarrow> nat \<Rightarrow> (round_robin, 'h, 'd) platform \<Rightarrow> (u64 \<times> (round_robin, 'h, 'd) platform) res" where
  "qemu_idle qemu b n p =
     count_and_print qemu b 10000000 (\<lambda>tick. ''[IDLE] Main loop tick = '' @ decimal (unat (tick div 10000000))) n 0 p"

text \<open>
  The threads of \<open>rpi_kernel.rs\<close> and \<open>qemu_kernel.rs\<close>, \<open>n\<close> times around their loop; \<open>name\<close> is one of
  \<open>[Thread 1]\<close> to \<open>[Thread 3]\<close>.  The busy loop inside has no effect.
\<close>

definition rpi_thread ::
  "bool \<Rightarrow> 'd bus \<Rightarrow> string \<Rightarrow> nat \<Rightarrow> ('s, 'h, 'd) platform \<Rightarrow> (u64 \<times> ('s, 'h, 'd) platform) res" where
  "rpi_thread qemu b name n p =
     rbind (println qemu b (name @ '' Started!'') p)
       (count_and_print qemu b 5000000 (\<lambda>counter. name @ '' counter = '' @ decimal (unat counter)) n 0)"

definition qemu_thread ::
  "bool \<Rightarrow> 'd bus \<Rightarrow> string \<Rightarrow> nat \<Rightarrow> ('s, 'h, 'd) platform \<Rightarrow> (u64 \<times> ('s, 'h, 'd) platform) res" where
  "qemu_thread qemu b name n p =
     count_and_print qemu b 100000 (\<lambda>counter. name @ '' counter = '' @ decimal (unat counter)) n 0 p"

text \<open>
  \<open>simple_test.rs\<close>, and the body of its threads: what a thread does from its \<open>i\<close>-th turn to the next
  call of \<open>yield_now\<close>, or to its end.
\<close>

definition simple_test_main ::
  "bool \<Rightarrow> 'd bus \<Rightarrow> ('h \<Rightarrow> usize \<Rightarrow> usize \<Rightarrow> u64 \<times> 'h) \<Rightarrow> usize \<Rightarrow> usize \<Rightarrow> usize \<times> usize \<Rightarrow> instant \<Rightarrow>
   (fcfs, 'h, 'd) platform \<Rightarrow> (fcfs, 'h, 'd) platform res" where
  "simple_test_main qemu b alloc trampoline empty_fn = (\<lambda>(c1, c2) now p.
     rbind (println qemu b ''=== Simple Test Kernel ==='' (uart_setup qemu b p)) (\<lambda>p1.
     rbind (init_expect p1) (\<lambda>p2.
     rbind (println qemu b ''Spawning thread 1...'' (register_global FirstComeFirstServe p2)) (\<lambda>p3.
     rbind (spawn_expect fcfs_ops alloc trampoline empty_fn [c1] p3) (\<lambda>p4.
     rbind (println qemu b ''Spawning thread 2...'' p4) (\<lambda>p5.
     rbind (spawn_expect fcfs_ops alloc trampoline empty_fn [c2] p5) (\<lambda>p6.
     rbind (println qemu b ''Starting scheduler...'' p6) (\<lambda>p7.
     start_or_halt fcfs_ops now p7))))))))"

definition simple_test_thread ::
  "bool \<Rightarrow> 'd bus \<Rightarrow> (('s, 'h, 'd) platform \<Rightarrow> (flow \<times> ('s, 'h, 'd) platform) res) \<Rightarrow> string \<Rightarrow> nat \<Rightarrow>
   ('s, 'h, 'd) platform \<Rightarrow> (flow \<times> ('s, 'h, 'd) platform) res" where
  "simple_test_thread qemu b yield name i p =
     rbind (if i = 0 then println qemu b (name @ '' Hello!'') p else Inr p) (\<lambda>p1.
       if i < 5 then
         rbind (println qemu b (name @ '' Count: '' @ decimal i) p1) (\<lambda>p2.
           yield_current (p_registered p2) yield p2)
       else rbind (println qemu b (name @ '' Done!'') p1) (\<lambda>p2. Inr (Returned, p2)))"

section \<open>The console\<close>

lemma printlns_run:
  assumes u: "uart_device qemu b sent busy" and v: "beside_uart qemu b view"
  obtains d where "printlns qemu b ss p = Inr (p\<lparr>p_device := d\<rparr>)" "sent d = sent (p_device p) @ console ss"
    "view d = view (p_device p)"
proof -
  have "\<exists>d. printlns qemu b ss p = Inr (p\<lparr>p_device := d\<rparr>) \<and> sent d = sent (p_device p) @ console ss \<and>
      view d = view (p_device p)"
  proof (induction ss arbitrary: p)
    case (Cons s ss)
    obtain d1 where d1: "pl011_println qemu b s (p_device p) = Some d1" "sent d1 = sent (p_device p) @ console [s]"
      using uart_device.println_sent [OF u] by blast
    have "view d1 = view (p_device p)" by (rule pl011_println_beside [OF v d1(1)])
    with Cons [of "p\<lparr>p_device := d1\<rparr>"] d1 show ?case by (auto simp: println_def console_simps)
  next
    case Nil
    show ?case by (intro exI [of _ "p_device p"]) (simp add: console_simps)
  qed
  with that show thesis by blast
qed

lemma println_run:
  assumes u: "uart_device qemu b sent busy" and v: "beside_uart qemu b view"
  obtains d where "println qemu b s p = Inr (p\<lparr>p_device := d\<rparr>)" "sent d = sent (p_device p) @ console [s]"
    "view d = view (p_device p)"
proof -
  obtain d where "pl011_println qemu b s (p_device p) = Some d" "sent d = sent (p_device p) @ console [s]"
    using uart_device.println_sent [OF u] by blast
  with pl011_println_beside [OF v this(1)] show thesis by (intro that [of d]) (simp_all add: println_def)
qed

declare printlns.simps [simp del]

text \<open>Printing as the next step of a program: whatever follows runs on the device it leaves.\<close>

lemma printlns_bind:
  assumes "uart_device qemu b sent busy" "beside_uart qemu b view"
    and "\<And>d. sent d = sent (p_device p) @ console ss \<Longrightarrow> view d = view (p_device p) \<Longrightarrow> Q (K (p\<lparr>p_device := d\<rparr>))"
  shows "Q (rbind (printlns qemu b ss p) K)"
  by (rule printlns_run [OF assms(1,2), where ss = ss and p = p]) (simp add: assms(3))

lemma println_bind:
  assumes "uart_device qemu b sent busy" "beside_uart qemu b view"
    and "\<And>d. sent d = sent (p_device p) @ console [s] \<Longrightarrow> view d = view (p_device p) \<Longrightarrow> Q (K (p\<lparr>p_device := d\<rparr>))"
  shows "Q (rbind (println qemu b s p) K)"
  by (rule println_run [OF assms(1,2), where s = s and p = p]) (simp add: assms(3))

lemma rbind_Inr_right: "rbind m Inr = m"
  by (cases m) simp_all

lemma uart_setup_view: "beside_uart qemu b view \<Longrightarrow> view (p_device (uart_setup qemu b p)) = view (p_device p)"
  by (simp add: uart_setup_def uart_init_beside)

lemma count_and_print_run:
  assumes u: "uart_device qemu b sent busy"
  shows "\<exists>d. count_and_print qemu b period text n tick p = Inr (tick + of_nat n, p\<lparr>p_device := d\<rparr>)"
proof (induction n arbitrary: tick p)
  case (Suc n)
  have v: "beside_uart qemu b (\<lambda>_. ())" by (simp add: beside_uart_def)
  let ?t = "tick + 1"
  have "\<exists>d. (if ?t mod period = 0 then println qemu b (text ?t) p else Inr p) = Inr (p\<lparr>p_device := d\<rparr>)"
  proof (cases "?t mod period = 0")
    case True
    then show ?thesis by (auto intro: println_run [OF u v, where p = p])
  next
    case False
    then show ?thesis by (intro exI [of _ "p_device p"]) simp
  qed
  then obtain d where d: "(if ?t mod period = 0 then println qemu b (text ?t) p else Inr p) =
      Inr (p\<lparr>p_device := d\<rparr>)" by blast
  from Suc [of ?t "p\<lparr>p_device := d\<rparr>"] show ?case
    by (simp only: count_and_print.simps Let_def d rbind_Inr) (simp add: add.assoc)
next
  case 0
  show ?case by (intro exI [of _ "p_device p"]) simp
qed

declare count_and_print.simps [simp del]

text \<open>The counting threads neither fail nor end, and touch nothing but the console.\<close>

lemma counting_threads_run:
  assumes u: "uart_device qemu b sent busy"
  shows "\<exists>d. rpi_thread qemu b name n p = Inr (of_nat n, p\<lparr>p_device := d\<rparr>)"
    "\<exists>d. qemu_thread qemu b name n p = Inr (of_nat n, p\<lparr>p_device := d\<rparr>)"
proof -
  have v: "beside_uart qemu b (\<lambda>_. ())" by (simp add: beside_uart_def)
  obtain d where d: "println qemu b (name @ '' Started!'') p = Inr (p\<lparr>p_device := d\<rparr>)"
    by (rule println_run [OF u v])
  show "\<exists>d. rpi_thread qemu b name n p = Inr (of_nat n, p\<lparr>p_device := d\<rparr>)"
    using count_and_print_run [OF u, of 5000000 "\<lambda>counter. name @ '' counter = '' @ decimal (unat counter)" n 0
        "p\<lparr>p_device := d\<rparr>"] d by (simp add: rpi_thread_def)
  show "\<exists>d. qemu_thread qemu b name n p = Inr (of_nat n, p\<lparr>p_device := d\<rparr>)"
    using count_and_print_run [OF u, of 100000 "\<lambda>counter. name @ '' counter = '' @ decimal (unat counter)" n 0 p]
    by (simp add: qemu_thread_def)
qed

lemma spawn_all_append:
  "spawn_all ops alloc tr ef (cs @ ds) w = rbind (spawn_all ops alloc tr ef cs w) (spawn_all ops alloc tr ef ds)"
proof (induction cs arbitrary: w)
  case (Cons c cs)
  show ?case by (auto simp: Cons rbind_assoc intro!: rbind_cong split: sum.split)
qed simp

lemma spawn_all_two:
  assumes "spawn_all ops alloc tr ef [c1, c2] w = Inr w2"
  shows "\<exists>w1. spawn_all ops alloc tr ef [c1] w = Inr w1 \<and> spawn_all ops alloc tr ef [c2] w1 = Inr w2"
proof -
  have "rbind (spawn_all ops alloc tr ef [c1] w) (spawn_all ops alloc tr ef [c2]) = Inr w2"
    using assms spawn_all_append [of ops alloc tr ef "[c1]" "[c2]" w] by (simp only: append.simps)
  then show ?thesis unfolding rbind_eq_Inr .
qed

section \<open>Spawning and starting\<close>

text \<open>The pool can provide \<open>n\<close> more stacks of the size \<open>spawn\<close> asks for.\<close>

fun stacks_available ::
  "('h \<Rightarrow> usize \<Rightarrow> usize \<Rightarrow> u64 \<times> 'h) \<Rightarrow> nat \<Rightarrow> 'h \<Rightarrow> stack_pool \<Rightarrow> bool" where
  "stacks_available alloc 0 h pool \<longleftrightarrow> True"
| "stacks_available alloc (Suc n) h pool \<longleftrightarrow>
     (case pool_allocate alloc h pool Medium of
        (None, _, _) \<Rightarrow> False
      | (Some _, pool', h') \<Rightarrow> stacks_available alloc n h' pool')"

text \<open>The scheduler after the threads \<open>ps\<close>, of priority 128, have been enqueued one after the other.\<close>

primrec enqueued :: "'s scheduler_ops \<Rightarrow> ptr list \<Rightarrow> 's \<Rightarrow> 's \<Rightarrow> bool" where
  "enqueued ops [] s s' \<longleftrightarrow> s' = s"
| "enqueued ops (p # ps) s s' \<longleftrightarrow>
     (\<exists>st s1. arc_live st p \<and> t_priority (arc_val st p) = 128 \<and> so_enqueue ops p s st = Inr s1 \<and>
        enqueued ops ps s1 s')"

text \<open>A thread as \<open>spawn\<close> leaves it, ready to enter the trampoline with its closure.\<close>

definition spawned_thread :: "usize \<Rightarrow> usize \<Rightarrow> thread_inner \<Rightarrow> bool" where
  "spawned_thread tr closure t \<longleftrightarrow> t_priority t = 128 \<and>
     (\<exists>sp. m_value (t_context t) = initial_context tr sp closure)"

context kernel_system
begin

lemma spawn_all_run:
  assumes "system_inv ready ok taken heap_ok w" "k_initialized w" "length cs \<le> ah_room (s_threads w)"
    "stacks_available alloc (length cs) (s_heap w) (k_stack_pool w)"
  shows "\<exists>w'. spawn_all ops alloc tr ef cs w = Inr w' \<and> system_inv ready ok taken heap_ok w' \<and>
    k_initialized w' \<and> current w' = current w \<and>
    mset (ready (k_scheduler w')) = mset (ready (k_scheduler w)) +
      mset [ah_next (s_threads w)..<ah_next (s_threads w) + length cs] \<and>
    enqueued ops [ah_next (s_threads w)..<ah_next (s_threads w) + length cs] (k_scheduler w) (k_scheduler w') \<and>
    (\<forall>q. q < ah_next (s_threads w) \<longrightarrow> arc_val (s_threads w') q = arc_val (s_threads w) q) \<and>
    (\<forall>i < length cs. spawned_thread tr (cs ! i) (arc_val (s_threads w') (ah_next (s_threads w) + i)))"
  using assms
proof (induction cs arbitrary: w)
  case (Cons c cs)
  let ?p = "ah_next (s_threads w)"
  have i: "kernel_inv ready ok w" "resources_ok taken heap_ok w" using Cons.prems(1) by (auto simp: system_inv_def)
  have room: "ah_room (s_threads w) \<noteq> 0" using Cons.prems(3) by auto
  obtain stk pool' h' where pa: "pool_allocate alloc (s_heap w) (k_stack_pool w) Medium = (Some stk, pool', h')"
    and more: "stacks_available alloc (length cs) h' pool'"
    using Cons.prems(4) by (auto split: prod.splits option.splits)
  obtain w1 xs ys where w1: "spawn_thread ops alloc Medium ef tr c 128 w = Inr (Inr ?p, w1)"
    "k_initialized w1" "k_current_thread w1 = k_current_thread w"
    "ready (k_scheduler w) = xs @ ys" "ready (k_scheduler w1) = xs @ ?p # ys"
    "k_stack_pool w1 = pool'" "s_heap w1 = h'" "ah_next (s_threads w1) = Suc ?p"
    "ah_room (s_threads w1) = ah_room (s_threads w) - 1" "thread_in (s_threads w1) Ready ?p"
    "so_enqueue ops ?p (k_scheduler w) (s_threads w1) = Inr (k_scheduler w1)"
    "t_priority (arc_val (s_threads w1) ?p) = 128"
    "m_value (t_context (arc_val (s_threads w1) ?p)) = initial_context tr (stack_bottom stk) c" "\<And>q. q \<noteq> ?p \<Longrightarrow> arc_val (s_threads w1) q = arc_val (s_threads w) q"
    by (rule spawn_run [OF i Cons.prems(2) room pa, of ef tr c 128]) (rule that; assumption)
  have "system_inv ready ok taken heap_ok w1" using spawn_step [OF Cons.prems(1) w1(1)] by simp
  then have "\<exists>w'. spawn_all ops alloc tr ef cs w1 = Inr w' \<and> system_inv ready ok taken heap_ok w' \<and>
      k_initialized w' \<and> current w' = current w1 \<and>
      mset (ready (k_scheduler w')) = mset (ready (k_scheduler w1)) +
        mset [ah_next (s_threads w1)..<ah_next (s_threads w1) + length cs] \<and>
      enqueued ops [ah_next (s_threads w1)..<ah_next (s_threads w1) + length cs] (k_scheduler w1) (k_scheduler w') \<and>
      (\<forall>q. q < ah_next (s_threads w1) \<longrightarrow> arc_val (s_threads w') q = arc_val (s_threads w1) q) \<and>
      (\<forall>i < length cs. spawned_thread tr (cs ! i) (arc_val (s_threads w') (ah_next (s_threads w1) + i)))"
    using Cons.prems(3) w1(2-9) more by (intro Cons.IH) simp_all
  then obtain w' where w': "spawn_all ops alloc tr ef cs w1 = Inr w'" "system_inv ready ok taken heap_ok w'"
    "k_initialized w'" "current w' = current w1"
    "mset (ready (k_scheduler w')) = mset (ready (k_scheduler w1)) + mset [Suc ?p..<Suc ?p + length cs]"
    "enqueued ops [Suc ?p..<Suc ?p + length cs] (k_scheduler w1) (k_scheduler w')"
    "\<And>q. q < Suc ?p \<Longrightarrow> arc_val (s_threads w') q = arc_val (s_threads w1) q"
    "\<And>i. i < length cs \<Longrightarrow> spawned_thread tr (cs ! i) (arc_val (s_threads w') (Suc ?p + i))"
    unfolding w1(8) by blast
  have ids: "[?p..<?p + length (c # cs)] = ?p # [Suc ?p..<Suc ?p + length cs]"
    using upt_conv_Cons [of ?p "?p + length (c # cs)"] by simp
  have "enqueued ops [?p..<?p + length (c # cs)] (k_scheduler w) (k_scheduler w')"
    unfolding ids enqueued.simps using w1(10-12) w'(6) by (auto simp: thread_in_def)
  moreover have "arc_val (s_threads w') q = arc_val (s_threads w) q" if "q < ?p" for q
    using that w'(7) [of q] w1(14) [of q] by simp
  moreover have "spawned_thread tr ((c # cs) ! i) (arc_val (s_threads w') (?p + i))" if "i < length (c # cs)" for i
    using that w'(7) [of ?p] w'(8) [of "i - 1"] w1(12,13) by (cases i) (auto simp: spawned_thread_def)
  moreover have "mset (ready (k_scheduler w')) = mset (ready (k_scheduler w)) + mset [?p..<?p + length (c # cs)]"
    unfolding ids w'(5) w1(4,5) by simp
  ultimately show ?case using w1(1,3) w'(1-4) by (simp add: spawn_def current_def)
qed simp

text \<open>A fresh kernel that initialises and spawns, and then starts.\<close>

lemma application_spawns:
  assumes s: "ok s" "ready s = []" and h: "heap_ok h" "boot_machine m" "length cs \<le> room" "Suc room < 2 ^ 64"
    and cs: "stacks_available alloc (length cs) h new_stack_pool"
  obtains w1 w2 where
    "kernel_init (kernel_new s (arc_empty room ws) h m) = (True, w1)"
    "spawn_all ops alloc tr ef cs w1 = Inr w2" "system_inv ready ok taken heap_ok w2" "k_initialized w2"
    "current w2 = None" "mset (ready (k_scheduler w2)) = mset [1..<Suc (length cs)]"
    "enqueued ops [1..<Suc (length cs)] s (k_scheduler w2)"
    "\<And>i. i < length cs \<Longrightarrow> spawned_thread tr (cs ! i) (arc_val (s_threads w2) (Suc i))"
proof -
  let ?w0 = "kernel_new s (arc_empty room ws) h m"
  define w1 where "w1 = ?w0\<lparr>k_initialized := True\<rparr>"
  have init: "kernel_init ?w0 = (True, w1)" by (simp add: kernel_init_def w1_def kernel_new_def)
  have i1: "system_inv ready ok taken heap_ok w1"
    using kernel_step [OF kernel_new_inv(1) [OF s h(1,2,4)] kstep.init [OF init]] by simp
  have f: "k_initialized w1" "ah_next (s_threads w1) = 1" "current w1 = None" "ah_room (s_threads w1) = room"
    "s_heap w1 = h" "k_stack_pool w1 = new_stack_pool" "ready (k_scheduler w1) = []" "k_scheduler w1 = s"
    using s by (simp_all add: w1_def kernel_new_def current_def arc_empty_def)
  obtain w2 where "spawn_all ops alloc tr ef cs w1 = Inr w2" "system_inv ready ok taken heap_ok w2"
    "k_initialized w2" "current w2 = None" "mset (ready (k_scheduler w2)) = mset [1..<Suc (length cs)]"
    "enqueued ops [1..<Suc (length cs)] s (k_scheduler w2)"
    "\<And>i. i < length cs \<Longrightarrow> spawned_thread tr (cs ! i) (arc_val (s_threads w2) (Suc i))"
    using spawn_all_run [OF i1 f(1), of cs tr ef] h(3) cs f by (auto simp del: upt_Suc)
  with init show ?thesis by (rule that)
qed

lemma application_starts:
  assumes s: "ok s" "ready s = []" and h: "heap_ok h" "boot_machine m" "length cs \<le> room" "Suc room < 2 ^ 64"
    and cs: "cs \<noteq> []" "stacks_available alloc (length cs) h new_stack_pool"
  obtains w1 w2 w3 c where
    "kernel_init (kernel_new s (arc_empty room ws) h m) = (True, w1)"
    "spawn_all ops alloc tr ef cs w1 = Inr w2" "start_first_thread ops now w2 = Inr (Switched, w3)"
    "kernel_inv ready ok w3" "control_ok w3" "current w3 = Some c" "m_save (s_machine w3) = c"
    "m_load (s_machine w3) = c" "mset (c # ready (k_scheduler w3)) = mset [1..<Suc (length cs)]"
proof -
  obtain w1 w2 where init: "kernel_init (kernel_new s (arc_empty room ws) h m) = (True, w1)"
    and w2: "spawn_all ops alloc tr ef cs w1 = Inr w2" "system_inv ready ok taken heap_ok w2"
    "k_initialized w2" "current w2 = None" "mset (ready (k_scheduler w2)) = mset [1..<Suc (length cs)]"
    by (rule application_spawns [OF s h cs(2), where tr = tr and ef = ef and ws = ws]) (rule that; assumption)
  have i2: "kernel_inv ready ok w2" "control_ok w2" using w2(2) by (auto simp: system_inv_def)
  have "size (mset (ready (k_scheduler w2))) = length cs" unfolding w2(5) size_mset length_upt by simp
  then obtain c rs where r: "ready (k_scheduler w2) = c # rs"
    using cs(1) by (cases "ready (k_scheduler w2)") (auto simp: size_mset)
  obtain w3 where w3: "start_first_thread ops now w2 = Inr (Switched, w3)" "kernel_inv ready ok w3"
    "current w3 = Some c" "ready (k_scheduler w3) = rs"
    "s_machine w3 = (s_machine w2)\<lparr>m_exec := c, m_save := c, m_load := c, m_live := switch_load
      (m_value (t_context (arc_val (s_threads w2) c))) (m_live (s_machine (disable_interrupts w2)))\<rparr>"
    by (rule start_run [OF i2(1) w2(4,3) r, where now = now]) (rule that; assumption)
  have "control_ok w3" using start_step [OF i2 w3(1)] by (simp add: good_step_def)
  with init w2(1,5) w3 r show ?thesis by (intro that [of w1 w2 w3 c]) simp_all
qed

end

section \<open>Properties\<close>

lemma three_ids: "mset [1..<Suc (length [c1, c2, c3])] = {#1, 2, 3#}"
  by (simp add: upt_rec numeral_2_eq_2 numeral_3_eq_3)

lemma two_ids: "mset [1..<Suc (length [c1, c2])] = {#1, 2#}"
  by (simp add: upt_rec numeral_2_eq_2)

lemma timer_armed:
  assumes "TIMER_FREQ t \<noteq> 0" "unat (TIMER_FREQ t) * 1000 < 2 ^ 64"
    "unat (cntpct_el0 t) + unat (TIMER_FREQ t) * 1000 div 1000000 < 2 ^ 64"
  obtains t' where "setup_preemption_timer checks 1000 t = Inr (True, t')"
    "cntpct_el0 t' = cntpct_el0 t" "TIMER_FREQ t' = TIMER_FREQ t"
    "\<And>n. cntpct_el0 t \<le> n \<Longrightarrow> timer_line (t'\<lparr>cntpct_el0 := n\<rparr>) \<longleftrightarrow>
      unat (TIMER_FREQ t) * 1000 div 1000000 \<le> unat n - unat (cntpct_el0 t)"
proof -
  have same: "setup_preemption_timer checks 1000 (mask_timer t) = setup_preemption_timer checks 1000 t"
    using assms(1) by (auto simp: setup_preemption_timer_def mask_timer_def Let_def intro!: rbind_cong)
  show thesis by (rule rearmed [OF assms, of checks, unfolded same]) (rule that)
qed

text \<open>The kernel's part of an application, apart from the console.\<close>

lemma application_steps:
  "kernel_init (p_kernel p) = (True, w) \<Longrightarrow> init_expect p = Inr (p\<lparr>p_kernel := w\<rparr>)"
  "spawn_all ops alloc tr ef cs (p_kernel p) = Inr w' \<Longrightarrow>
    spawn_expect ops alloc tr ef cs p = Inr (p\<lparr>p_kernel := w'\<rparr>)"
  "start_first_thread ops now (p_kernel p) = Inr (Switched, w'') \<Longrightarrow>
    start_or_halt ops now p = Inr (p\<lparr>p_kernel := w''\<rparr>)"
  by (simp_all add: init_expect_def spawn_expect_def start_or_halt_def)

text \<open>An application that ends in the state \<open>q\<close>, up to the console, having printed \<open>log\<close>.\<close>

definition printed ::
  "('d \<Rightarrow> u8 list) \<Rightarrow> ('d \<Rightarrow> 'v) \<Rightarrow> bool \<Rightarrow> 'd bus \<Rightarrow> 'd \<Rightarrow> string list \<Rightarrow> ('s, 'h, 'd) platform \<Rightarrow>
   ('s, 'h, 'd) platform res \<Rightarrow> bool" where
  "printed sent view qemu b d0 log q m \<longleftrightarrow> (\<exists>d. m = Inr (q\<lparr>p_device := d\<rparr>) \<and>
     sent d = sent (uart_init qemu b d0) @ console log \<and> view d = view d0)"

lemma printedI:
  "r = q\<lparr>p_device := p_device r\<rparr> \<Longrightarrow> sent (p_device r) = sent (uart_init qemu b d0) @ console log \<Longrightarrow>
   view (p_device r) = view d0 \<Longrightarrow> printed sent view qemu b d0 log q (Inr r)"
  unfolding printed_def by blast

definition rpi_boot_log :: "string list" where
  "rpi_boot_log =
     ['''', ''========================================'', ''  Preemptive Threads Kernel v0.6.0'',
      ''  Raspberry Pi Zero 2 W'', ''========================================'', '''',
      ''[BOOT] Initializing kernel... [RPI]''] @ [''[BOOT] Kernel initialized!''] @
     [''[BOOT] Kernel registered globally'', ''[BOOT] Spawning threads...''] @
     [''[BOOT] 3 threads spawned!'', ''[BOOT] Setting up preemption timer (1ms)...''] @
     [''[BOOT] Timer configured!'', '''', ''[BOOT] Starting scheduler - threads will now run!'',
      ''========================================'', '''']"

definition qemu_boot_log :: "string list" where
  "qemu_boot_log =
     ['''', ''========================================'', ''  Preemptive Threads Kernel v0.6.0'',
      ''  QEMU raspi3b emulation'', ''========================================'', '''',
      ''[BOOT] Initializing kernel...''] @ [''[BOOT] Kernel initialized!''] @
     [''[BOOT] Kernel registered globally'', ''[BOOT] Spawning Thread 1...''] @
     [''[BOOT] Thread 1 spawned!'', ''[BOOT] Spawning Thread 2...''] @
     [''[BOOT] Thread 2 spawned!'', '''', ''[BOOT] Setup complete!'',
      ''[BOOT] NOTE: Timer interrupts not enabled in QEMU example'',
      ''[BOOT] Threads will run cooperatively'', ''========================================'', '''']"

lemma rpi_main_run:
  fixes p :: "(round_robin, 'h, 'd) platform"
  assumes uart: "uart_device qemu b sent busy" "beside_uart qemu b view"
    and w: "kernel_init (p_kernel p) = (True, w1)" "spawn_all rr_ops alloc tr ef [c1, c2, c3] w1 = Inr w2"
      "start_first_thread rr_ops now w2 = Inr (Switched, w3)"
    and t: "setup_preemption_timer checks 1000 (p_timer p) = Inr (True, t)"
  shows "printed sent view qemu b (p_device p) rpi_boot_log
    (p\<lparr>p_kernel := w3, p_registered := Some RoundRobin, p_timer := t\<rparr>)
    (rpi_kernel_main qemu b alloc tr ef (c1, c2, c3) now checks p)"
proof -
  note steps = application_steps(1) [OF trans [OF _ w(1)]] application_steps(2) [OF trans [OF _ w(2)]]
    application_steps(3) [OF trans [OF _ w(3)]]
  let ?Q = "printed sent view qemu b (p_device p) rpi_boot_log
    (p\<lparr>p_kernel := w3, p_registered := Some RoundRobin, p_timer := t\<rparr>)"
  show ?thesis
    unfolding rpi_kernel_main_def prod.case
    apply (rule printlns_bind [OF uart, where Q = ?Q], simp add: steps uart_setup_def uart_init_beside [OF uart(2)])
    apply (rule println_bind [OF uart, where Q = ?Q], simp add: register_global_def)
    apply (rule printlns_bind [OF uart, where Q = ?Q], simp add: steps)
    apply (rule printlns_bind [OF uart, where Q = ?Q], simp add: t)
    apply (rule printlns_bind [OF uart, where Q = ?Q], simp add: steps)
    apply (rule printedI)
    unfolding rpi_boot_log_def console_append by simp_all
qed

lemma fcfs_main_run:
  fixes p :: "(fcfs, 'h, 'd) platform"
  assumes u: "uart_device qemu b sent busy"
    and w: "kernel_init (p_kernel p) = (True, w1)" "spawn_all fcfs_ops alloc tr ef [c1, c2, c3] w1 = Inr w2"
      "start_first_thread fcfs_ops now w2 = Inr (Switched, w3)"
  shows "\<exists>d. fcfs_kernel_main qemu b alloc tr ef (c1, c2, c3) now p =
    Inr (p\<lparr>p_kernel := w3, p_registered := Some FirstComeFirstServe, p_device := d\<rparr>)" (is "\<exists>d. _ = Inr (?q d)")
proof -
  have uart: "uart_device qemu b sent busy" "beside_uart qemu b (\<lambda>_. ())" using u by (simp_all add: beside_uart_def)
  define Q where "Q m \<longleftrightarrow> (\<exists>d. m = Inr (?q d))" for m :: "(fcfs, 'h, 'd) platform res"
  have fin: "Q (Inr r)" if "r = ?q (p_device r)" for r using that unfolding Q_def by blast
  note steps = application_steps(1) [OF trans [OF _ w(1)]] application_steps(2) [OF trans [OF _ w(2)]]
    application_steps(3) [OF trans [OF _ w(3)]]
  have "Q (fcfs_kernel_main qemu b alloc tr ef (c1, c2, c3) now p)"
    unfolding fcfs_kernel_main_def prod.case
    apply (rule printlns_bind [OF uart, where Q = Q], simp add: steps uart_setup_def)
    apply (rule println_bind [OF uart, where Q = Q], simp add: register_global_def)
    apply (rule printlns_bind [OF uart, where Q = Q], simp add: steps)
    apply (rule printlns_bind [OF uart, where Q = Q], simp add: steps)
    by (rule fin) simp
  then show ?thesis unfolding Q_def .
qed

lemma qemu_main_run:
  fixes p :: "(round_robin, 'h, 'd) platform"
  assumes uart: "uart_device qemu b sent busy" "beside_uart qemu b view"
    and w: "kernel_init (p_kernel p) = (True, w1)" "spawn_all rr_ops alloc tr ef [c1, c2] w1 = Inr w3"
  shows "printed sent view qemu b (p_device p) qemu_boot_log
    (p\<lparr>p_kernel := w3, p_registered := Some RoundRobin\<rparr>) (qemu_kernel_main qemu b alloc tr ef (c1, c2) p)"
proof -
  obtain w2 where w2: "spawn_all rr_ops alloc tr ef [c1] w1 = Inr w2" "spawn_all rr_ops alloc tr ef [c2] w2 = Inr w3"
    using spawn_all_two [OF w(2)] by blast
  note steps = application_steps(1) [OF trans [OF _ w(1)]] application_steps(2) [OF trans [OF _ w2(1)]]
    application_steps(2) [OF trans [OF _ w2(2)]]
  let ?Q = "printed sent view qemu b (p_device p) qemu_boot_log (p\<lparr>p_kernel := w3, p_registered := Some RoundRobin\<rparr>)"
  show ?thesis
    unfolding qemu_kernel_main_def prod.case
    apply (rule printlns_bind [OF uart, where Q = ?Q], simp add: steps uart_setup_def uart_init_beside [OF uart(2)])
    apply (rule println_bind [OF uart, where Q = ?Q], simp add: register_global_def)
    apply (rule printlns_bind [OF uart, where Q = ?Q], simp add: steps)
    apply (rule printlns_bind [OF uart, where Q = ?Q], simp add: steps)
    apply (subst rbind_Inr_right [symmetric], rule printlns_bind [OF uart, where Q = ?Q])
    apply (rule printedI)
    unfolding qemu_boot_log_def console_append by simp_all
qed

lemma simple_main_run:
  fixes p :: "(fcfs, 'h, 'd) platform"
  assumes u: "uart_device qemu b sent busy"
    and w: "kernel_init (p_kernel p) = (True, w1)" "spawn_all fcfs_ops alloc tr ef [c1, c2] w1 = Inr w3"
      "start_first_thread fcfs_ops now w3 = Inr (Switched, w4)"
  shows "\<exists>d. simple_test_main qemu b alloc tr ef (c1, c2) now p =
    Inr (p\<lparr>p_kernel := w4, p_registered := Some FirstComeFirstServe, p_device := d\<rparr>)" (is "\<exists>d. _ = Inr (?q d)")
proof -
  have uart: "uart_device qemu b sent busy" "beside_uart qemu b (\<lambda>_. ())" using u by (simp_all add: beside_uart_def)
  obtain w2 where w2: "spawn_all fcfs_ops alloc tr ef [c1] w1 = Inr w2" "spawn_all fcfs_ops alloc tr ef [c2] w2 = Inr w3"
    using spawn_all_two [OF w(2)] by blast
  define Q where "Q m \<longleftrightarrow> (\<exists>d. m = Inr (?q d))" for m :: "(fcfs, 'h, 'd) platform res"
  have fin: "Q (Inr r)" if "r = ?q (p_device r)" for r using that unfolding Q_def by blast
  note steps = application_steps(1) [OF trans [OF _ w(1)]] application_steps(2) [OF trans [OF _ w2(1)]]
    application_steps(2) [OF trans [OF _ w2(2)]] application_steps(3) [OF trans [OF _ w(3)]]
  have "Q (simple_test_main qemu b alloc tr ef (c1, c2) now p)"
    unfolding simple_test_main_def prod.case
    apply (rule println_bind [OF uart, where Q = Q], simp add: steps uart_setup_def register_global_def)
    apply (rule println_bind [OF uart, where Q = Q], simp add: steps)
    apply (rule println_bind [OF uart, where Q = Q], simp add: steps)
    apply (rule println_bind [OF uart, where Q = Q], simp add: steps)
    by (rule fin) simp
  then show ?thesis unfolding Q_def .
qed

text \<open>
  C31. The round-robin example from boot to preemption.  On a fresh kernel with room for three
  threads and stacks, with the timer initialised by the boot code and a UART that keeps its
  contract, \<open>kernel_main\<close> never fails and never returns: it leaves one of the three threads running
  and the other two queued, the kernel registered with its own type, the interrupt pointers linked to
  the running thread, and the timer armed to fire after one millisecond.  These are the conditions
  under which a timer tick preempts correctly.  The console has received exactly the boot messages,
  in order, and no device other than the UART has been touched.
\<close>

theorem rpi_kernel_runs:
  assumes k: "p_kernel p = kernel_new (rr_new weak 1) (arc_empty room ws) h m"
    and h: "bump_ok h" "boot_machine m" "3 \<le> room" "Suc room < 2 ^ 64"
    and stacks: "stacks_available (bump_alloc []) 3 h new_stack_pool"
    and freq: "1000 \<le> unat (TIMER_FREQ (p_timer p))" "unat (TIMER_FREQ (p_timer p)) * 1000 < 2 ^ 64"
      "unat (cntpct_el0 (p_timer p)) + unat (TIMER_FREQ (p_timer p)) * 1000 div 1000000 < 2 ^ 64"
    and uart: "uart_device qemu b sent busy" "beside_uart qemu b view"
  shows "\<exists>p' c. rpi_kernel_main qemu b (bump_alloc []) trampoline empty_fn (c1, c2, c3) now checks p = Inr p' \<and>
    current (p_kernel p') = Some c \<and> mset (c # rr1_ready (k_scheduler (p_kernel p'))) = {#1, 2, 3#} \<and>
    p_registered p' = Some RoundRobin \<and> irq_linked (p_kernel p') \<and>
    kernel_inv rr1_ready rr1_ok (p_kernel p') \<and> control_ok (p_kernel p') \<and> \<not> timer_line (p_timer p') \<and>
    (\<forall>n \<ge> cntpct_el0 (p_timer p). timer_line ((p_timer p')\<lparr>cntpct_el0 := n\<rparr>) \<longleftrightarrow>
      unat (TIMER_FREQ (p_timer p)) * 1000 div 1000000 \<le> unat n - unat (cntpct_el0 (p_timer p))) \<and>
    sent (p_device p') = sent (uart_init qemu b (p_device p)) @ console rpi_boot_log \<and>
    view (p_device p') = view (p_device p)"
proof -
  have len: "length [c1, c2, c3] = 3" by simp
  have cs: "length [c1, c2, c3] \<le> room" "[c1, c2, c3] \<noteq> []"
    "stacks_available (bump_alloc []) (length [c1, c2, c3]) h new_stack_pool"
    unfolding len using h(3) stacks by simp_all
  obtain w1 w2 w3 c where w:
    "kernel_init (kernel_new (rr_new weak 1) (arc_empty room ws) h m) = (True, w1)"
    "spawn_all rr_ops (bump_alloc []) trampoline empty_fn [c1, c2, c3] w1 = Inr w2"
    "start_first_thread rr_ops now w2 = Inr (Switched, w3)"
    "kernel_inv rr1_ready rr1_ok w3" "control_ok w3" "current w3 = Some c" "m_save (s_machine w3) = c"
    "m_load (s_machine w3) = c" "mset (c # rr1_ready (k_scheduler w3)) = mset [1..<Suc (length [c1, c2, c3])]"
    by (rule rr_kernel.application_starts [OF rr1_ok_new h(1,2) cs(1) h(4) cs(2,3),
        where tr = trampoline and ef = empty_fn and now = now]) (rule that; assumption)
  have nz: "TIMER_FREQ (p_timer p) \<noteq> 0" using freq(1) by auto
  obtain t where t: "setup_preemption_timer checks 1000 (p_timer p) = Inr (True, t)"
    "cntpct_el0 t = cntpct_el0 (p_timer p)"
    "\<And>n. cntpct_el0 (p_timer p) \<le> n \<Longrightarrow> timer_line (t\<lparr>cntpct_el0 := n\<rparr>) \<longleftrightarrow>
      unat (TIMER_FREQ (p_timer p)) * 1000 div 1000000 \<le> unat n - unat (cntpct_el0 (p_timer p))"
    by (rule timer_armed [OF nz freq(2,3), where checks = checks]) (rule that; assumption)
  define q where "q d = p\<lparr>p_kernel := w3, p_registered := Some RoundRobin, p_timer := t, p_device := d\<rparr>" for d
  obtain d where d: "rpi_kernel_main qemu b (bump_alloc []) trampoline empty_fn (c1, c2, c3) now checks p = Inr (q d)"
    "sent d = sent (uart_init qemu b (p_device p)) @ console rpi_boot_log" "view d = view (p_device p)"
    using rpi_main_run [OF uart w(1) [folded k] w(2,3) t(1)] unfolding printed_def q_def by blast
  have "0 < unat (TIMER_FREQ (p_timer p)) * 1000 div 1000000"
    using freq(1) by (simp add: div_greater_zero_iff)
  then have quiet: "\<not> timer_line t"
    using t(3) [of "cntpct_el0 (p_timer p)"] unfolding t(2) [symmetric] by simp
  have "irq_linked w3" using w(6-8) by (simp add: irq_linked_def)
  then show ?thesis
    using d w(4-6) w(9) [unfolded three_ids] t(3) quiet by (intro exI [of _ "q d"] exI [of _ c]) (simp add: q_def)
qed

lemma boot_heap_stacks: "stacks_available (bump_alloc []) 3 boot_heap new_stack_pool"
  by (simp add: numeral_3_eq_3 pool_allocate_def allocate_new_stack_def layout_from_size_align_def new_stack_pool_def
      mutex_try_lock_def mutex_unlock_new vec_pop_def bump_candidate_def HEAP_SIZE_def boot_heap_def Let_def)

lemma boot_heap_stacks2: "stacks_available (bump_alloc []) 2 boot_heap new_stack_pool"
  using boot_heap_stacks by (auto simp: numeral_3_eq_3 numeral_2_eq_2 split: option.splits prod.splits)

definition fresh_platform :: "'s \<Rightarrow> ('s, bump_heap, uart) platform" where
  "fresh_platform s = \<lparr>p_kernel = kernel_new s (arc_empty 5 []) boot_heap reset_machine,
     p_registered = None, p_timer = arch_init example_timer, p_device = \<lparr>u_line = [], u_fifo = []\<rparr>, p_vbar_el1 = 0\<rparr>"

theorem rpi_kernel_runs_witness:
  "\<exists>p' c. rpi_kernel_main False (uart_bus False) (bump_alloc []) 0x8000 0x9000 (1, 2, 3) (Instant 0) True
      (fresh_platform (rr_new (\<lambda>i l. []) 1)) = Inr p' \<and>
     current (p_kernel p') = Some c \<and> irq_linked (p_kernel p') \<and>
     u_line (p_device p') @ u_fifo (p_device p') = console rpi_boot_log"
proof -
  have "beside_uart False (uart_bus False) (\<lambda>_. ())" by (simp add: beside_uart_def)
  note r = rpi_kernel_runs [of "fresh_platform (rr_new (\<lambda>i l. []) 1)" "\<lambda>i l. []" 5 "[]" boot_heap reset_machine
      False "uart_bus False" _ _ "\<lambda>_. ()" "0x8000" "0x9000" 1 2 3 "Instant 0" True,
      OF _ boot_heap_ok reset_machine_boot _ _ boot_heap_stacks _ _ _ pl011.uart_device_axioms this]
  have "u_line (uart_init False (uart_bus False) \<lparr>u_line = [], u_fifo = []\<rparr>) = []"
    "u_fifo (uart_init False (uart_bus False) \<lparr>u_line = [], u_fifo = []\<rparr>) = []"
    by (simp_all add: uart_init_def gpio_init_def uart_bus_def uart_registers Let_def)
  with r show ?thesis by (auto simp: fresh_platform_def arch_init_def example_timer_def)
qed

text \<open>
  C2. The cooperative example: \<open>kernel_main\<close> starts one of the three threads with the other two queued
  and leaves the kernel registered as first come, first served; the first timer interrupt that
  reached it would use it at the wrong type.
\<close>

theorem fcfs_kernel_runs:
  assumes k: "p_kernel p = kernel_new (fcfs_new weak) (arc_empty room ws) h m"
    and h: "bump_ok h" "boot_machine m" "3 \<le> room" "Suc room < 2 ^ 64"
    and stacks: "stacks_available (bump_alloc []) 3 h new_stack_pool"
    and uart: "uart_device qemu b sent busy"
  shows "\<exists>p' c. fcfs_kernel_main qemu b (bump_alloc []) trampoline empty_fn (c1, c2, c3) now p = Inr p' \<and>
    current (p_kernel p') = Some c \<and> mset (c # fcfs_ready (k_scheduler (p_kernel p'))) = {#1, 2, 3#} \<and>
    irq_linked (p_kernel p') \<and> kernel_inv fcfs_ready fcfs_ok (p_kernel p') \<and>
    timer_interrupt_handler fcfs_ops now' checks p' = Inl TypeConfusion"
proof -
  have len: "length [c1, c2, c3] = 3" by simp
  have cs: "length [c1, c2, c3] \<le> room" "[c1, c2, c3] \<noteq> []"
    "stacks_available (bump_alloc []) (length [c1, c2, c3]) h new_stack_pool"
    unfolding len using h(3) stacks by simp_all
  obtain w1 w2 w3 c where w:
    "kernel_init (kernel_new (fcfs_new weak) (arc_empty room ws) h m) = (True, w1)"
    "spawn_all fcfs_ops (bump_alloc []) trampoline empty_fn [c1, c2, c3] w1 = Inr w2"
    "start_first_thread fcfs_ops now w2 = Inr (Switched, w3)"
    "kernel_inv fcfs_ready fcfs_ok w3" "current w3 = Some c" "m_save (s_machine w3) = c"
    "m_load (s_machine w3) = c" "mset (c # fcfs_ready (k_scheduler w3)) = mset [1..<Suc (length [c1, c2, c3])]"
    by (rule fcfs_kernel.application_starts [OF fcfs_ok_new h(1,2) cs(1) h(4) cs(2,3),
        where tr = trampoline and ef = empty_fn and now = now]) (rule that; assumption)
  obtain d where d: "fcfs_kernel_main qemu b (bump_alloc []) trampoline empty_fn (c1, c2, c3) now p =
      Inr (p\<lparr>p_kernel := w3, p_registered := Some FirstComeFirstServe, p_device := d\<rparr>)" (is "_ = Inr ?p")
    using fcfs_main_run [OF uart w(1) [folded k] w(2,3)] by blast
  have "irq_linked w3" using w(5-7) by (simp add: irq_linked_def)
  moreover have "timer_interrupt_handler fcfs_ops now' checks ?p = Inl TypeConfusion"
    by (simp add: timer_interrupt_handler_def get_global_kernel_def Let_def)
  ultimately show ?thesis
    using d w(4,5) w(8) [unfolded three_ids] by (intro exI [of _ ?p] exI [of _ c]) simp
qed

theorem fcfs_kernel_runs_witness:
  "\<exists>p' c. fcfs_kernel_main False (uart_bus False) (bump_alloc []) 0x8000 0x9000 (1, 2, 3) (Instant 0)
      (fresh_platform (fcfs_new [])) = Inr p' \<and>
     current (p_kernel p') = Some c \<and> timer_interrupt_handler fcfs_ops (Instant 1) True p' = Inl TypeConfusion"
  using fcfs_kernel_runs [of "fresh_platform (fcfs_new [])" "[]" 5 "[]" boot_heap reset_machine False
      "uart_bus False" _ _ "0x8000" "0x9000" 1 2 3 "Instant 0" "Instant 1" True,
      OF _ boot_heap_ok reset_machine_boot _ _ boot_heap_stacks pl011.uart_device_axioms]
  by (auto simp: fresh_platform_def)

text \<open>
  C32. The threads of the QEMU example never run.  \<open>kernel_main\<close> initialises and registers the kernel,
  spawns its two threads, announces that they will run cooperatively, and enters its idle loop
  without starting the first thread; however long the loop runs, the kernel is as it was, no thread is
  current, and both are still waiting.  Up to the loop the console has received exactly the boot
  messages, in order.
\<close>

theorem qemu_kernel_never_runs_threads:
  assumes k: "p_kernel p = kernel_new (rr_new weak 1) (arc_empty room ws) h m"
    and h: "bump_ok h" "boot_machine m" "2 \<le> room" "Suc room < 2 ^ 64"
    and stacks: "stacks_available (bump_alloc []) 2 h new_stack_pool"
    and uart: "uart_device qemu b sent busy"
  shows "\<exists>p'. qemu_kernel_main qemu b (bump_alloc []) trampoline empty_fn (c1, c2) p = Inr p' \<and>
    sent (p_device p') = sent (uart_init qemu b (p_device p)) @ console qemu_boot_log \<and>
    (\<exists>p''. qemu_idle qemu b n p' = Inr (of_nat n, p'') \<and> p_kernel p'' = p_kernel p' \<and>
       k_initialized (p_kernel p'') \<and> p_registered p'' = Some RoundRobin \<and>
       current (p_kernel p'') = None \<and> mset (rr1_ready (k_scheduler (p_kernel p''))) = {#1, 2#})"
proof -
  have len: "length [c1, c2] = 2" by simp
  have cs: "length [c1, c2] \<le> room" "stacks_available (bump_alloc []) (length [c1, c2]) h new_stack_pool"
    unfolding len using h(3) stacks by simp_all
  obtain w1 w2 where w:
    "kernel_init (kernel_new (rr_new weak 1) (arc_empty room ws) h m) = (True, w1)"
    "spawn_all rr_ops (bump_alloc []) trampoline empty_fn [c1, c2] w1 = Inr w2" "k_initialized w2"
    "current w2 = None" "mset (rr1_ready (k_scheduler w2)) = mset [1..<Suc (length [c1, c2])]"
    by (rule rr_kernel.application_spawns [OF rr1_ok_new h(1,2) cs(1) h(4) cs(2),
        where tr = trampoline and ef = empty_fn]) (rule that; assumption)
  have v: "beside_uart qemu b (\<lambda>_. ())" by (simp add: beside_uart_def)
  obtain d where d: "qemu_kernel_main qemu b (bump_alloc []) trampoline empty_fn (c1, c2) p =
      Inr (p\<lparr>p_kernel := w2, p_registered := Some RoundRobin, p_device := d\<rparr>)" (is "_ = Inr ?p")
    "sent d = sent (uart_init qemu b (p_device p)) @ console qemu_boot_log"
    using qemu_main_run [OF uart v w(1) [folded k] w(2)] unfolding printed_def by blast
  obtain e where "qemu_idle qemu b n ?p = Inr (of_nat n, ?p\<lparr>p_device := e\<rparr>)"
    using count_and_print_run [OF uart, of 10000000
        "\<lambda>tick. ''[IDLE] Main loop tick = '' @ decimal (unat (tick div 10000000))" n 0 ?p] by (auto simp: qemu_idle_def)
  then show ?thesis
    using d w(3,4) w(5) [unfolded two_ids] by (intro exI [of _ ?p] conjI exI [of _ "?p\<lparr>p_device := e\<rparr>"]) simp_all
qed

theorem qemu_kernel_never_runs_threads_witness:
  "\<exists>p' p''. qemu_kernel_main True (uart_bus True) (bump_alloc []) 0x8000 0x9000 (1, 2)
      (fresh_platform (rr_new (\<lambda>i l. []) 1)) = Inr p' \<and>
     qemu_idle True (uart_bus True) 20000000 p' = Inr (20000000, p'') \<and> current (p_kernel p'') = None"
proof -
  have "\<exists>p'. qemu_kernel_main True (uart_bus True) (bump_alloc []) 0x8000 0x9000 (1, 2)
      (fresh_platform (rr_new (\<lambda>i l. []) 1)) = Inr p' \<and>
    u_line (p_device p') @ u_fifo (p_device p') =
      u_line (uart_init True (uart_bus True) (p_device (fresh_platform (rr_new (\<lambda>i l. []) 1)))) @
      u_fifo (uart_init True (uart_bus True) (p_device (fresh_platform (rr_new (\<lambda>i l. []) 1)))) @ console qemu_boot_log \<and>
    (\<exists>p''. qemu_idle True (uart_bus True) 20000000 p' = Inr (of_nat 20000000, p'') \<and> p_kernel p'' = p_kernel p' \<and>
       k_initialized (p_kernel p'') \<and> p_registered p'' = Some RoundRobin \<and>
       current (p_kernel p'') = None \<and> mset (rr1_ready (k_scheduler (p_kernel p''))) = {#1, 2#})"
    unfolding append_assoc [symmetric]
    by (rule qemu_kernel_never_runs_threads [OF _ boot_heap_ok reset_machine_boot _ _ boot_heap_stacks2
          pl011.uart_device_axioms, where room = 5]) (simp_all add: fresh_platform_def)
  then show ?thesis unfolding of_nat_numeral by blast
qed

text \<open>
  C33. The first yield of the simple test goes wrong.  Its \<open>kernel_main\<close> starts one of the two threads of
  a first-come-first-served kernel; that thread prints its greeting and its first count and calls
  \<open>preemptive_threads::yield_now\<close>, which uses the registered kernel as a round-robin kernel.
\<close>

theorem simple_test_first_yield_goes_wrong:
  assumes k: "p_kernel p = kernel_new (fcfs_new weak) (arc_empty room ws) h m"
    and h: "bump_ok h" "boot_machine m" "2 \<le> room" "Suc room < 2 ^ 64"
    and stacks: "stacks_available (bump_alloc []) 2 h new_stack_pool"
    and uart: "uart_device qemu b sent busy"
  shows "\<exists>p' c. simple_test_main qemu b (bump_alloc []) trampoline empty_fn (c1, c2) now p = Inr p' \<and>
    current (p_kernel p') = Some c \<and> mset (c # fcfs_ready (k_scheduler (p_kernel p'))) = {#1, 2#} \<and>
    simple_test_thread qemu b yield name 0 p' = Inl TypeConfusion"
proof -
  have len: "length [c1, c2] = 2" by simp
  have cs: "length [c1, c2] \<le> room" "[c1, c2] \<noteq> []"
    "stacks_available (bump_alloc []) (length [c1, c2]) h new_stack_pool"
    unfolding len using h(3) stacks by simp_all
  obtain w1 w2 w3 c where w:
    "kernel_init (kernel_new (fcfs_new weak) (arc_empty room ws) h m) = (True, w1)"
    "spawn_all fcfs_ops (bump_alloc []) trampoline empty_fn [c1, c2] w1 = Inr w2"
    "start_first_thread fcfs_ops now w2 = Inr (Switched, w3)"
    "current w3 = Some c" "mset (c # fcfs_ready (k_scheduler w3)) = mset [1..<Suc (length [c1, c2])]"
    by (rule fcfs_kernel.application_starts [OF fcfs_ok_new h(1,2) cs(1) h(4) cs(2,3),
        where tr = trampoline and ef = empty_fn and now = now]) (rule that; assumption)
  obtain d where d: "simple_test_main qemu b (bump_alloc []) trampoline empty_fn (c1, c2) now p =
      Inr (p\<lparr>p_kernel := w3, p_registered := Some FirstComeFirstServe, p_device := d\<rparr>)" (is "_ = Inr ?p")
    using simple_main_run [OF uart w(1) [folded k] w(2,3)] by blast
  have v: "beside_uart qemu b (\<lambda>_. ())" by (simp add: beside_uart_def)
  obtain d1 where d1: "println qemu b (name @ '' Hello!'') ?p = Inr (?p\<lparr>p_device := d1\<rparr>)"
    by (rule println_run [OF uart v])
  obtain d2 where d2: "println qemu b (name @ '' Count: '' @ decimal 0) (?p\<lparr>p_device := d1\<rparr>) =
      Inr (?p\<lparr>p_device := d1, p_device := d2\<rparr>)"
    by (rule println_run [OF uart v])
  have "simple_test_thread qemu b yield name 0 ?p = Inl TypeConfusion"
    unfolding simple_test_thread_def using d1 d2 by (simp add: yield_current_def get_global_kernel_def)
  then show ?thesis using d w(4) w(5) [unfolded two_ids] by (intro exI [of _ ?p] exI [of _ c]) simp
qed

theorem simple_test_first_yield_goes_wrong_witness:
  "\<exists>p' c. simple_test_main False (uart_bus False) (bump_alloc []) 0x8000 0x9000 (1, 2) (Instant 0)
      (fresh_platform (fcfs_new [])) = Inr p' \<and> current (p_kernel p') = Some c \<and>
     simple_test_thread False (uart_bus False) (\<lambda>p. Inr (Returned, p)) ''[T1]'' 0 p' = Inl TypeConfusion"
  using simple_test_first_yield_goes_wrong [of "fresh_platform (fcfs_new [])" "[]" 5 "[]" boot_heap reset_machine False
      "uart_bus False" _ _ "0x8000" "0x9000" 1 2 "Instant 0" "\<lambda>p. Inr (Returned, p)" "''[T1]''",
      OF _ boot_heap_ok reset_machine_boot _ _ boot_heap_stacks2 pl011.uart_device_axioms]
  by (auto simp: fresh_platform_def)

end
