(* ===== verification/Simulation.thy ===== *)
theory Simulation
  imports Prelude
begin

text \<open>
  Functional simulation.  A fallible step function on concrete states implements a total one on
  abstract states when, from every state of an invariant, each allowed step succeeds, keeps the
  invariant and commutes with the abstraction.  The locale lifts this to sequences of steps.
\<close>

primrec run_steps :: "('e \<Rightarrow> 's \<Rightarrow> 's res) \<Rightarrow> 'e list \<Rightarrow> 's \<Rightarrow> 's res" where
  "run_steps step [] s = Inr s"
| "run_steps step (e # es) s = rbind (step e s) (run_steps step es)"

lemma run_steps_append:
  "run_steps step (es @ fs) s = rbind (run_steps step es s) (run_steps step fs)"
  by (induction es arbitrary: s) (auto simp: rbind_assoc intro: rbind_cong)

locale simulation =
  fixes step :: "'e \<Rightarrow> 's \<Rightarrow> 's res" and spec :: "'e \<Rightarrow> 'a \<Rightarrow> 'a"
    and inv :: "'s \<Rightarrow> bool" and allowed :: "'e \<Rightarrow> bool" and abs :: "'s \<Rightarrow> 'a"
  assumes step_law: "inv s \<Longrightarrow> allowed e \<Longrightarrow> \<exists>s'. step e s = Inr s' \<and> inv s' \<and> abs s' = spec e (abs s)"
begin

lemma run_refines:
  assumes "inv s" "list_all allowed es"
  shows "\<exists>s'. run_steps step es s = Inr s' \<and> inv s' \<and> abs s' = fold spec es (abs s)"
  using assms
proof (induction es arbitrary: s)
  case (Cons e es)
  then obtain s1 where s1: "step e s = Inr s1" "inv s1" "abs s1 = spec e (abs s)" using step_law by fastforce
  with Cons.IH [OF s1(2)] Cons.prems(2) show ?case by auto
qed simp

text \<open>Any two allowed runs that the specification does not distinguish end in states it does not distinguish.\<close>

lemma runs_agree:
  assumes "inv s" "inv t" "abs s = abs t" "list_all allowed es"
    and "run_steps step es s = Inr s'" "run_steps step es t = Inr t'"
  shows "abs s' = abs t'"
  using run_refines [OF assms(1,4)] run_refines [OF assms(2,4)] assms(3,5,6) by auto

end

end
