(* ===== verification/Dispatch_Order.thy ===== *)
theory Dispatch_Order
  imports Kernel_Properties Simulation
begin

text \<open>
  The order in which the kernel runs its threads, by yields and timer interrupts in any mixture:
  first come, first served gives every thread its turn; round robin on one CPU rotates the threads
  of the highest occupied priority level and never reaches the levels below.
\<close>

section \<open>Sequences of switches\<close>

text \<open>A sequence of context switches: a yield that resumes at the given address, or a timer interrupt.\<close>

datatype switch = YieldAt instant u64 | TimerAt instant

primrec do_switch :: "'s scheduler_ops \<Rightarrow> switch \<Rightarrow> ('s, 'h) system \<Rightarrow> ('s, 'h) system res" where
  "do_switch ops (YieldAt now resume) w = rbind (yield_now ops now resume w) (\<lambda>(_, w'). Inr w')"
| "do_switch ops (TimerAt now) w = timer_irq (handle_irq_preemption ops now) w"

definition do_switches :: "'s scheduler_ops \<Rightarrow> switch list \<Rightarrow> ('s, 'h) system \<Rightarrow> ('s, 'h) system res" where
  "do_switches ops = run_steps (do_switch ops)"

context scheduler_contract
begin

text \<open>A switch, of whichever kind, puts the current thread back and takes the next one.\<close>

lemma do_switch_run:
  assumes inv: "kernel_inv ready ok w" and ctl: "control_ok w" and cur: "current w = Some c"
  obtains w' n where "do_switch ops x w = Inr w'" "kernel_inv ready ok w'" "control_ok w'"
    "current w' = Some n" "same_threads (s_threads w) (s_threads w')"
    "\<exists>st1 s1. same_threads (s_threads w) st1 \<and> so_enqueue ops c (k_scheduler w) st1 = Inr s1 \<and>
      so_pick_next ops 0 s1 st1 = Inr (Some n, k_scheduler w')"
proof (cases x)
  case (YieldAt now resume)
  obtain w' n where w': "yield_now ops now resume w = Inr (Switched, w')"
    "kernel_inv ready ok w'" "current w' = Some n" "same_threads (s_threads w) (s_threads w')"
    "\<exists>st1 s1. same_threads (s_threads w) st1 \<and> so_enqueue ops c (k_scheduler w) st1 = Inr s1 \<and>
      so_pick_next ops 0 s1 st1 = Inr (Some n, k_scheduler w')"
    by (rule yield_run [OF inv cur control_ok_current [OF ctl cur], where now = now and resume = resume])
      (rule that; assumption)
  have "control_ok w'" using yield_step [OF inv ctl w'(1)] by (simp add: good_step_def)
  then show ?thesis using w' YieldAt by (intro that [of w' n]) simp_all
next
  case (TimerAt now)
  obtain w' n where w': "timer_irq (handle_irq_preemption ops now) w = Inr w'"
    "kernel_inv ready ok w'" "current w' = Some n" "same_threads (s_threads w) (s_threads w')"
    "\<exists>st1 s1. same_threads (s_threads w) st1 \<and> so_enqueue ops c (k_scheduler w) st1 = Inr s1 \<and>
      so_pick_next ops 0 s1 st1 = Inr (Some n, k_scheduler w')"
    by (rule timer_run [OF inv cur control_ok_current [OF ctl cur] ctl, where now = now])
      (rule that; assumption)
  have "control_ok w'" using timer_step [OF inv ctl w'(1)] by (simp add: good_step_def)
  then show ?thesis using w' TimerAt by (intro that [of w' n]) simp_all
qed

end

section \<open>First come, first served\<close>

lemma do_switch_rotates:
  assumes inv: "kernel_inv fcfs_ready fcfs_ok w" and ctl: "control_ok w" and cur: "current w = Some c"
  obtains w' n where "do_switch fcfs_ops x w = Inr w'" "kernel_inv fcfs_ready fcfs_ok w'" "control_ok w'"
    "current w' = Some n" "run_order w' = rotate1 (run_order w)"
  by (rule fcfs.do_switch_run [OF assms]) (rule that; use fcfs_rotates [OF inv cur] in blast)

text \<open>A switch implements one rotation of the running order.\<close>

definition fcfs_running :: "(fcfs, 'h) system \<Rightarrow> bool" where
  "fcfs_running w \<longleftrightarrow> kernel_inv fcfs_ready fcfs_ok w \<and> control_ok w \<and> current w \<noteq> None"

interpretation fcfs_rotation: simulation "do_switch fcfs_ops" "\<lambda>x. rotate1" fcfs_running "\<lambda>x. True" run_order
proof
  fix w :: "(fcfs, 'h) system" and x
  assume "fcfs_running w"
  then obtain c where w: "kernel_inv fcfs_ready fcfs_ok w" "control_ok w" "current w = Some c"
    by (auto simp: fcfs_running_def)
  from w obtain w' n where "do_switch fcfs_ops x w = Inr w'" "kernel_inv fcfs_ready fcfs_ok w'"
    "control_ok w'" "current w' = Some n" "run_order w' = rotate1 (run_order w)"
    by (rule do_switch_rotates)
  then show "\<exists>w'. do_switch fcfs_ops x w = Inr w' \<and> fcfs_running w' \<and> run_order w' = rotate1 (run_order w)"
    by (auto simp: fcfs_running_def)
qed

lemma fold_rotate1: "fold (\<lambda>x. rotate1) xs ys = rotate (length xs) ys"
  by (induction xs arbitrary: ys) (simp_all add: rotate1_rotate_swap)

lemma do_switches_rotate:
  assumes "kernel_inv fcfs_ready fcfs_ok w" "control_ok w" "current w \<noteq> None"
  shows "\<exists>w'. do_switches fcfs_ops xs w = Inr w' \<and> kernel_inv fcfs_ready fcfs_ok w' \<and>
    current w' \<noteq> None \<and> run_order w' = rotate (length xs) (run_order w)"
  using fcfs_rotation.run_refines [of w xs] assms
  by (auto simp: fcfs_running_def do_switches_def fold_rotate1 list_all_iff)



section \<open>Round robin on one CPU\<close>

text \<open>The waiting threads of one priority level, and the levels that are served before it.\<close>

definition level_waiting :: "priority_level \<Rightarrow> (round_robin, 'h) system \<Rightarrow> ptr list" where
  "level_waiting l w = cq_list l (run_queues (k_scheduler w) ! 0)"

definition levels_above :: "priority_level \<Rightarrow> priority_level list" where
  "levels_above l = takeWhile (\<lambda>k. k \<noteq> l) [High, Normal, Low, Idle]"

definition thread_level :: "threads \<Rightarrow> ptr \<Rightarrow> priority_level" where
  "thread_level st p = priority_level_of (t_priority (arc_val st p))"

lemma cq_ready_top:
  assumes "\<forall>l \<in> set (levels_above L). cq_list l q = []" "cq_list L q = p # ps"
  shows "\<exists>rs. cq_ready q = p # rs"
  using assms by (cases L) (auto simp: levels_above_def cq_ready_def)

lemma cq_ready_level:
  assumes "distinct (cq_ready q)" "p \<in> set (cq_list l q)" "p \<in> set (cq_list l' q)"
  shows "l = l'"
  using assms by (cases l; cases l') (auto simp: cq_ready_def)

lemma rr1_pick_top:
  assumes "rr1_ok s" "distinct (rr1_ready s)" "\<forall>l \<in> set (levels_above L). cq_list l (run_queues s ! 0) = []"
    "cq_list L (run_queues s ! 0) = p # ps" "rr_pick_next 0 s st = Inr (r, s')"
  shows "r = Some p \<and> cq_list L (run_queues s' ! 0) = ps \<and>
    (\<forall>l. l \<noteq> L \<longrightarrow> cq_list l (run_queues s' ! 0) = cq_list l (run_queues s ! 0))"
proof -
  have a: "rr_inv s" "0 < num_cpus s" using assms(1) by (auto simp: rr1_ok_def)
  obtain rs where rs: "cq_ready (run_queues s ! 0) = p # rs" using cq_ready_top [OF assms(3,4)] by blast
  from a show ?thesis
  proof (cases rule: rr_pick_run [where st = st])
    case (own p' lvl s1 s2)
    have "0 < num_cpus s1" using rr_sim_cpus [OF own(2)] a(2) by simp
    then have c: "0 < length (run_queues s1)" using rr_inv_nth [OF rr_sim_inv [OF a(1) own(2)]] by blast
    obtain q qs where q: "cq_list lvl (run_queues s1 ! 0) = p' # qs" "cq_list lvl q = qs"
      "\<And>l. l \<noteq> lvl \<Longrightarrow> cq_list l q = cq_list l (run_queues s1 ! 0)"
      "s2 = s1\<lparr>run_queues := (run_queues s1)[0 := q]\<rparr>"
      using own(3) by (auto simp: taken_from_def)
    note sim = rr_sim_list [OF a(1) own(2) a(2)]
    have p': "p' = p" using own(4) rs by simp
    then have "p \<in> set (cq_list lvl (run_queues s ! 0))" "p \<in> set (cq_list L (run_queues s ! 0))"
      using q(1) sim assms(4) by simp_all
    then have "lvl = L" using assms(2) by (intro cq_ready_level) (simp_all add: rr1_ready_def)
    then show ?thesis using own(1) assms(4,5) p' q c sim by (auto simp: dec_runnable_def)
  qed (use rs in auto)
qed

text \<open>
  A switch while nobody waits above the level of the current thread: that level rotates, the other
  levels stay as they are.
\<close>

definition top_level :: "priority_level \<Rightarrow> (round_robin, 'h) system \<Rightarrow> ptr \<Rightarrow> bool" where
  "top_level L w c \<longleftrightarrow> current w = Some c \<and> (\<forall>l \<in> set (levels_above L). level_waiting l w = []) \<and>
     (\<forall>p \<in> set (c # level_waiting L w). thread_level (s_threads w) p = L)"

lemma rr_requeue:
  assumes inv: "kernel_inv rr1_ready rr1_ok w" and top: "top_level L w c"
    and s: "same_threads (s_threads w) st1" "so_enqueue rr_ops c (k_scheduler w) st1 = Inr s1"
      "so_pick_next rr_ops 0 s1 st1 = Inr (Some n, k_scheduler w')"
  shows "n # level_waiting L w' = level_waiting L w @ [c]"
    "l \<noteq> L \<Longrightarrow> level_waiting l w' = level_waiting l w"
proof -
  note i = kernel_invD [OF inv]
  have cur: "current w = Some c" using top by (simp add: top_level_def)
  have live: "arc_live (s_threads w) c" "arc_live st1 c" using i(9) cur same_threads_live [OF s(1)] by auto
  have lvl: "priority_level_of (t_priority (arc_val st1 c)) = L"
    using top s(1) live by (simp add: top_level_def thread_level_def same_threads_def)
  obtain s' where s': "rr_enqueue c (k_scheduler w) st1 = Inr s'" "rr1_ok s'"
    "\<And>l. cq_list l (run_queues s' ! 0) = (if l = L then level_waiting l w @ [c] else level_waiting l w)"
    using rr1_enqueue_run [OF i(1) live(2)] by (auto simp: lvl level_waiting_def)
  have s1: "s1 = s'" using s(2) s'(1) by (simp add: rr_ops_def)
  have "rr1_ready (k_scheduler w) = level_waiting High w @ level_waiting Normal w @ level_waiting Low w @ level_waiting Idle w"
    by (simp add: rr1_ready_def cq_ready_def level_waiting_def)
  then have "distinct (rr1_ready s')" using i(4) i(10) [OF cur]
    by (cases L) (auto simp: rr1_ready_def cq_ready_def s'(3))
  moreover have "L \<notin> set (levels_above L)" by (cases L) (simp_all add: levels_above_def)
  then have "\<forall>l \<in> set (levels_above L). cq_list l (run_queues s' ! 0) = []"
    using top by (auto simp: s'(3) top_level_def)
  moreover obtain p ps where p: "level_waiting L w @ [c] = p # ps" by (cases "level_waiting L w") auto
  then have "cq_list L (run_queues s' ! 0) = p # ps" by (simp add: s'(3))
  moreover have "rr_pick_next 0 s' st1 = Inr (Some n, k_scheduler w')" using s(3) s1 by (simp add: rr_ops_def)
  ultimately have "Some n = Some p \<and> cq_list L (run_queues (k_scheduler w') ! 0) = ps \<and>
      (\<forall>l. l \<noteq> L \<longrightarrow> cq_list l (run_queues (k_scheduler w') ! 0) = cq_list l (run_queues s' ! 0))"
    by (rule rr1_pick_top [OF s'(2)])
  then show "n # level_waiting L w' = level_waiting L w @ [c]"
    "l \<noteq> L \<Longrightarrow> level_waiting l w' = level_waiting l w"
    using p s'(3) by (auto simp: level_waiting_def)
qed

lemma same_threads_level:
  "same_threads st st' \<Longrightarrow> arc_live st p \<Longrightarrow> thread_level st' p = thread_level st p"
  by (simp add: same_threads_def thread_level_def)

lemma rr_switch_rotates:
  assumes inv: "kernel_inv rr1_ready rr1_ok w" and ctl: "control_ok w" and top: "top_level L w c"
  obtains w' n where "do_switch rr_ops x w = Inr w'" "kernel_inv rr1_ready rr1_ok w'" "control_ok w'"
    "top_level L w' n" "n # level_waiting L w' = rotate1 (c # level_waiting L w)"
    "\<And>l. l \<noteq> L \<Longrightarrow> level_waiting l w' = level_waiting l w"
proof -
  have cur: "current w = Some c" using top by (simp add: top_level_def)
  obtain w' n where w': "do_switch rr_ops x w = Inr w'" "kernel_inv rr1_ready rr1_ok w'" "control_ok w'"
    "current w' = Some n" "same_threads (s_threads w) (s_threads w')"
    "\<exists>st1 s1. same_threads (s_threads w) st1 \<and> so_enqueue rr_ops c (k_scheduler w) st1 = Inr s1 \<and>
      so_pick_next rr_ops 0 s1 st1 = Inr (Some n, k_scheduler w')"
    by (rule rr1.do_switch_run [OF inv ctl cur, where x = x]) (rule that; assumption)
  obtain st1 s1 where s: "same_threads (s_threads w) st1" "so_enqueue rr_ops c (k_scheduler w) st1 = Inr s1"
      "so_pick_next rr_ops 0 s1 st1 = Inr (Some n, k_scheduler w')" using w'(6) by blast
  note r = rr_requeue [OF inv top s]
  note i = kernel_invD [OF inv]
  have live: "arc_live (s_threads w) p" if "p \<in> set (c # level_waiting L w)" for p
  proof (cases "p = c")
    case False
    then have "p \<in> set (rr1_ready (k_scheduler w))" using that
      by (cases L) (auto simp: level_waiting_def rr1_ready_def cq_ready_def)
    then show ?thesis by (rule i(8))
  qed (use i(9) cur in simp)
  have set_eq: "set (n # level_waiting L w') = set (c # level_waiting L w)" unfolding r(1) by auto
  have lv: "\<forall>p \<in> set (c # level_waiting L w). thread_level (s_threads w) p = L"
    using top unfolding top_level_def by blast
  have "\<forall>p \<in> set (n # level_waiting L w'). thread_level (s_threads w') p = L"
  proof
    fix p assume "p \<in> set (n # level_waiting L w')"
    then have "p \<in> set (c # level_waiting L w)" unfolding set_eq .
    then show "thread_level (s_threads w') p = L" using lv same_threads_level [OF w'(5) live] by metis
  qed
  moreover have "L \<notin> set (levels_above L)" by (cases L) (simp_all add: levels_above_def)
  then have "\<forall>l \<in> set (levels_above L). level_waiting l w' = []"
    using r(2) top unfolding top_level_def by metis
  ultimately have "top_level L w' n" using w'(4) unfolding top_level_def by blast
  from that [OF w'(1-3) this _ r(2)] r(1) show thesis by simp
qed

lemma rr_switches_rotate:
  assumes "kernel_inv rr1_ready rr1_ok w" "control_ok w" "top_level L w c"
  shows "\<exists>w' n. do_switches rr_ops xs w = Inr w' \<and> top_level L w' n \<and>
    n # level_waiting L w' = rotate (length xs) (c # level_waiting L w) \<and>
    (\<forall>l. l \<noteq> L \<longrightarrow> level_waiting l w' = level_waiting l w)"
  using assms
proof (induction xs arbitrary: w c)
  case (Cons x xs)
  obtain v n where v: "do_switch rr_ops x w = Inr v" "kernel_inv rr1_ready rr1_ok v" "control_ok v"
    "top_level L v n" "n # level_waiting L v = rotate1 (c # level_waiting L w)"
    "\<And>l. l \<noteq> L \<Longrightarrow> level_waiting l v = level_waiting l w"
    by (rule rr_switch_rotates [OF Cons.prems, where x = x]) (rule that; assumption)
  from Cons.IH [OF v(2-4)] obtain w' m where "do_switches rr_ops xs v = Inr w'" "top_level L w' m"
    "m # level_waiting L w' = rotate (length xs) (rotate1 (c # level_waiting L w))"
    "\<forall>l. l \<noteq> L \<longrightarrow> level_waiting l w' = level_waiting l w" unfolding v(5) using v(6) by auto
  with v(1) show ?case by (intro exI [of _ w'] exI [of _ m]) (simp add: do_switches_def rotate1_rotate_swap)
qed (simp add: do_switches_def)

text \<open>
  C10. Strict priorities.  On one CPU with the round-robin scheduler, while a thread of level \<open>L\<close> runs
  and nobody waits at a higher level, every sequence of yields and timer interrupts completes and
  rotates exactly the threads of level \<open>L\<close>: after \<open>k\<close> switches the \<open>k\<close>-th of them runs.  The queues
  of all other levels are as before, so threads of lower levels do not run at all until those of
  level \<open>L\<close> have finished.
\<close>

theorem rr_rotates_top_level:
  assumes "kernel_inv rr1_ready rr1_ok w" "control_ok w" "top_level L w c"
  shows "\<exists>w'. do_switches rr_ops xs w = Inr w' \<and>
    current w' = Some ((c # level_waiting L w) ! (length xs mod Suc (length (level_waiting L w)))) \<and>
    (\<forall>l. l \<noteq> L \<longrightarrow> level_waiting l w' = level_waiting l w)"
proof -
  obtain w' n where w': "do_switches rr_ops xs w = Inr w'" "top_level L w' n"
    "n # level_waiting L w' = rotate (length xs) (c # level_waiting L w)"
    "\<forall>l. l \<noteq> L \<longrightarrow> level_waiting l w' = level_waiting l w"
    using rr_switches_rotate [OF assms, of xs] by blast
  have "n = hd (rotate (length xs) (c # level_waiting L w))" unfolding w'(3) [symmetric] by simp
  then have "n = (c # level_waiting L w) ! (length xs mod Suc (length (level_waiting L w)))"
    by (subst (asm) hd_rotate_conv_nth) simp_all
  with w'(1,2,4) show ?thesis by (intro exI [of _ w']) (simp add: top_level_def)
qed

text \<open>A kernel that runs one of two High threads while a Normal one waits.\<close>

definition mixed_threads :: threads where
  "mixed_threads = \<lparr>ah_cells = (\<lambda>p. if p = 0 \<or> 3 < p then None else
     Some \<lparr>arc_count = 2, arc_data = (new_thread_inner (of_nat p)
       \<lparr>st_memory = 0x90000, st_usable_size = 4096, st_size_class = Small, st_has_guard_pages = False\<rparr>
       0x4000 (if p = 3 then 100 else 200))\<lparr>t_state := state_code (if p = 1 then Running else Ready),
         t_context := mutex_new (initial_context 0x4000 0x91000 0)\<rparr>\<rparr>),
     ah_next = 4, ah_room = 10, ah_weak = []\<rparr>"

definition mixed_kernel :: "round_robin \<Rightarrow> (round_robin, bump_heap) system" where
  "mixed_kernel s = (kernel_new s mixed_threads boot_heap (reset_machine\<lparr>m_exec := 1, m_save := 1, m_load := 1\<rparr>))
     \<lparr>k_initialized := True, k_current_thread := mutex_new (Some 1)\<rparr>"

lemma mixed_threads_live: "arc_live mixed_threads p \<longleftrightarrow> p \<in> {1, 2, 3}"
  "p \<in> {1, 2, 3} \<Longrightarrow> t_priority (arc_val mixed_threads p) = (if p = 3 then 100 else 200)"
  "p \<in> {1, 2, 3} \<Longrightarrow> t_state (arc_val mixed_threads p) = state_code (if p = 1 then Running else Ready)"
  "p \<in> {1, 2, 3} \<Longrightarrow> t_context (arc_val mixed_threads p) = mutex_new (initial_context 0x4000 0x91000 0)"
  by (auto simp: arc_live_def arc_val_def mixed_threads_def dom_def new_thread_inner_def)

lemma mixed_next: "ah_next mixed_threads = 4"
  by (simp add: mixed_threads_def)

lemma mixed_scheduler:
  obtains s where "rr1_ok s" "\<And>l. cq_list l (run_queues s ! 0) = (case l of High \<Rightarrow> [2] | Normal \<Rightarrow> [3] | _ \<Rightarrow> [])"
proof -
  let ?s = "rr_new (\<lambda>i l. [True]) 1"
  have e: "cq_list l (run_queues ?s ! 0) = []" for l
    using rr1_ok_new(2) [of "\<lambda>i l. [True]"] by (cases l) (simp_all add: rr1_ready_def cq_ready_def)
  have lv: "priority_level_of 100 = Normal" "priority_level_of 200 = High" by (simp_all add: priority_level_of_def)
  obtain s1 where s1: "rr1_ok s1" "\<And>l. cq_list l (run_queues s1 ! 0) = (if l = Normal then [3] else [])"
    using rr1_enqueue_run [OF rr1_ok_new(1), of mixed_threads 3 "\<lambda>i l. [True]"] mixed_threads_live e lv by fastforce
  obtain s2 where s2: "rr1_ok s2" "\<And>l. cq_list l (run_queues s2 ! 0) =
      (if l = High then cq_list l (run_queues s1 ! 0) @ [2] else cq_list l (run_queues s1 ! 0))"
    using rr1_enqueue_run [OF s1(1), of mixed_threads 2] mixed_threads_live lv by fastforce
  show thesis by (rule that [OF s2(1)]) (auto simp: s1(2) s2(2) split: priority_level.splits)
qed

lemma mixed_kernel_run:
  obtains w :: "(round_robin, bump_heap) system" where "kernel_inv rr1_ready rr1_ok w" "control_ok w" "irq_linked w"
    "current w = Some 1" "s_threads w = mixed_threads"
    "\<And>l. level_waiting l w = (case l of High \<Rightarrow> [2] | Normal \<Rightarrow> [3] | _ \<Rightarrow> [])"
proof (rule mixed_scheduler)
  fix s assume s: "rr1_ok s" "\<And>l. cq_list l (run_queues s ! 0) = (case l of High \<Rightarrow> [2] | Normal \<Rightarrow> [3] | _ \<Rightarrow> [])"
  let ?w = "mixed_kernel s"
  have w: "current ?w = Some 1" "s_threads ?w = mixed_threads" "k_scheduler ?w = s" "\<not> m_locked (k_current_thread ?w)"
    "m_exec (s_machine ?w) = 1" "m_save (s_machine ?w) = 1" "m_load (s_machine ?w) = 1" "k_initialized ?w"
    by (simp_all add: mixed_kernel_def kernel_new_def current_def mutex_new_def reset_machine_def)
  have "store_ok mixed_threads"
    using mixed_threads_live by (auto simp: store_ok_def mutex_new_def mixed_next)
  moreover have "rr1_ready s = [2, 3]" by (simp add: rr1_ready_def cq_ready_def s(2))
  ultimately have "kernel_inv rr1_ready rr1_ok ?w"
    using s(1) w mixed_threads_live by (intro kernel_invI) (auto simp: thread_in_def)
  moreover have "control_ok ?w" using w mixed_threads_live(1) by (simp add: control_ok_def)
  moreover have "irq_linked ?w" using w by (simp add: irq_linked_def)
  ultimately show thesis using w s(2) by (intro that [of ?w]) (simp_all add: level_waiting_def)
qed

theorem rr_rotates_top_level_witness:
  "\<exists>w w'. current (w :: (round_robin, bump_heap) system) = Some 1 \<and> level_waiting High w = [2] \<and>
     level_waiting Normal w = [3] \<and>
     do_switches rr_ops [TimerAt (Instant 5), YieldAt (Instant 7) 0x8000, TimerAt (Instant 9)] w = Inr w' \<and>
     current w' = Some 2 \<and> level_waiting Normal w' = [3]"
proof (rule mixed_kernel_run)
  let ?xs = "[TimerAt (Instant 5), YieldAt (Instant 7) 0x8000, TimerAt (Instant 9)]"
  fix w :: "(round_robin, bump_heap) system"
  assume i: "kernel_inv rr1_ready rr1_ok w" "control_ok w" and w: "current w = Some 1" "s_threads w = mixed_threads"
    and lw: "\<And>l. level_waiting l w = (case l of High \<Rightarrow> [2] | Normal \<Rightarrow> [3] | _ \<Rightarrow> [])"
  have "priority_level_of 200 = High" by (simp add: priority_level_of_def)
  then have "top_level High w 1"
    using w mixed_threads_live(2) by (auto simp: top_level_def lw levels_above_def thread_level_def)
  with i have "\<exists>w'. do_switches rr_ops ?xs w = Inr w' \<and>
    current w' = Some ((1 # level_waiting High w) ! (length ?xs mod Suc (length (level_waiting High w)))) \<and>
    (\<forall>l. l \<noteq> High \<longrightarrow> level_waiting l w' = level_waiting l w)" by (rule rr_rotates_top_level)
  then obtain w' where "do_switches rr_ops ?xs w = Inr w'" "current w' = Some 2" "level_waiting Normal w' = [3]"
    by (auto simp: lw mod_Suc)
  with w(1) lw show ?thesis by (intro exI [of _ w] exI [of _ w']) simp
qed

end
