(* ===== verification/Cooperative_Example.thy ===== *)
theory Cooperative_Example
  imports Example_Kernels Dispatch_Order
begin

text \<open>
  The cooperative example \<open>fcfs_kernel.rs\<close> as a whole: its \<open>kernel_main\<close>, and its three threads from one
  \<open>yield_now\<close> to the next, for any number of turns.
\<close>

section \<open>The threads\<close>

text \<open>The three closures differ in their name, how far they count, and what they say before they yield.\<close>

definition thread_name :: "ptr \<Rightarrow> string" where
  "thread_name t = (if t = 1 then ''[Thread 1]'' else if t = 2 then ''[Thread 2]'' else ''[Thread 3]'')"

definition thread_period :: "ptr \<Rightarrow> nat" where
  "thread_period t = (if t = 1 then 5000000 else if t = 2 then 10000000 else 20000000)"

definition thread_message :: "ptr \<Rightarrow> string" where
  "thread_message t = (if t = 1 then ''Yielding to thread 2'' else if t = 2 then ''Yielding to thread 3''
     else ''Yielding to whom? maybe 1, maybe 2'')"

text \<open>The loop of a closure up to the next multiple of its period.\<close>

partial_function (option) count_on :: "u64 \<Rightarrow> u64 \<Rightarrow> u64 option" where
  "count_on period counter =
     (if (counter + 1) mod period = 0 then Some (counter + 1) else count_on period (counter + 1))"

declare count_on.simps [code]

text \<open>
  One turn of thread \<open>t\<close>.  It continues in the trampoline or behind its last \<open>yield_now\<close>, and both enable
  interrupts; \<open>counter\<close> is \<open>None\<close> before the closure has run.
\<close>

definition fcfs_thread_turn ::
  "bool \<Rightarrow> 'd bus \<Rightarrow> instant \<Rightarrow> u64 \<Rightarrow> ptr \<Rightarrow> u64 option \<Rightarrow> (fcfs, 'h, 'd) platform \<Rightarrow>
   (u64 \<times> (fcfs, 'h, 'd) platform) res" where
  "fcfs_thread_turn qemu b now resume t counter p =
     (let p0 = p\<lparr>p_kernel := enable_interrupts (p_kernel p)\<rparr>
      in rbind (case counter of None \<Rightarrow> println qemu b (thread_name t @ '' Started!'') p0 | Some _ \<Rightarrow> Inr p0) (\<lambda>p1.
         case count_on (of_nat (thread_period t)) (case counter of None \<Rightarrow> 0 | Some c \<Rightarrow> c) of
           None \<Rightarrow> Inl Hang
         | Some c \<Rightarrow>
             rbind (printlns qemu b [thread_name t @ '' counter = '' @ decimal (unat c), thread_message t] p1) (\<lambda>p2.
             rbind (yield_now fcfs_ops now resume (p_kernel p2)) (\<lambda>(f, w).
               Inr (c, p2\<lparr>p_kernel := w\<rparr>)))))"

text \<open>
  The program after \<open>kernel_main\<close>: the thread that executes takes its turn, \<open>n\<close> times.  The counters are the
  local variables of the closures; the trace says who yielded with which counter.
\<close>

primrec fcfs_turns ::
  "bool \<Rightarrow> 'd bus \<Rightarrow> (nat \<Rightarrow> instant) \<Rightarrow> (ptr \<Rightarrow> u64) \<Rightarrow> nat \<Rightarrow> (fcfs, 'h, 'd) platform \<Rightarrow>
   ((ptr \<times> u64) list \<times> (ptr \<Rightarrow> u64 option) \<times> (fcfs, 'h, 'd) platform) res" where
  "fcfs_turns qemu b now resume 0 p = Inr ([], (\<lambda>_. None), p)"
| "fcfs_turns qemu b now resume (Suc n) p =
     rbind (fcfs_turns qemu b now resume n p) (\<lambda>(trace, counters, p1).
       let t = m_exec (s_machine (p_kernel p1))
       in rbind (fcfs_thread_turn qemu b (now n) (resume t) t (counters t) p1) (\<lambda>(c, p2).
            Inr (trace @ [(t, c)], counters(t := Some c), p2)))"

section \<open>Counting\<close>

lemma count_on_step:
  assumes "0 < P" "j < P" "Suc k * P < 2 ^ 64"
  shows "count_on (of_nat P) (of_nat (k * P + j)) = Some (of_nat (Suc k * P))"
  using assms(2)
proof (induction "P - j" arbitrary: j)
  case (Suc d)
  have lt: "k * P + Suc j \<le> Suc k * P" using Suc.prems by simp
  have P: "unat (of_nat P :: u64) = P"
    by (rule unat_of_nat_fits) (use assms(3) in \<open>auto intro: le_less_trans [OF _ assms(3)]\<close>)
  have c: "unat (of_nat (k * P + Suc j) :: u64) = k * P + Suc j"
    by (rule unat_of_nat_fits) (use lt assms(3) in simp)
  have one: "of_nat (k * P + j) + 1 = (of_nat (k * P + Suc j) :: u64)" by simp
  have m: "unat ((of_nat (k * P + Suc j) :: u64) mod of_nat P) = Suc j mod P"
    by (simp only: unat_mod P c) simp
  show ?case
  proof (cases "Suc j = P")
    case True
    then have "(of_nat (k * P + Suc j) :: u64) mod of_nat P = 0" using m by (metis mod_self unat_eq_zero)
    moreover have "k * P + Suc j = Suc k * P" using True by simp
    ultimately show ?thesis by (subst count_on.simps) (simp only: one refl if_True)
  next
    case False
    then have "Suc j < P" using Suc.prems by simp
    then have "(of_nat (k * P + Suc j) :: u64) mod of_nat P \<noteq> 0" using m by (metis mod_less nat.distinct(1) unat_0)
    moreover have "count_on (of_nat P) (of_nat (k * P + Suc j)) = Some (of_nat (Suc k * P))"
      using Suc.hyps(2) \<open>Suc j < P\<close> by (intro Suc.hyps(1)) simp_all
    ultimately show ?thesis by (subst count_on.simps) (simp only: one if_False)
  qed
qed simp

lemma thread_period_pos: "0 < thread_period t" "thread_period t \<le> 20000000"
  by (simp_all add: thread_period_def)

lemma count_on_period:
  assumes "Suc k * 20000000 < 2 ^ 64"
  shows "count_on (of_nat (thread_period t)) (of_nat (k * thread_period t)) = Some (of_nat (Suc k * thread_period t))"
proof -
  have "Suc k * thread_period t \<le> Suc k * 20000000" using thread_period_pos(2) by (rule mult_le_mono2)
  then have "Suc k * thread_period t < 2 ^ 64" using assms by linarith
  from count_on_step [OF thread_period_pos(1) thread_period_pos(1) this] show ?thesis by simp
qed

section \<open>Turns\<close>

lemma fcfs_enqueued:
  "fcfs_ok s \<Longrightarrow> enqueued fcfs_ops ps s s' \<Longrightarrow> fcfs_ready s' = fcfs_ready s @ ps"
proof (induction ps arbitrary: s)
  case (Cons p ps)
  then obtain st s1 where s1: "arc_live st p" "so_enqueue fcfs_ops p s st = Inr s1" "enqueued fcfs_ops ps s1 s'" by auto
  from fcfs_enqueue_run [OF Cons.prems(1) s1(1)] s1(2) have "fcfs_ok s1" "fcfs_ready s1 = fcfs_ready s @ [p]"
    by (auto simp: fcfs_ops_def)
  with Cons.IH [OF this(1) s1(3)] show ?case by simp
qed simp

text \<open>How often thread \<open>t\<close> of the three has had its turn after \<open>n\<close> turns, and its counter.\<close>

definition turns_of :: "nat \<Rightarrow> ptr \<Rightarrow> nat" where
  "turns_of n t = (n + 3 - t) div 3"

definition counter_after :: "nat \<Rightarrow> ptr \<Rightarrow> u64 option" where
  "counter_after n t = (if turns_of n t = 0 then None else Some (of_nat (turns_of n t * thread_period t)))"

definition turn_trace :: "nat \<Rightarrow> (ptr \<times> u64) list" where
  "turn_trace n = map (\<lambda>k. (Suc (k mod 3), of_nat (Suc (k div 3) * thread_period (Suc (k mod 3))))) [0..<n]"

lemma turns_of_Suc:
  assumes "t \<in> {1, 2, 3}"
  shows "turns_of (Suc n) t = (if t = Suc (n mod 3) then Suc (turns_of n t) else turns_of n t)"
    "t = Suc (n mod 3) \<Longrightarrow> turns_of n t = n div 3"
proof -
  define a r where "a = n div 3" and "r = n mod 3"
  have n: "n = 3 * a + r" "r < 3" by (simp_all add: a_def r_def)
  have d: "n div 3 = a" "n mod 3 = r" by (simp_all add: a_def r_def)
  consider "r = 0" | "r = 1" | "r = 2" using n(2) by linarith
  then show "turns_of (Suc n) t = (if t = Suc (n mod 3) then Suc (turns_of n t) else turns_of n t)"
    unfolding d unfolding n(1) using assms by cases (auto simp: turns_of_def div_Suc mod_Suc)
  from assms show "turns_of n t = n div 3" if "t = Suc (n mod 3)"
    using that unfolding d unfolding n(1) turns_of_def by auto
qed

lemma enable_interrupts_inv [simp]:
  "kernel_inv ready ok (enable_interrupts w) = kernel_inv ready ok w"
  "control_ok (enable_interrupts w) = control_ok w" "current (enable_interrupts w) = current w"
  "run_order (enable_interrupts v) = run_order v"
  by (simp_all add: kernel_inv_def control_ok_def current_def run_order_def enable_interrupts_def split: option.split)

lemma turn_run:
  assumes u: "uart_device qemu b sent busy"
    and k: "kernel_inv fcfs_ready fcfs_ok (p_kernel p)" "control_ok (p_kernel p)" "current (p_kernel p) = Some t"
    and c: "count_on (of_nat (thread_period t)) (case counter of None \<Rightarrow> 0 | Some c \<Rightarrow> c) = Some c"
  shows "\<exists>p'. fcfs_thread_turn qemu b now resume t counter p = Inr (c, p') \<and>
    kernel_inv fcfs_ready fcfs_ok (p_kernel p') \<and> control_ok (p_kernel p') \<and> current (p_kernel p') \<noteq> None \<and>
    run_order (p_kernel p') = rotate1 (run_order (p_kernel p))"
proof -
  have uart: "uart_device qemu b sent busy" "beside_uart qemu b (\<lambda>_. ())" using u by (simp_all add: beside_uart_def)
  define p0 where "p0 = p\<lparr>p_kernel := enable_interrupts (p_kernel p)\<rparr>"
  obtain w n where w: "do_switch fcfs_ops (YieldAt now resume) (p_kernel p0) = Inr w" "kernel_inv fcfs_ready fcfs_ok w"
    "control_ok w" "current w = Some n" "run_order w = rotate1 (run_order (p_kernel p0))"
    by (rule do_switch_rotates [of "p_kernel p0" t "YieldAt now resume"]) (use k in \<open>simp_all add: p0_def\<close>)
  obtain f where f: "yield_now fcfs_ops now resume (p_kernel p0) = Inr (f, w)"
    using w(1) by (cases "yield_now fcfs_ops now resume (p_kernel p0)") auto
  obtain d where d: "(case counter of None \<Rightarrow> println qemu b (thread_name t @ '' Started!'') p0 | Some _ \<Rightarrow> Inr p0) =
      Inr (p0\<lparr>p_device := d\<rparr>)"
  proof (cases counter)
    case None
    then show ?thesis using that by (auto intro: println_run [OF uart, where p = p0])
  next
    case (Some _)
    then show ?thesis by (intro that [of "p_device p0"]) simp
  qed
  obtain e where e: "printlns qemu b [thread_name t @ '' counter = '' @ decimal (unat c), thread_message t]
      (p0\<lparr>p_device := d\<rparr>) = Inr (p0\<lparr>p_device := e\<rparr>)"
    by (rule printlns_run [OF uart, where p = "p0\<lparr>p_device := d\<rparr>"]) simp
  have "fcfs_thread_turn qemu b now resume t counter p = Inr (c, p0\<lparr>p_device := e, p_kernel := w\<rparr>)"
    unfolding fcfs_thread_turn_def Let_def p0_def [symmetric] d rbind_Inr c option.case e
    by (simp add: f)
  with w show ?thesis by (simp add: p0_def)
qed

lemma turns_run:
  assumes u: "uart_device qemu b sent busy"
    and k: "kernel_inv fcfs_ready fcfs_ok (p_kernel p)" "control_ok (p_kernel p)" "current (p_kernel p) \<noteq> None"
      "run_order (p_kernel p) = [1, 2, 3]"
  shows "(n div 3 + 1) * 20000000 < 2 ^ 64 \<Longrightarrow>
    \<exists>counters p'. fcfs_turns qemu b now resume n p = Inr (turn_trace n, counters, p') \<and>
      kernel_inv fcfs_ready fcfs_ok (p_kernel p') \<and> control_ok (p_kernel p') \<and> current (p_kernel p') \<noteq> None \<and>
      run_order (p_kernel p') = rotate n [1, 2, 3] \<and> (\<forall>t \<in> {1, 2, 3}. counters t = counter_after n t)"
proof (induction n)
  case 0
  have "counter_after 0 t = None" if "t \<in> {1, 2, 3}" for t
    using that by (auto simp: counter_after_def turns_of_def)
  with k show ?case by (simp add: turn_trace_def)
next
  case (Suc n)
  have "(n div 3 + 1) * 20000000 \<le> (Suc n div 3 + 1) * 20000000" by (simp add: div_le_mono)
  then have bound: "(n div 3 + 1) * 20000000 < 2 ^ 64" using Suc.prems by (rule le_less_trans)
  then obtain counters q where q: "fcfs_turns qemu b now resume n p = Inr (turn_trace n, counters, q)"
    "kernel_inv fcfs_ready fcfs_ok (p_kernel q)" "control_ok (p_kernel q)" "current (p_kernel q) \<noteq> None"
    "run_order (p_kernel q) = rotate n [1, 2, 3]" "\<forall>t \<in> {1, 2, 3}. counters t = counter_after n t"
    using Suc.IH by blast
  define t where "t = Suc (n mod 3)"
  have t: "t \<in> {1, 2, 3}" by (auto simp: t_def)
  have "hd (run_order (p_kernel q)) = [1, 2, 3] ! (n mod 3)" by (simp add: q(5) hd_rotate_conv_nth)
  also have "\<dots> = t" by (auto simp: t_def less_Suc_eq nth_Cons' dest: mod_less_divisor [of 3 n])
  finally have cur: "current (p_kernel q) = Some t" using q(4) by (auto simp: run_order_def)
  then have exec: "m_exec (s_machine (p_kernel q)) = t" using kernel_invD(7) [OF q(2)] by simp
  have before: "turns_of n t = n div 3" using turns_of_Suc(2) [OF t] by (simp add: t_def)
  have "(case counters t of None \<Rightarrow> 0 | Some c \<Rightarrow> c) = of_nat (n div 3 * thread_period t)"
    using bspec [OF q(6) t] before by (simp add: counter_after_def)
  then have c: "count_on (of_nat (thread_period t)) (case counters t of None \<Rightarrow> 0 | Some c \<Rightarrow> c) =
      Some (of_nat (Suc (n div 3) * thread_period t))" using count_on_period [of "n div 3" t] bound by simp
  obtain q' where q': "fcfs_thread_turn qemu b (now n) (resume t) t (counters t) q =
      Inr (of_nat (Suc (n div 3) * thread_period t), q')"
    "kernel_inv fcfs_ready fcfs_ok (p_kernel q')" "control_ok (p_kernel q')" "current (p_kernel q') \<noteq> None"
    "run_order (p_kernel q') = rotate1 (run_order (p_kernel q))"
    using turn_run [OF u q(2,3) cur c] by blast
  define cs where "cs = counters(t := Some (of_nat (Suc (n div 3) * thread_period t)))"
  have "fcfs_turns qemu b now resume (Suc n) p = Inr (turn_trace (Suc n), cs, q')"
    by (simp only: fcfs_turns.simps q(1) rbind_Inr prod.case Let_def exec q'(1)) (simp add: turn_trace_def t_def cs_def)
  moreover have "cs s = counter_after (Suc n) s" if "s \<in> {1, 2, 3}" for s
    using bspec [OF q(6) that] turns_of_Suc(1) [OF that, of n] before by (auto simp: counter_after_def t_def cs_def algebra_simps)
  moreover have "run_order (p_kernel q') = rotate (Suc n) [1, 2, 3]" unfolding q'(5) q(5) by simp
  ultimately show ?case using q'(2-4) by blast
qed

section \<open>Properties\<close>



end
