(* ===== verification/Boot.thy ===== *)
theory Boot
  imports Prelude
begin

text \<open>
  The entry point \<open>_start\<close> of \<open>arch/aarch64_boot.rs\<close>: the assembly that runs from the first
  instruction after reset to the call of \<open>boot_rust\<close>.  It parks every CPU but the first, drops from
  EL3 or EL2 to EL1, sets the stack pointer, clears the BSS section and enables floating point.
  The program is a list of instructions; branches go to positions in the list.  The addresses of
  the linker's symbols are the layout.
\<close>

section \<open>Processor\<close>

datatype boot_sysreg = MPIDR_EL1 | CurrentEL | CNTFRQ_EL0 | SCR_EL3 | SPSR_EL3 | ELR_EL3 | HCR_EL2
  | SPSR_EL2 | ELR_EL2 | CPACR_EL1

record boot_cpu =
  b_x :: "nat \<Rightarrow> u64"
  b_sp :: u64
  b_pc :: nat
  b_el :: nat
  b_daif :: u64
  b_eq :: bool
  b_ge :: bool
  b_sys :: "boot_sysreg \<Rightarrow> u64"
  b_mem :: dmem

record layout =
  l_text :: u64
  l_stack_top :: u64
  l_bss_start :: u64
  l_bss_end :: u64
  l_heap_start :: u64
  l_heap_end :: u64

datatype boot_instr =
    BMrs nat boot_sysreg
  | BMsr boot_sysreg nat
  | BMov nat u64
  | BAnd nat nat u64
  | BOrr nat nat u64
  | BLsr nat nat nat
  | BCmpImm nat u64
  | BCmp nat nat
  | BBeq nat
  | BBge nat
  | BB nat
  | BCbnz nat nat
  | BAdr nat nat
  | BAdrp nat u64
  | BAddLo12 nat nat u64
  | BMovSP nat
  | BStrZrPost nat u64
  | BIsb
  | BWfe
  | BEret
  | BBootRust

text \<open>The lowest exception level that may access a system register.\<close>

fun min_el :: "boot_sysreg \<Rightarrow> nat" where
  "min_el SCR_EL3 = 3"
| "min_el SPSR_EL3 = 3"
| "min_el ELR_EL3 = 3"
| "min_el HCR_EL2 = 2"
| "min_el SPSR_EL2 = 2"
| "min_el ELR_EL2 = 2"
| "min_el _ = 1"

definition read_boot_sys :: "boot_sysreg \<Rightarrow> boot_cpu \<Rightarrow> u64" where
  "read_boot_sys r s = (if r = CurrentEL then push_bit 2 (of_nat (b_el s)) else b_sys s r)"

datatype boot_result = Running boot_cpu | Entered boot_cpu | Undefined

definition set_x :: "nat \<Rightarrow> u64 \<Rightarrow> boot_cpu \<Rightarrow> boot_cpu" where
  "set_x r v s = s\<lparr>b_x := (b_x s)(r := v), b_pc := Suc (b_pc s)\<rparr>"

definition next_instr :: "boot_cpu \<Rightarrow> boot_cpu" where
  "next_instr s = s\<lparr>b_pc := Suc (b_pc s)\<rparr>"

definition label_addr :: "layout \<Rightarrow> nat \<Rightarrow> u64" where
  "label_addr l k = l_text l + 4 * of_nat k"

text \<open>
  Return from an exception at EL3 or EL2.  The target level must be lower, and 64-bit execution
  there must be enabled: the bit RW of SCR_EL3 or HCR_EL2; entering EL2 also needs the bit NS.
\<close>

definition boot_eret :: "layout \<Rightarrow> boot_cpu \<Rightarrow> boot_result" where
  "boot_eret l s =
     (let spsr = b_sys s (if b_el s = 3 then SPSR_EL3 else SPSR_EL2);
          elr = b_sys s (if b_el s = 3 then ELR_EL3 else ELR_EL2);
          target = unat (drop_bit 2 spsr AND 3)
      in if (b_el s = 3 \<and> target = 2 \<and> bit (b_sys s SCR_EL3) 10 \<and> bit (b_sys s SCR_EL3) 0) \<or>
            (b_el s = 2 \<and> target = 1 \<and> bit (b_sys s HCR_EL2) 31)
         then Running (s\<lparr>b_pc := unat (elr - l_text l) div 4, b_el := target, b_daif := spsr AND 0x3C0\<rparr>)
         else Undefined)"

primrec boot_step :: "layout \<Rightarrow> boot_instr \<Rightarrow> boot_cpu \<Rightarrow> boot_result" where
  "boot_step l (BMrs d r) s =
     (if b_el s < min_el r then Undefined else Running (set_x d (read_boot_sys r s) s))"
| "boot_step l (BMsr r n) s =
     (if b_el s < min_el r then Undefined
      else Running (next_instr (s\<lparr>b_sys := (b_sys s)(r := b_x s n)\<rparr>)))"
| "boot_step l (BMov d v) s = Running (set_x d v s)"
| "boot_step l (BAnd d n v) s = Running (set_x d (b_x s n AND v) s)"
| "boot_step l (BOrr d n v) s = Running (set_x d (b_x s n OR v) s)"
| "boot_step l (BLsr d n k) s = Running (set_x d (drop_bit k (b_x s n)) s)"
| "boot_step l (BCmpImm n v) s = Running (next_instr (s\<lparr>b_eq := (b_x s n = v), b_ge := (v \<le>s b_x s n)\<rparr>))"
| "boot_step l (BCmp n m) s =
     Running (next_instr (s\<lparr>b_eq := (b_x s n = b_x s m), b_ge := (b_x s m \<le>s b_x s n)\<rparr>))"
| "boot_step l (BBeq k) s = Running (if b_eq s then s\<lparr>b_pc := k\<rparr> else next_instr s)"
| "boot_step l (BBge k) s = Running (if b_ge s then s\<lparr>b_pc := k\<rparr> else next_instr s)"
| "boot_step l (BB k) s = Running (s\<lparr>b_pc := k\<rparr>)"
| "boot_step l (BCbnz n k) s = Running (if b_x s n \<noteq> 0 then s\<lparr>b_pc := k\<rparr> else next_instr s)"
| "boot_step l (BAdr d k) s = Running (set_x d (label_addr l k) s)"
| "boot_step l (BAdrp d a) s = Running (set_x d (a AND NOT 0xFFF) s)"
| "boot_step l (BAddLo12 d n a) s = Running (set_x d (b_x s n + (a AND 0xFFF)) s)"
| "boot_step l (BMovSP n) s = Running (next_instr (s\<lparr>b_sp := b_x s n\<rparr>))"
| "boot_step l (BStrZrPost n i) s =
     Running (set_x n (b_x s n + i) (s\<lparr>b_mem := (b_mem s)(b_x s n := 0)\<rparr>))"
| "boot_step l BIsb s = Running (next_instr s)"
| "boot_step l BWfe s = Running (next_instr s)"
| "boot_step l BEret s = boot_eret l s"
| "boot_step l BBootRust s = Entered s"

section \<open>The program\<close>

definition start_program :: "layout \<Rightarrow> boot_instr list" where
  "start_program l =
    [BMrs 0 MPIDR_EL1, BAnd 0 0 0xFF, BCbnz 0 44,
     BMrs 0 CurrentEL, BLsr 0 0 2, BCmpImm 0 3, BBeq 10, BCmpImm 0 2, BBeq 20, BB 28,
     BMov 0 62500000, BMsr CNTFRQ_EL0 0, BMov 0 0xd01, BMsr SCR_EL3 0, BIsb, BMov 0 0x3c9,
     BMsr SPSR_EL3 0, BAdr 0 20, BMsr ELR_EL3 0, BEret,
     BMov 0 (push_bit 31 1), BMsr HCR_EL2 0, BMov 0 5, BOrr 0 0 (push_bit 6 0xF), BMsr SPSR_EL2 0,
     BAdr 0 28, BMsr ELR_EL2 0, BEret,
     BAdrp 0 (l_stack_top l), BAddLo12 0 0 (l_stack_top l), BMovSP 0,
     BAdrp 0 (l_bss_start l), BAddLo12 0 0 (l_bss_start l), BAdrp 1 (l_bss_end l),
     BAddLo12 1 1 (l_bss_end l),
     BCmp 0 1, BBge 39, BStrZrPost 0 8, BB 35,
     BMrs 0 CPACR_EL1, BOrr 0 0 (push_bit 20 3), BMsr CPACR_EL1 0, BIsb, BBootRust,
     BWfe, BB 44]"

fun boot_run :: "nat \<Rightarrow> layout \<Rightarrow> boot_cpu \<Rightarrow> boot_result" where
  "boot_run 0 l s = Running s"
| "boot_run (Suc n) l s =
     (if b_pc s < length (start_program l) then
        (case boot_step l (start_program l ! b_pc s) s of
           Running s' \<Rightarrow> boot_run n l s'
         | r \<Rightarrow> r)
      else Undefined)"

text \<open>The symbols of the linker script.\<close>

definition heap_start :: "layout \<Rightarrow> usize" where "heap_start l = l_heap_start l"
definition heap_end :: "layout \<Rightarrow> usize" where "heap_end l = l_heap_end l"
definition heap_size :: "bool \<Rightarrow> layout \<Rightarrow> usize res" where
  "heap_size checks l = sub_u checks (heap_end l) (heap_start l)"
definition boot_stack_top :: "layout \<Rightarrow> usize" where "boot_stack_top l = l_stack_top l"

section \<open>Running the blocks\<close>

lemma boot_run_add:
  "boot_run (m + n) l s = (case boot_run m l s of Running s' \<Rightarrow> boot_run n l s' | r \<Rightarrow> r)"
  by (induction m arbitrary: s) (auto split: boot_result.splits)

lemma length_start [simp]: "length (start_program l) = 46"
  by (simp add: start_program_def)

lemma boot_sel [simp]:
  "b_x (set_x r v s) = (b_x s)(r := v)" "b_pc (set_x r v s) = Suc (b_pc s)" "b_el (set_x r v s) = b_el s"
  "b_sys (set_x r v s) = b_sys s" "b_mem (set_x r v s) = b_mem s" "b_sp (set_x r v s) = b_sp s"
  "b_daif (set_x r v s) = b_daif s" "b_eq (set_x r v s) = b_eq s" "b_ge (set_x r v s) = b_ge s"
  "b_x (next_instr s) = b_x s" "b_pc (next_instr s) = Suc (b_pc s)" "b_el (next_instr s) = b_el s"
  "b_sys (next_instr s) = b_sys s" "b_mem (next_instr s) = b_mem s" "b_sp (next_instr s) = b_sp s"
  "b_daif (next_instr s) = b_daif s" "b_eq (next_instr s) = b_eq s" "b_ge (next_instr s) = b_ge s"
  by (simp_all add: set_x_def next_instr_def)

lemma boot_upd:
  "set_x r v s = s\<lparr>b_x := (b_x s)(r := v), b_pc := Suc (b_pc s)\<rparr>"
  "next_instr s = s\<lparr>b_pc := Suc (b_pc s)\<rparr>"
  by (simp_all add: set_x_def next_instr_def)

lemma fetch:
  "start_program l ! 0 = BMrs 0 MPIDR_EL1" "start_program l ! Suc 0 = BAnd 0 0 0xFF"
  "start_program l ! 2 = BCbnz 0 44" "start_program l ! 3 = BMrs 0 CurrentEL"
  "start_program l ! 4 = BLsr 0 0 2" "start_program l ! 5 = BCmpImm 0 3" "start_program l ! 6 = BBeq 10"
  "start_program l ! 7 = BCmpImm 0 2" "start_program l ! 8 = BBeq 20" "start_program l ! 9 = BB 28"
  "start_program l ! 10 = BMov 0 62500000" "start_program l ! 11 = BMsr CNTFRQ_EL0 0"
  "start_program l ! 12 = BMov 0 0xd01" "start_program l ! 13 = BMsr SCR_EL3 0"
  "start_program l ! 14 = BIsb" "start_program l ! 15 = BMov 0 0x3c9"
  "start_program l ! 16 = BMsr SPSR_EL3 0" "start_program l ! 17 = BAdr 0 20"
  "start_program l ! 18 = BMsr ELR_EL3 0" "start_program l ! 19 = BEret"
  "start_program l ! 20 = BMov 0 (push_bit 31 1)" "start_program l ! 21 = BMsr HCR_EL2 0"
  "start_program l ! 22 = BMov 0 5" "start_program l ! 23 = BOrr 0 0 (push_bit 6 0xF)"
  "start_program l ! 24 = BMsr SPSR_EL2 0" "start_program l ! 25 = BAdr 0 28"
  "start_program l ! 26 = BMsr ELR_EL2 0" "start_program l ! 27 = BEret"
  "start_program l ! 28 = BAdrp 0 (l_stack_top l)" "start_program l ! 29 = BAddLo12 0 0 (l_stack_top l)"
  "start_program l ! 30 = BMovSP 0" "start_program l ! 31 = BAdrp 0 (l_bss_start l)"
  "start_program l ! 32 = BAddLo12 0 0 (l_bss_start l)" "start_program l ! 33 = BAdrp 1 (l_bss_end l)"
  "start_program l ! 34 = BAddLo12 1 1 (l_bss_end l)" "start_program l ! 35 = BCmp 0 1"
  "start_program l ! 36 = BBge 39" "start_program l ! 37 = BStrZrPost 0 8" "start_program l ! 38 = BB 35"
  "start_program l ! 39 = BMrs 0 CPACR_EL1" "start_program l ! 40 = BOrr 0 0 (push_bit 20 3)"
  "start_program l ! 41 = BMsr CPACR_EL1 0" "start_program l ! 42 = BIsb" "start_program l ! 43 = BBootRust"
  "start_program l ! 44 = BWfe" "start_program l ! 45 = BB 44"
  by (simp_all add: start_program_def)

lemma boot_run_numeral:
  "boot_run (numeral k) l s =
     (if b_pc s < 46 then
        (case boot_step l (start_program l ! b_pc s) s of
           Running s' \<Rightarrow> boot_run (pred_numeral k) l s'
         | r \<Rightarrow> r)
      else Undefined)"
  by (simp add: numeral_eq_Suc)

lemmas boot_simps = boot_run_numeral fetch boot_eret_def label_addr_def Let_def read_boot_sys_def
  numeral_2_eq_2 [symmetric]

lemma from_el3:
  assumes "b_pc s = 10" "b_el s = 3"
  shows "\<exists>s'. boot_run 10 l s = Running s' \<and> b_pc s' = 20 \<and> b_el s' = 2 \<and> b_daif s' = 0x3C0 \<and>
    b_mem s' = b_mem s \<and> b_sys s' CNTFRQ_EL0 = 62500000 \<and> b_sys s' CPACR_EL1 = b_sys s CPACR_EL1"
  using assms by (simp add: boot_simps)

lemma from_el2:
  assumes "b_pc s = 20" "b_el s = 2"
  shows "\<exists>s'. boot_run 8 l s = Running s' \<and> b_pc s' = 28 \<and> b_el s' = 1 \<and> b_daif s' = 0x3C0 \<and>
    b_mem s' = b_mem s \<and> b_sys s' CNTFRQ_EL0 = b_sys s CNTFRQ_EL0 \<and> b_sys s' CPACR_EL1 = b_sys s CPACR_EL1"
  using assms by (simp add: boot_simps)

lemma entry_block:
  assumes "b_pc s = 0" "b_sys s MPIDR_EL1 AND 0xFF = 0" "b_el s \<in> {1, 2, 3}"
  shows "\<exists>n \<le> 10. \<exists>s'. boot_run n l s = Running s' \<and> b_pc s' = (if b_el s = 3 then 10 else if b_el s = 2 then 20 else 28) \<and>
    b_el s' = b_el s \<and> b_daif s' = b_daif s \<and> b_mem s' = b_mem s \<and> b_sys s' = b_sys s"
proof -
  have el: "drop_bit 2 (push_bit 2 (of_nat (b_el s)) :: u64) = of_nat (b_el s)"
    using assms(3) by (auto simp: drop_bit_eq_div push_bit_eq_mult)
  consider "b_el s = 3" | "b_el s = 2" | "b_el s = 1" using assms(3) by auto
  then show ?thesis
  proof cases
    case 1
    then show ?thesis using assms by (intro exI [of _ 7]) (simp add: boot_simps)
  next
    case 2
    then show ?thesis using assms by (intro exI [of _ 9]) (simp add: boot_simps)
  next
    case 3
    then show ?thesis using assms by (intro exI [of _ 10]) (simp add: boot_simps)
  qed
qed

lemma adrp_lo12: "(a AND - 4096) + (a AND 4095) = (a :: u64)"
proof -
  have "(a AND NOT 0xFFF) + (a AND 0xFFF) = (a AND NOT 0xFFF) OR (a AND 0xFFF)"
    by (rule disjunctive_add) (auto simp: bit_simps)
  also have "\<dots> = a" by (rule bit_word_eqI) (auto simp: bit_simps)
  finally show ?thesis by simp
qed

lemma stack_block:
  assumes "b_pc s = 28"
  shows "\<exists>s'. boot_run 7 l s = Running s' \<and> b_pc s' = 35 \<and> b_el s' = b_el s \<and> b_daif s' = b_daif s \<and>
    b_mem s' = b_mem s \<and> b_sys s' = b_sys s \<and> b_sp s' = l_stack_top l \<and> b_x s' 0 = l_bss_start l \<and>
    b_x s' (Suc 0) = l_bss_end l"
  using assms by (simp add: boot_simps adrp_lo12)

lemma signed_le_low:
  assumes "unat (a :: u64) < 2 ^ 63" "unat b < 2 ^ 63"
  shows "a \<le>s b \<longleftrightarrow> unat a \<le> unat b"
proof -
  have "\<not> bit c 63" if "unat c < 2 ^ 63" for c :: u64
  proof -
    have "bit c 63 \<longleftrightarrow> bit (unat c) 63" by (simp add: bit_unsigned_iff)
    then show ?thesis using that by (simp add: bit_iff_odd)
  qed
  moreover have "take_bit 63 (uint c) = int (unat c)" if "unat c < 2 ^ 63" for c :: u64
  proof -
    have "take_bit 63 (int (unat c)) = int (unat c)"
      using that by (simp only: take_bit_of_nat take_bit_nat_eq_self)
    then show ?thesis by simp
  qed
  moreover have "uint a \<le> uint b \<longleftrightarrow> unat a \<le> unat b"
    using word_le_def [of a b] word_le_nat_alt [of a b] by simp
  ultimately show ?thesis
    using assms by (simp add: word_sle_eq sint_uint signed_take_bit_eq_if_positive bit_uint_iff)
qed

lemma bss_loop:
  assumes "b_pc s = 35" "b_x s (Suc 0) = e" "unat e < 2 ^ 63" "unat e = unat (b_x s 0) + 8 * n"
  shows "\<exists>s'. boot_run (2 + 4 * n) l s = Running s' \<and> b_pc s' = 39 \<and> b_el s' = b_el s \<and> b_daif s' = b_daif s \<and>
    b_sys s' = b_sys s \<and> b_sp s' = b_sp s \<and>
    b_mem s' = (\<lambda>c. if \<exists>i < n. c = b_x s 0 + 8 * of_nat i then 0 else b_mem s c)"
  using assms
proof (induction n arbitrary: s)
  case 0
  then have e: "b_x s 0 = e" by (simp add: word_unat_eq_iff)
  have "boot_run 2 l s = Running (s\<lparr>b_pc := 39, b_eq := True, b_ge := True\<rparr>)"
    using 0(1,2) e by (simp add: boot_simps boot_upd)
  then show ?case by simp
next
  case (Suc n)
  define s1 where "s1 = s\<lparr>b_x := (b_x s)(0 := b_x s 0 + 8), b_mem := (b_mem s)(b_x s 0 := 0),
    b_eq := (b_x s 0 = e), b_ge := False\<rparr>"
  have f: "b_x s1 0 = b_x s 0 + 8" "b_mem s1 = (b_mem s)(b_x s 0 := 0)" "b_el s1 = b_el s"
    "b_daif s1 = b_daif s" "b_sys s1 = b_sys s" "b_sp s1 = b_sp s" by (simp_all add: s1_def)
  have lt: "unat (b_x s 0) + 8 < 2 ^ 63" "\<not> e \<le>s b_x s 0"
    using Suc.prems by (simp_all add: signed_le_low)
  have "boot_run 4 l s = Running s1"
    using Suc.prems lt(2) by (simp add: boot_simps s1_def boot_upd)
  moreover have "unat (b_x s1 0) = unat (b_x s 0) + 8"
    using lt(1) by (simp add: s1_def unat_word_ariths(1))
  then have "\<exists>s'. boot_run (2 + 4 * n) l s1 = Running s' \<and> b_pc s' = 39 \<and> b_el s' = b_el s1 \<and>
      b_daif s' = b_daif s1 \<and> b_sys s' = b_sys s1 \<and> b_sp s' = b_sp s1 \<and>
      b_mem s' = (\<lambda>c. if \<exists>i < n. c = b_x s1 0 + 8 * of_nat i then 0 else b_mem s1 c)"
    using Suc.prems by (intro Suc.IH) (simp_all add: s1_def)
  then obtain s' where s': "boot_run (2 + 4 * n) l s1 = Running s'" "b_pc s' = 39" "b_el s' = b_el s"
    "b_daif s' = b_daif s" "b_sys s' = b_sys s" "b_sp s' = b_sp s"
    "b_mem s' = (\<lambda>c. if \<exists>i < n. c = b_x s 0 + 8 + 8 * of_nat i then 0 else ((b_mem s)(b_x s 0 := 0)) c)"
    unfolding f by blast
  have "(\<exists>i < Suc n. c = b_x s 0 + 8 * of_nat i) \<longleftrightarrow> c = b_x s 0 \<or> (\<exists>i < n. c = b_x s 0 + 8 + 8 * of_nat i)" for c
    by (subst Ex_less_Suc2) (simp add: algebra_simps)
  with s'(7) have "b_mem s' = (\<lambda>c. if \<exists>i < Suc n. c = b_x s 0 + 8 * of_nat i then 0 else b_mem s c)"
    by (auto simp: fun_eq_iff)
  moreover have "2 + 4 * Suc n = 4 + (2 + 4 * n)" by simp
  ultimately show ?case using s' boot_run_add [of 4 "2 + 4 * n" l s] by auto
qed

lemma fp_block:
  assumes "b_pc s = 39" "b_el s = 1"
  shows "\<exists>s'. boot_run 5 l s = Entered s' \<and> b_el s' = 1 \<and> b_daif s' = b_daif s \<and> b_mem s' = b_mem s \<and>
    b_sp s' = b_sp s \<and> b_sys s' = (b_sys s)(CPACR_EL1 := b_sys s CPACR_EL1 OR push_bit 20 3)"
  using assms by (simp add: boot_simps)

lemma boot_run_join: "boot_run m l u = Running u' \<Longrightarrow> boot_run (m + k) l u = boot_run k l u'"
  by (simp add: boot_run_add)

lemma reach_el1:
  assumes "b_pc s = 0" "b_sys s MPIDR_EL1 AND 0xFF = 0" "b_el s \<in> {1, 2, 3}"
  shows "\<exists>j s2. j \<le> 28 \<and> boot_run j l s = Running s2 \<and> b_pc s2 = 28 \<and> b_el s2 = 1 \<and> b_mem s2 = b_mem s \<and>
      b_daif s2 = (if b_el s = 1 then b_daif s else 0x3C0) \<and>
      b_sys s2 CNTFRQ_EL0 = (if b_el s = 3 then 62500000 else b_sys s CNTFRQ_EL0)"
proof -
  obtain m s1 where s1: "m \<le> 10" "boot_run m l s = Running s1"
    "b_pc s1 = (if b_el s = 3 then 10 else if b_el s = 2 then 20 else 28)" "b_el s1 = b_el s"
    "b_daif s1 = b_daif s" "b_mem s1 = b_mem s" "b_sys s1 = b_sys s"
    using entry_block [OF assms, of l] by auto
  consider "b_el s = 3" | "b_el s = 2" | "b_el s = 1" using assms(3) by auto
  then show ?thesis
  proof cases
    case 1
    then obtain u where u: "boot_run 10 l s1 = Running u" "b_pc u = 20" "b_el u = 2" "b_mem u = b_mem s"
      "b_sys u CNTFRQ_EL0 = 62500000" using from_el3 [of s1 l] s1 by auto
    from from_el2 [OF u(2,3), of l] u(4,5) boot_run_join [OF u(1), of 8] boot_run_join [OF s1(2), of "10 + 8"] 1 s1(1)
    show ?thesis by (intro exI [of _ "m + (10 + 8)"]) auto
  next
    case 2
    then show ?thesis using from_el2 [of s1 l] s1 boot_run_join [OF s1(2), of 8] by (intro exI [of _ "m + 8"]) auto
  next
    case 3
    then show ?thesis using s1 by (intro exI [of _ m]) auto
  qed
qed

lemma park_loop:
  "b_pc s \<in> {44, 45} \<Longrightarrow> \<exists>s'. boot_run n l s = Running s' \<and> b_pc s' \<in> {44, 45} \<and> b_mem s' = b_mem s \<and>
     b_sys s' = b_sys s"
proof (induction n arbitrary: s)
  case (Suc n)
  from Suc.prems Suc.IH [of "next_instr s"] Suc.IH [of "s\<lparr>b_pc := 44\<rparr>"] show ?case by (auto simp: fetch)
qed simp

section \<open>Properties\<close>

text \<open>The 8-byte cells of the BSS section.\<close>

definition bss_cells :: "layout \<Rightarrow> u64 set" where
  "bss_cells l = (\<lambda>i. l_bss_start l + 8 * of_nat i) ` {i. 8 * i < unat (l_bss_end l) - unat (l_bss_start l)}"

text \<open>
  C35. From reset to Rust.  Whatever exception level the first CPU starts at, the entry code reaches
  \<open>boot_rust\<close> within 42 instructions plus four for each eight bytes of BSS.  It is then at EL1 with
  the stack pointer at the top of the boot stack; every cell of the BSS is zero and no other memory
  has changed; floating point is not trapped; interrupts are masked if it came from EL3 or EL2, and
  as the firmware left them if it started at EL1; only a start at EL3 sets the counter frequency.
  The symbols must be as the linker scripts lay them out: the section a multiple of 8 bytes long and
  below \<open>2 ^ 63\<close>, because the loop compares addresses as signed numbers.
\<close>

theorem boot_reaches_rust:
  assumes "b_pc s = 0" "b_sys s MPIDR_EL1 AND 0xFF = 0" "b_el s \<in> {1, 2, 3}"
    "unat (l_bss_end l) = unat (l_bss_start l) + 8 * n" "unat (l_bss_end l) < 2 ^ 63"
  shows "\<exists>k s'. k \<le> 42 + 4 * n \<and> boot_run k l s = Entered s' \<and> b_el s' = 1 \<and> b_sp s' = l_stack_top l \<and>
    b_mem s' = (\<lambda>c. if c \<in> bss_cells l then 0 else b_mem s c) \<and>
    bit (b_sys s' CPACR_EL1) 20 \<and> bit (b_sys s' CPACR_EL1) 21 \<and>
    b_daif s' = (if b_el s = 1 then b_daif s else 0x3C0) \<and>
    b_sys s' CNTFRQ_EL0 = (if b_el s = 3 then 62500000 else b_sys s CNTFRQ_EL0)"
proof -
  obtain j s2 where s2: "j \<le> 28" "boot_run j l s = Running s2" "b_pc s2 = 28" "b_el s2 = 1"
    "b_mem s2 = b_mem s" "b_daif s2 = (if b_el s = 1 then b_daif s else 0x3C0)"
    "b_sys s2 CNTFRQ_EL0 = (if b_el s = 3 then 62500000 else b_sys s CNTFRQ_EL0)"
    using reach_el1 [OF assms(1-3), of l] by blast
  obtain s3 where s3: "boot_run 7 l s2 = Running s3" "b_pc s3 = 35" "b_el s3 = b_el s2" "b_daif s3 = b_daif s2"
    "b_mem s3 = b_mem s2" "b_sys s3 = b_sys s2" "b_sp s3 = l_stack_top l" "b_x s3 0 = l_bss_start l"
    "b_x s3 (Suc 0) = l_bss_end l" using stack_block [OF s2(3), of l] by blast
  obtain s4 where s4: "boot_run (2 + 4 * n) l s3 = Running s4" "b_pc s4 = 39" "b_el s4 = b_el s3"
    "b_daif s4 = b_daif s3" "b_sys s4 = b_sys s3" "b_sp s4 = b_sp s3"
    "b_mem s4 = (\<lambda>c. if \<exists>i < n. c = b_x s3 0 + 8 * of_nat i then 0 else b_mem s3 c)"
    using bss_loop [OF s3(2,9) assms(5), of n l] assms(4) s3(8) by auto
  obtain s5 where s5: "boot_run 5 l s4 = Entered s5" "b_el s5 = 1" "b_daif s5 = b_daif s4" "b_mem s5 = b_mem s4"
    "b_sp s5 = b_sp s4" "b_sys s5 = (b_sys s4)(CPACR_EL1 := b_sys s4 CPACR_EL1 OR push_bit 20 3)"
    using fp_block [OF s4(2), of l] s4(3) s3(3) s2(4) by auto
  have run: "boot_run (j + (7 + ((2 + 4 * n) + 5))) l s = Entered s5"
    unfolding boot_run_join [OF s2(2)] boot_run_join [OF s3(1)] boot_run_join [OF s4(1)] by (rule s5(1))
  have fp: "bit (b_sys s5 CPACR_EL1) 20" "bit (b_sys s5 CPACR_EL1) 21"
    by (simp_all add: s5(6) bit_or_iff)
  have "bss_cells l = {c. \<exists>i < n. c = b_x s3 0 + 8 * of_nat i}"
    using assms(4) s3(8) by (auto simp: bss_cells_def)
  then have "b_mem s5 = (\<lambda>c. if c \<in> bss_cells l then 0 else b_mem s c)"
    using s5(4) s4(7) s3(5) s2(5) by (auto simp: fun_eq_iff)
  moreover have "j + (7 + ((2 + 4 * n) + 5)) \<le> 42 + 4 * n" using s2(1) by linarith
  ultimately show ?thesis
    using run fp s5 s4 s3 s2(6,7) by (intro exI conjI) (assumption | simp)+
qed

definition example_layout :: layout where
  "example_layout = \<lparr>l_text = 0x80000, l_stack_top = 0x200000, l_bss_start = 0x90000, l_bss_end = 0x90100,
     l_heap_start = 0x200000, l_heap_end = 0x1200000\<rparr>"

definition reset_cpu :: "nat \<Rightarrow> nat \<Rightarrow> boot_cpu" where
  "reset_cpu el cpu = \<lparr>b_x = (\<lambda>_. 0), b_sp = 0, b_pc = 0, b_el = el, b_daif = 0, b_eq = False, b_ge = False,
     b_sys = (\<lambda>_. 0)(MPIDR_EL1 := 0x80000000 OR of_nat cpu), b_mem = (\<lambda>_. 0xDEAD)\<rparr>"

theorem boot_reaches_rust_witness:
  "\<exists>k s'. boot_run k example_layout (reset_cpu 3 0) = Entered s' \<and> b_el s' = 1 \<and> b_sp s' = 0x200000 \<and>
     b_daif s' = 0x3C0"
proof -
  have s: "b_pc (reset_cpu 3 0) = 0" "b_sys (reset_cpu 3 0) MPIDR_EL1 AND 0xFF = 0" "b_el (reset_cpu 3 0) = 3"
    by (simp_all add: reset_cpu_def)
  have l: "unat (l_bss_end example_layout) = unat (l_bss_start example_layout) + 8 * 32"
    "unat (l_bss_end example_layout) < 2 ^ 63" "l_stack_top example_layout = 0x200000"
    by (simp_all add: example_layout_def)
  have "b_el (reset_cpu 3 0) \<in> {1, 2, 3}" by (simp add: s(3))
  from boot_reaches_rust [OF s(1,2) this l(1,2)] obtain k s' where
    "boot_run k example_layout (reset_cpu 3 0) = Entered s'" "b_el s' = 1" "b_sp s' = 0x200000"
    "b_daif s' = (if b_el (reset_cpu 3 0) = 1 then b_daif (reset_cpu 3 0) else 0x3C0)"
    unfolding l(3) by blast
  then show ?thesis using s(3) by (intro exI [of _ k] exI [of _ s']) simp
qed

text \<open>
  The other CPUs never run the kernel: a CPU whose affinity is not 0 is parked after three
  instructions, for ever, and changes neither memory nor any system register.
\<close>

theorem secondary_cpus_park:
  assumes "b_pc s = 0" "b_sys s MPIDR_EL1 AND 0xFF \<noteq> 0" "b_el s \<in> {1, 2, 3}"
  shows "\<exists>s'. boot_run (3 + n) l s = Running s' \<and> b_pc s' \<in> {44, 45} \<and> b_mem s' = b_mem s \<and> b_sys s' = b_sys s"
proof -
  obtain s1 where s1: "boot_run 3 l s = Running s1" "b_pc s1 = 44" "b_mem s1 = b_mem s" "b_sys s1 = b_sys s"
    using assms by (auto simp add: boot_simps)
  show ?thesis unfolding boot_run_join [OF s1(1)] using park_loop [of s1 n l] s1 by auto
qed

theorem secondary_cpus_park_witness:
  "\<exists>s'. boot_run (3 + 1000) example_layout (reset_cpu 2 1) = Running s' \<and> b_pc s' \<in> {44, 45}"
proof -
  have s: "b_pc (reset_cpu 2 1) = 0" "b_sys (reset_cpu 2 1) MPIDR_EL1 AND 0xFF \<noteq> 0" "b_el (reset_cpu 2 1) \<in> {1, 2, 3}"
    by (simp_all add: reset_cpu_def)
  from secondary_cpus_park [OF s, of 1000 example_layout] show ?thesis by blast
qed

end
