(* ===== verification/Qemu_Virt.thy ===== *)
theory Qemu_Virt
  imports Uart
begin

text \<open>
  The program \<open>examples/qemu_virt.rs\<close>, which brings its own console instead of using the library.  The
  theory shows that this console is the library's driver, and what the program prints.
\<close>

section \<open>The program\<close>

definition virt_UART0_BASE :: usize where "virt_UART0_BASE = 0x09000000"
definition virt_UART0_DR :: usize where "virt_UART0_DR = virt_UART0_BASE"
definition virt_UART0_FR :: usize where "virt_UART0_FR = virt_UART0_BASE + 0x18"

text \<open>The wait in \<open>uart_putc\<close>, and \<open>uart_putc\<close>.\<close>

partial_function (option) virt_wait :: "'d bus \<Rightarrow> 'd \<Rightarrow> 'd option" where
  "virt_wait b d =
     (case read_volatile b virt_UART0_FR d of (v, d1) \<Rightarrow>
        if v AND push_bit 5 1 \<noteq> 0 then virt_wait b d1 else Some d1)"

declare virt_wait.simps [code]

definition uart_putc :: "'d bus \<Rightarrow> u8 \<Rightarrow> 'd \<Rightarrow> 'd option" where
  "uart_putc b c d =
     (case virt_wait b d of
        None \<Rightarrow> None
      | Some d1 \<Rightarrow> Some (write_volatile b virt_UART0_DR (ucast c) d1))"

fun uart_puts :: "'d bus \<Rightarrow> u8 list \<Rightarrow> 'd \<Rightarrow> 'd option" where
  "uart_puts b [] d = Some d"
| "uart_puts b (c # cs) d =
     (case (if c = 10 then uart_putc b 13 d else Some d) of
        None \<Rightarrow> None
      | Some d1 \<Rightarrow> (case uart_putc b c d1 of None \<Rightarrow> None | Some d2 \<Rightarrow> uart_puts b cs d2))"

definition virt_print :: "'d bus \<Rightarrow> string \<Rightarrow> 'd \<Rightarrow> 'd option" where
  "virt_print b s d = uart_puts b (map of_char s) d"

definition virt_println :: "'d bus \<Rightarrow> string \<Rightarrow> 'd \<Rightarrow> 'd option" where
  "virt_println b s d =
     (case virt_print b s d of None \<Rightarrow> None | Some d1 \<Rightarrow> virt_print b [CHR 0x0A] d1)"

fun virt_printlns :: "'d bus \<Rightarrow> string list \<Rightarrow> 'd \<Rightarrow> 'd option" where
  "virt_printlns b [] d = Some d"
| "virt_printlns b (s # ss) d =
     (case virt_println b s d of None \<Rightarrow> None | Some d1 \<Rightarrow> virt_printlns b ss d1)"

definition virt_banner :: "string list" where
  "virt_banner =
     ['''', ''========================================'', ''  Preemptive Threads - QEMU virt test'',
      ''========================================'', '''', ''[BOOT] Hello from bare-metal ARM64!'',
      ''[BOOT] UART output working!'', '''']"

text \<open>The loop of \<open>_start\<close>, \<open>n\<close> times around, and \<open>_start\<close> up to then.\<close>

primrec virt_loop :: "'d bus \<Rightarrow> nat \<Rightarrow> u64 \<times> 'd \<Rightarrow> (u64 \<times> 'd) option" where
  "virt_loop b 0 s = Some s"
| "virt_loop b (Suc n) s =
     (case virt_loop b n s of
        None \<Rightarrow> None
      | Some (counter, d) \<Rightarrow>
          let counter = counter + 1
          in if counter mod 100000000 = 0
             then (case virt_println b (''[IDLE] Counter: '' @ decimal (unat (counter div 100000000))) d of
                     None \<Rightarrow> None
                   | Some d1 \<Rightarrow> Some (counter, d1))
             else Some (counter, d))"

definition virt_start :: "'d bus \<Rightarrow> nat \<Rightarrow> 'd \<Rightarrow> (u64 \<times> 'd) option" where
  "virt_start b n d =
     (case virt_printlns b virt_banner d of None \<Rightarrow> None | Some d1 \<Rightarrow> virt_loop b n (0, d1))"

text \<open>The panic handler before it waits for ever; \<open>location\<close> is the file and the line, if they are known.\<close>

definition virt_panic :: "'d bus \<Rightarrow> (string \<times> u32) option \<Rightarrow> 'd \<Rightarrow> 'd option" where
  "virt_panic b location d =
     virt_printlns b ([[], ''!!! KERNEL PANIC !!!''] @
       (case location of None \<Rightarrow> [] | Some (file, line) \<Rightarrow> [''at '' @ file @ '':'' @ decimal (unat line)])) d"

section \<open>The console is the library's\<close>

lemma virt_registers: "virt_UART0_DR = UART0_DR True" "virt_UART0_FR = UART0_FR True"
  by (simp_all add: virt_UART0_DR_def virt_UART0_FR_def virt_UART0_BASE_def uart_registers)

lemma wait_step:
  "wait_transmit True b d = (case read_volatile b virt_UART0_FR d of (v, d1) \<Rightarrow>
     if v AND push_bit 5 1 \<noteq> 0 then wait_transmit True b d1 else Some d1)"
  by (subst wait_transmit.simps) (simp add: can_transmit_def FR_TXFF_def virt_registers split: prod.split)

lemma virt_wait_eq: "virt_wait b d = wait_transmit True b d"
proof -
  have to: "wait_transmit True b d = Some d'" if "virt_wait b d = Some d'" for d d'
  proof (rule virt_wait.raw_induct [OF _ that, where P = "\<lambda>b d d'. wait_transmit True b d = Some d'"])
    fix f b d y assume IH: "\<And>b d y. f b d = Some y \<Longrightarrow> wait_transmit True b d = Some y"
      and f: "(case read_volatile b virt_UART0_FR d of (v, d1) \<Rightarrow>
        if v AND push_bit 5 1 \<noteq> 0 then f b d1 else Some d1) = Some y"
    obtain v d1 where r: "read_volatile b virt_UART0_FR d = (v, d1)" by fastforce
    show "wait_transmit True b d = Some y"
      unfolding wait_step [of b d] using f IH [of b d1 y] by (auto simp: r simp del: push_bit_of_1 split: if_splits)
  qed
  have fro: "virt_wait b d = Some d'" if "wait_transmit True b d = Some d'" for d d'
  proof (rule wait_transmit.raw_induct [OF _ that, where P = "\<lambda>q b d d'. q \<longrightarrow> virt_wait b d = Some d'",
      THEN mp, OF _ TrueI], rule impI)
    fix f q b d y assume IH: "\<And>q b d y. f q b d = Some y \<Longrightarrow> q \<longrightarrow> virt_wait b d = Some y" and q
      and f: "(case can_transmit q b d of (ok, d1) \<Rightarrow> if ok then Some d1 else f q b d1) = Some y"
    obtain v d1 where r: "read_volatile b virt_UART0_FR d = (v, d1)" by fastforce
    have "can_transmit q b d = (v AND push_bit 5 1 = 0, d1)"
      using r \<open>q\<close> by (simp add: can_transmit_def FR_TXFF_def virt_registers)
    then show "virt_wait b d = Some y"
      using f IH [of q b d1 y] \<open>q\<close> unfolding virt_wait.simps [of b d] by (auto simp: r simp del: push_bit_of_1 split: if_splits)
  qed
  show ?thesis using to [of d] fro [of d] by (metis not_Some_eq)
qed

lemma uart_putc_eq: "uart_putc b c d = send_byte True b c d"
  by (simp add: uart_putc_def send_byte_def virt_wait_eq virt_registers split: option.split)

lemma uart_puts_eq: "uart_puts b cs d = send_str True b cs d"
  by (induction cs arbitrary: d) (simp_all add: uart_putc_eq split: option.split)

lemma virt_print_eq: "virt_print b s d = pl011_print True b s d"
  by (simp add: virt_print_def uart_puts_eq pl011_print_def write_str_def split: option.split)

lemma virt_println_eq: "virt_println b s d = pl011_println True b s d"
  by (simp add: virt_println_def pl011_println_def virt_print_eq split: option.split)

section \<open>What the program prints\<close>

definition idle_lines :: "nat \<Rightarrow> string list" where
  "idle_lines n = map (\<lambda>k. ''[IDLE] Counter: '' @ decimal k) [1..<Suc (n div 100000000)]"

lemma idle_lines_Suc:
  "idle_lines (Suc n) = idle_lines n @
     (if Suc n mod 100000000 = 0 then [''[IDLE] Counter: '' @ decimal (Suc n div 100000000)] else [])"
  by (simp add: idle_lines_def div_Suc)

lemma counter_mod:
  assumes "Suc n < 2 ^ 64"
  shows "of_nat n + 1 = (of_nat (Suc n) :: u64)"
    "(of_nat (Suc n) :: u64) mod 100000000 = 0 \<longleftrightarrow> Suc n mod 100000000 = 0"
    "unat ((of_nat (Suc n) :: u64) div 100000000) = Suc n div 100000000"
proof -
  have u: "unat (of_nat (Suc n) :: u64) = Suc n"
    by (rule unat_of_nat_fits) (use assms in simp)
  show "unat ((of_nat (Suc n) :: u64) div 100000000) = Suc n div 100000000"
    by (simp only: unat_div u) simp
  have "unat ((of_nat (Suc n) :: u64) mod 100000000) = Suc n mod 100000000"
    by (simp only: unat_mod u) simp
  then show "(of_nat (Suc n) :: u64) mod 100000000 = 0 \<longleftrightarrow> Suc n mod 100000000 = 0"
    by (metis unat_0 unat_eq_zero)
qed simp

lemma virt_println_sent:
  "uart_device True b sent busy \<Longrightarrow> \<exists>d'. virt_println b s d = Some d' \<and> sent d' = sent d @ console [s]"
  using uart_device.println_sent [of True b sent busy s d] by (simp add: virt_println_eq)

lemma virt_printlns_sent:
  assumes "uart_device True b sent busy"
  shows "\<exists>d'. virt_printlns b ss d = Some d' \<and> sent d' = sent d @ console ss"
proof (induction ss arbitrary: d)
  case (Cons s ss)
  obtain d1 where "virt_println b s d = Some d1" "sent d1 = sent d @ console [s]"
    using virt_println_sent [OF assms] by blast
  with Cons [of d1] show ?case by (auto simp: console_simps)
qed (simp add: console_simps)

lemma virt_loop_sent:
  assumes u: "uart_device True b sent busy"
  shows "n < 2 ^ 64 \<Longrightarrow> \<exists>d'. virt_loop b n (0, d) = Some (of_nat n, d') \<and>
    sent d' = sent d @ console (idle_lines n)"
proof (induction n)
  case (Suc n)
  then obtain d1 where d1: "virt_loop b n (0, d) = Some (of_nat n, d1)"
    "sent d1 = sent d @ console (idle_lines n)" by auto
  note c = counter_mod [OF Suc.prems]
  show ?case
  proof (cases "Suc n mod 100000000 = 0")
    case True
    obtain d2 where "virt_println b (''[IDLE] Counter: '' @ decimal (Suc n div 100000000)) d1 = Some d2"
      "sent d2 = sent d1 @ console [''[IDLE] Counter: '' @ decimal (Suc n div 100000000)]"
      using virt_println_sent [OF u] by blast
    with True d1 show ?thesis
      by (simp only: virt_loop.simps option.case prod.case Let_def c if_True)
        (simp add: idle_lines_Suc console_append)
  next
    case False
    with d1 show ?thesis
      by (simp only: virt_loop.simps option.case prod.case Let_def c if_False)
        (simp add: idle_lines_Suc)
  qed
qed (simp add: idle_lines_def console_simps)

text \<open>
  C39. What the program prints.  On every transmitter that keeps the driver's contract \<open>_start\<close> prints
  its banner and then, after \<open>n\<close> rounds of its loop, exactly one line for each full hundred million
  rounds, numbered from 1; this holds until the 64-bit counter wraps around.
\<close>

theorem virt_start_prints:
  assumes "uart_device True b sent busy" "n < 2 ^ 64"
  shows "\<exists>d'. virt_start b n d = Some (of_nat n, d') \<and>
    sent d' = sent d @ console (virt_banner @ idle_lines n)"
proof -
  obtain d1 where "virt_printlns b virt_banner d = Some d1" "sent d1 = sent d @ console virt_banner"
    using virt_printlns_sent [OF assms(1)] by blast
  with virt_loop_sent [OF assms, of d1] show ?thesis by (auto simp: virt_start_def console_append)
qed

theorem virt_start_prints_witness:
  "\<exists>d'. virt_start (uart_bus True) 250000000 \<lparr>u_line = [], u_fifo = []\<rparr> = Some (250000000, d') \<and>
     u_line d' @ u_fifo d' = console (virt_banner @ [''[IDLE] Counter: 1'', ''[IDLE] Counter: 2''])"
proof -
  have "idle_lines 250000000 = [''[IDLE] Counter: 1'', ''[IDLE] Counter: 2'']"
    by (simp add: idle_lines_def upt_rec decimal.simps) code_simp
  with virt_start_prints [OF pl011.uart_device_axioms, of 250000000 "\<lparr>u_line = [], u_fifo = []\<rparr>"]
  show ?thesis by simp
qed

end
