(* ===== verification/Fpu.thy ===== *)
theory Fpu
  imports Prelude
begin

text \<open>
  Saving and restoring the floating point state, \<open>save_fpu\<close> and \<open>restore_fpu\<close> of
  \<open>arch/aarch64.rs\<close> (feature \<open>full-fpu\<close>).  The compiler chooses the register that holds the operand
  \<open>{ctx}\<close>; the blocks use \<open>x0\<close> as scratch register and declare it as a late output.  Memory is
  cells of 16 bytes for the vector registers and of 4 bytes for the two control words: the offsets
  272 to 783 and 784, 788 of a context do not overlap.
\<close>

section \<open>Processor state\<close>

record fpu_cpu =
  f_x :: "nat \<Rightarrow> u64"
  f_q :: "nat \<Rightarrow> u128"
  f_fpcr :: u32
  f_fpsr :: u32
  f_qmem :: "u64 \<Rightarrow> u128"
  f_wmem :: "u64 \<Rightarrow> u32"

datatype fpu_instr =
    StpQ nat nat nat u64
  | LdpQ nat nat nat u64
  | StrW nat nat u64
  | LdrW nat nat u64
  | MrsFpcr nat
  | MrsFpsr nat
  | MsrFpcr nat
  | MsrFpsr nat

primrec fpu_step :: "fpu_instr \<Rightarrow> fpu_cpu \<Rightarrow> fpu_cpu" where
  "fpu_step (StpQ a b n i) s =
     s\<lparr>f_qmem := (f_qmem s)(f_x s n + i := f_q s a, f_x s n + i + 16 := f_q s b)\<rparr>"
| "fpu_step (LdpQ a b n i) s =
     s\<lparr>f_q := (f_q s)(a := f_qmem s (f_x s n + i), b := f_qmem s (f_x s n + i + 16))\<rparr>"
| "fpu_step (StrW t n i) s = s\<lparr>f_wmem := (f_wmem s)(f_x s n + i := ucast (f_x s t))\<rparr>"
| "fpu_step (LdrW t n i) s = s\<lparr>f_x := (f_x s)(t := ucast (f_wmem s (f_x s n + i)))\<rparr>"
| "fpu_step (MrsFpcr t) s = s\<lparr>f_x := (f_x s)(t := ucast (f_fpcr s))\<rparr>"
| "fpu_step (MrsFpsr t) s = s\<lparr>f_x := (f_x s)(t := ucast (f_fpsr s))\<rparr>"
| "fpu_step (MsrFpcr t) s = s\<lparr>f_fpcr := ucast (f_x s t)\<rparr>"
| "fpu_step (MsrFpsr t) s = s\<lparr>f_fpsr := ucast (f_x s t)\<rparr>"

definition fpu_exec :: "fpu_instr list \<Rightarrow> fpu_cpu \<Rightarrow> fpu_cpu" where
  "fpu_exec is s = fold fpu_step is s"

section \<open>The two blocks\<close>

text \<open>\<open>r\<close> is the register chosen for \<open>{ctx}\<close>.\<close>

definition save_vectors :: "nat \<Rightarrow> fpu_instr list" where
  "save_vectors r =
    [StpQ 0 1 r 272, StpQ 2 3 r 304, StpQ 4 5 r 336, StpQ 6 7 r 368, StpQ 8 9 r 400, StpQ 10 11 r 432,
     StpQ 12 13 r 464, StpQ 14 15 r 496, StpQ 16 17 r 528, StpQ 18 19 r 560, StpQ 20 21 r 592,
     StpQ 22 23 r 624, StpQ 24 25 r 656, StpQ 26 27 r 688, StpQ 28 29 r 720, StpQ 30 31 r 752]"

definition save_fpu :: "nat \<Rightarrow> fpu_cpu \<Rightarrow> fpu_cpu" where
  "save_fpu r = fpu_exec (save_vectors r @ [MrsFpcr 0, StrW 0 r 784, MrsFpsr 0, StrW 0 r 788])"

definition load_vectors :: "nat \<Rightarrow> fpu_instr list" where
  "load_vectors r =
    [LdpQ 0 1 r 272, LdpQ 2 3 r 304, LdpQ 4 5 r 336, LdpQ 6 7 r 368, LdpQ 8 9 r 400, LdpQ 10 11 r 432,
     LdpQ 12 13 r 464, LdpQ 14 15 r 496, LdpQ 16 17 r 528, LdpQ 18 19 r 560, LdpQ 20 21 r 592,
     LdpQ 22 23 r 624, LdpQ 24 25 r 656, LdpQ 26 27 r 688, LdpQ 28 29 r 720, LdpQ 30 31 r 752]"

definition restore_fpu :: "nat \<Rightarrow> fpu_cpu \<Rightarrow> fpu_cpu" where
  "restore_fpu r = fpu_exec ([LdrW 0 r 784, MsrFpcr 0, LdrW 0 r 788, MsrFpsr 0] @ load_vectors r)"

section \<open>Lemmas\<close>

lemma fpu_exec_append: "fpu_exec (is @ js) s = fpu_exec js (fpu_exec is s)"
  by (simp add: fpu_exec_def)

text \<open>The vector registers lie one after the other from offset 272.\<close>

definition q_addr :: "u64 \<Rightarrow> nat \<Rightarrow> u64" where
  "q_addr p k = p + 272 + 16 * of_nat k"

lemma save_vectors_regular: "save_vectors r = map (\<lambda>j. StpQ (2 * j) (2 * j + 1) r (272 + 32 * of_nat j)) [0..<16]"
  by (simp add: save_vectors_def upt_rec)

lemma load_vectors_regular: "load_vectors r = map (\<lambda>j. LdpQ (2 * j) (2 * j + 1) r (272 + 32 * of_nat j)) [0..<16]"
  by (simp add: load_vectors_def upt_rec)

lemma q_addr_pair:
  "p + (272 + 32 * of_nat j) = q_addr p (2 * j)" "q_addr p (2 * j) + 16 = q_addr p (Suc (2 * j))"
  by (simp_all add: q_addr_def algebra_simps)

lemma q_addr_inj: "i < 32 \<Longrightarrow> j < 32 \<Longrightarrow> q_addr p i = q_addr p j \<longleftrightarrow> i = j"
proof -
  assume ij: "i < 32" "j < 32"
  have u: "unat (of_nat (16 * k) :: u64) = 16 * k" if "k < 32" for k
    using that by (simp only: unat_of_nat) simp
  have "q_addr p i = q_addr p j \<longleftrightarrow> (of_nat (16 * i) :: u64) = of_nat (16 * j)"
    by (simp add: q_addr_def)
  also have "\<dots> \<longleftrightarrow> i = j" using u [OF ij(1)] u [OF ij(2)] by (metis mult_left_cancel zero_neq_numeral)
  finally show ?thesis .
qed

lemma saved_vectors:
  assumes "m \<le> 16"
    and s': "s' = fpu_exec (map (\<lambda>j. StpQ (2 * j) (2 * j + 1) r (272 + 32 * of_nat j)) [0..<m]) s"
  shows "s' = s\<lparr>f_qmem := f_qmem s'\<rparr> \<and> (\<forall>k < 2 * m. f_qmem s' (q_addr (f_x s r) k) = f_q s k) \<and>
    (\<forall>a. a \<notin> q_addr (f_x s r) ` {..<2 * m} \<longrightarrow> f_qmem s' a = f_qmem s a)"
  using assms
proof (induction m arbitrary: s')
  case (Suc m)
  let ?p = "f_x s r"
  define u where "u = fpu_exec (map (\<lambda>j. StpQ (2 * j) (2 * j + 1) r (272 + 32 * of_nat j)) [0..<m]) s"
  from Suc.IH [OF _ u_def] Suc.prems(1) have u: "u = s\<lparr>f_qmem := f_qmem u\<rparr>"
    "\<And>k. k < 2 * m \<Longrightarrow> f_qmem u (q_addr ?p k) = f_q s k"
    "\<And>a. a \<notin> q_addr ?p ` {..<2 * m} \<Longrightarrow> f_qmem u a = f_qmem s a" by auto
  have "f_x u = f_x s" "f_q u = f_q s" by (subst u(1), simp)+
  then have s': "s' = u\<lparr>f_qmem := (f_qmem u)(q_addr ?p (2 * m) := f_q s (2 * m), q_addr ?p (2 * m + 1) := f_q s (2 * m + 1))\<rparr>"
    unfolding Suc.prems(2) upt_Suc_append [OF le0] map_append fpu_exec_append u_def [symmetric]
    by (simp add: fpu_exec_def q_addr_pair)
  have "f_qmem s' (q_addr ?p k) = f_q s k" if "k < 2 * Suc m" for k
    using that u(2) [of k] q_addr_inj [of k "2 * m" ?p] q_addr_inj [of k "2 * m + 1" ?p] Suc.prems(1)
    by (auto simp: s' less_Suc_eq)
  moreover have "f_qmem s' a = f_qmem s a" if "a \<notin> q_addr ?p ` {..<2 * Suc m}" for a
    using that u(3) [of a] by (auto simp: s' lessThan_Suc)
  moreover obtain qm where "u = s\<lparr>f_qmem := qm\<rparr>" using u(1) by blast
  then have "s' = s\<lparr>f_qmem := f_qmem s'\<rparr>" by (simp add: s')
  ultimately show ?case by blast
qed (simp add: fpu_exec_def)

lemma loaded_vectors:
  assumes "s' = fpu_exec (map (\<lambda>j. LdpQ (2 * j) (2 * j + 1) r (272 + 32 * of_nat j)) [0..<m]) s"
  shows "s' = s\<lparr>f_q := (\<lambda>k. if k < 2 * m then f_qmem s (q_addr (f_x s r) k) else f_q s k)\<rparr>"
  using assms
proof (induction m arbitrary: s')
  case (Suc m)
  define u where "u = fpu_exec (map (\<lambda>j. LdpQ (2 * j) (2 * j + 1) r (272 + 32 * of_nat j)) [0..<m]) s"
  note u = Suc.IH [OF u_def]
  have "s' = u\<lparr>f_q := (f_q u)(2 * m := f_qmem s (q_addr (f_x s r) (2 * m)),
      2 * m + 1 := f_qmem s (q_addr (f_x s r) (2 * m + 1)))\<rparr>"
    unfolding Suc.prems upt_Suc_append [OF le0] map_append fpu_exec_append u_def [symmetric]
    by (simp add: fpu_exec_def q_addr_pair u)
  then show ?case by (auto simp: u fun_eq_iff less_Suc_eq intro!: fpu_cpu.equality)
qed (simp add: fpu_exec_def)

section \<open>Properties\<close>

text \<open>
  C40. Saving and restoring the floating point state.  If the compiler puts the operand in another
  register than \<open>x0\<close>, restoring after saving brings back all 32 vector registers and both control
  words, whatever ran in between, as long as the saved cells are kept; saving changes no cell outside
  the context's floating point area.  The late output allows \<open>x0\<close> itself: then the control words are
  stored relative to FPCR and FPSR instead of the context, and the context keeps its old ones.
\<close>

theorem fpu_save_restore:
  assumes mem: "\<forall>k < 32. f_qmem s1 (q_addr p k) = f_qmem (save_fpu r s) (q_addr p k)"
    "f_wmem s1 (p + 784) = f_wmem (save_fpu r s) (p + 784)" "f_wmem s1 (p + 788) = f_wmem (save_fpu r s) (p + 788)"
    and p: "f_x s r = p" "f_x s1 r' = p"
  shows "(r \<noteq> 0 \<and> r' \<noteq> 0 \<longrightarrow> (\<forall>k < 32. f_q (restore_fpu r' s1) k = f_q s k) \<and>
      f_fpcr (restore_fpu r' s1) = f_fpcr s \<and> f_fpsr (restore_fpu r' s1) = f_fpsr s) \<and>
    (r \<noteq> 0 \<longrightarrow> (\<forall>a. a \<notin> q_addr p ` {..<32} \<longrightarrow> f_qmem (save_fpu r s) a = f_qmem s a) \<and>
      (\<forall>a. a \<noteq> p + 784 \<and> a \<noteq> p + 788 \<longrightarrow> f_wmem (save_fpu r s) a = f_wmem s a)) \<and>
    (r = 0 \<longrightarrow> f_wmem (save_fpu r s) =
      (f_wmem s)(ucast (f_fpcr s) + 784 := f_fpcr s, ucast (f_fpsr s) + 788 := f_fpsr s))"
proof -
  define v where "v = fpu_exec (save_vectors r) s"
  have v: "v = s\<lparr>f_qmem := f_qmem v\<rparr>" "\<forall>k < 32. f_qmem v (q_addr p k) = f_q s k"
    "\<forall>a. a \<notin> q_addr p ` {..<32} \<longrightarrow> f_qmem v a = f_qmem s a"
    using saved_vectors [OF order.refl v_def [unfolded save_vectors_regular]] p(1) by simp_all
  have fv: "f_x v = f_x s" "f_fpcr v = f_fpcr s" "f_fpsr v = f_fpsr s" "f_wmem v = f_wmem s"
    by (subst v(1), simp)+
  have down: "ucast (ucast w :: u64) = w" for w :: u32 by (rule bit_word_eqI) (auto simp: bit_simps)
  have save: "save_fpu r s = fpu_exec [MrsFpcr 0, StrW 0 r 784, MrsFpsr 0, StrW 0 r 788] v"
    by (simp add: save_fpu_def fpu_exec_append v_def)
  have sq: "f_qmem (save_fpu r s) = f_qmem v" by (simp add: save fpu_exec_def)
  have sw: "f_wmem (save_fpu r s) = (if r = 0
      then (f_wmem s)(ucast (f_fpcr s) + 784 := f_fpcr s, ucast (f_fpsr s) + 788 := f_fpsr s)
      else (f_wmem s)(p + 784 := f_fpcr s, p + 788 := f_fpsr s))"
    by (simp add: save fpu_exec_def fv p down)
  have restore: "f_q (restore_fpu r' s1) k = f_q s k \<and> f_fpcr (restore_fpu r' s1) = f_fpcr s \<and>
      f_fpsr (restore_fpu r' s1) = f_fpsr s" if "r \<noteq> 0" "r' \<noteq> 0" "k < 32" for k
  proof -
    define u where "u = fpu_exec [LdrW 0 r' 784, MsrFpcr 0, LdrW 0 r' 788, MsrFpsr 0] s1"
    have u: "f_x u r' = p" "f_qmem u = f_qmem s1" "f_fpcr u = f_wmem s1 (p + 784)" "f_fpsr u = f_wmem s1 (p + 788)"
      using that p(2) by (simp_all add: u_def fpu_exec_def down)
    have "restore_fpu r' s1 = u\<lparr>f_q := (\<lambda>k. if k < 32 then f_qmem u (q_addr (f_x u r') k) else f_q u k)\<rparr>"
      using loaded_vectors [of "restore_fpu r' s1" r' 16 u]
      by (simp add: restore_fpu_def fpu_exec_append u_def load_vectors_regular del: append.simps)
    then show ?thesis using that u mem sw sq v(2) by simp
  qed
  show ?thesis using restore sw sq v(3) by (auto intro: restore [of 0, THEN conjunct2, THEN conjunct1]
      restore [of 0, THEN conjunct2, THEN conjunct2])
qed

definition example_fpu :: fpu_cpu where
  "example_fpu = \<lparr>f_x = (\<lambda>_. 0x9000), f_q = (\<lambda>k. of_nat k), f_fpcr = 0x1000000, f_fpsr = 3,
     f_qmem = (\<lambda>_. 0), f_wmem = (\<lambda>_. 0)\<rparr>"

theorem fpu_save_restore_witness:
  "f_q (restore_fpu 1 ((save_fpu 1 example_fpu)\<lparr>f_q := (\<lambda>_. 0)\<rparr>)) 31 = 31 \<and>
   f_wmem (save_fpu 0 example_fpu) 0x9310 = 0"
proof -
  have x: "f_x (save_fpu 1 example_fpu) 1 = 0x9000"
    by (simp add: save_fpu_def save_vectors_def fpu_exec_def example_fpu_def)
  have "f_q (restore_fpu 1 ((save_fpu 1 example_fpu)\<lparr>f_q := (\<lambda>_. 0)\<rparr>)) 31 = f_q example_fpu 31"
    using fpu_save_restore [of "(save_fpu 1 example_fpu)\<lparr>f_q := (\<lambda>_. 0)\<rparr>" "0x9000" 1 example_fpu 1] x
    by (simp add: example_fpu_def)
  moreover have "f_wmem (save_fpu 0 example_fpu) = (f_wmem example_fpu)(0x1000310 := 0x1000000, 0x317 := 3)"
    using fpu_save_restore [of "(save_fpu 0 example_fpu)\<lparr>f_x := (\<lambda>_. 0x9000)\<rparr>" "0x9000" 0 example_fpu 1]
    by (simp add: example_fpu_def)
  ultimately show ?thesis by (simp add: example_fpu_def)
qed

end
