(* ===== verification/Platform_Timer.thy ===== *)
theory Platform_Timer
  imports Kernel
begin

text \<open>
  The hosted timer of \<open>platform_timer.rs\<close>: a signal handler that sets a flag, and the checkpoint
  that polls it from normal code and yields.
\<close>

record preemption =
  PREEMPTION_PENDING :: bool
  PREEMPTION_COUNT :: u64

definition initial_preemption :: preemption where
  "initial_preemption = \<lparr>PREEMPTION_PENDING = False, PREEMPTION_COUNT = 0\<rparr>"

text \<open>\<open>fetch_add\<close> wraps.\<close>

definition signal_safe_handler :: "preemption \<Rightarrow> preemption" where
  "signal_safe_handler t = t\<lparr>PREEMPTION_PENDING := True, PREEMPTION_COUNT := PREEMPTION_COUNT t + 1\<rparr>"

definition is_preemption_pending :: "preemption \<Rightarrow> bool" where
  "is_preemption_pending t = PREEMPTION_PENDING t"

definition clear_preemption_pending :: "preemption \<Rightarrow> preemption" where
  "clear_preemption_pending t = t\<lparr>PREEMPTION_PENDING := False\<rparr>"

definition get_preemption_count :: "preemption \<Rightarrow> u64" where
  "get_preemption_count t = PREEMPTION_COUNT t"

datatype target_os = Linux | Bsd | Other_os

definition init_preemption_timer :: "target_os \<Rightarrow> u64 \<Rightarrow> string + unit" where
  "init_preemption_timer os interval_ms =
     (case os of
        Linux \<Rightarrow> Inl ''Hardware timer preemption not implemented - use cooperative yield points''
      | Bsd \<Rightarrow> Inl ''Hardware timer preemption not implemented for BSD - use cooperative yield points''
      | Other_os \<Rightarrow> Inl ''Hardware timer preemption not supported on this platform'')"

text \<open>The checkpoint yields through \<open>crate::yield_now\<close>, which is \<open>yield_current\<close>.\<close>

definition preemption_checkpoint ::
  "scheduler_type option \<Rightarrow> ('w \<Rightarrow> (flow \<times> 'w) res) \<Rightarrow> preemption \<times> 'w \<Rightarrow> (flow \<times> preemption \<times> 'w) res" where
  "preemption_checkpoint registered yield = (\<lambda>(t, w).
     if is_preemption_pending t then
       (let t1 = clear_preemption_pending t
        in rbind (yield_current registered yield w) (\<lambda>(f, w1). Inr (f, t1, w1)))
     else Inr (Returned, t, w))"

section \<open>Properties\<close>

lemma signals: "(signal_safe_handler ^^ n) t =
    t\<lparr>PREEMPTION_PENDING := PREEMPTION_PENDING t \<or> 0 < n, PREEMPTION_COUNT := PREEMPTION_COUNT t + of_nat n\<rparr>"
  by (induction n) (simp_all add: signal_safe_handler_def add_ac)

text \<open>
  C1. Signals between two checkpoints count once: after any positive number of signals the next
  checkpoint yields exactly once, and a checkpoint after it with no signal in between does nothing.
  The statistics count every signal, modulo \<open>2 ^ 64\<close>.
\<close>

theorem checkpoint_yields_once:
  assumes "0 < n" "yield w = Inr (f, w1)"
  shows "\<exists>t'. preemption_checkpoint (Some RoundRobin) yield ((signal_safe_handler ^^ n) t, w) = Inr (f, t', w1) \<and>
    preemption_checkpoint (Some RoundRobin) yield (t', w1) = Inr (Returned, t', w1) \<and>
    get_preemption_count t' = get_preemption_count t + of_nat n"
  using assms unfolding signals
  by (auto simp: preemption_checkpoint_def is_preemption_pending_def clear_preemption_pending_def
      yield_current_def get_global_kernel_def get_preemption_count_def)

theorem checkpoint_yields_once_witness:
  "\<exists>t'. preemption_checkpoint (Some RoundRobin) (\<lambda>w :: nat. Inr (Switched, w + 1))
     ((signal_safe_handler ^^ 3) initial_preemption, 0) = Inr (Switched, t', 1) \<and> get_preemption_count t' = 3"
  using checkpoint_yields_once [of 3 "\<lambda>w :: nat. Inr (Switched, w + 1)" 0 Switched 1 initial_preemption]
  by (auto simp: initial_preemption_def get_preemption_count_def)

end
