(* ===== verification/Queue_Interleaving.thy ===== *)
theory Queue_Interleaving
  imports Lock_Free_Queue
begin

text \<open>
  \<open>LockFreeQueue::push\<close> one atomic access at a time.  \<open>Kernel::spawn\<close> enqueues with interrupts
  enabled, so the timer handler, which enqueues the running thread and picks the next one, may run
  between any two of these accesses.  Uninterrupted, the steps are the \<open>push\<close> of
  \<open>Lock_Free_Queue\<close>; interrupted at the wrong place they use a node the handler has freed.
\<close>

section \<open>Steps\<close>

datatype 'a push_pc =
    Push_alloc 'a
  | Push_load_tail ptr
  | Push_load_next ptr ptr
  | Push_check ptr ptr ptr
  | Push_link ptr ptr
  | Push_help ptr ptr ptr
  | Push_load_last ptr
  | Push_swing ptr ptr
  | Push_done

fun push_step :: "'a push_pc \<Rightarrow> 'a lock_free_queue \<Rightarrow> ('a push_pc \<times> 'a lock_free_queue) res" where
  "push_step (Push_alloc x) q =
     Inr (Push_load_tail (q_brk q),
       q\<lparr>q_nodes := (q_nodes q)(q_brk q \<mapsto> \<lparr>n_thread = Some x, n_next = 0\<rparr>), q_brk := Suc (q_brk q)\<rparr>)"
| "push_step (Push_load_tail n) q = Inr (Push_load_next n (q_tail q), q)"
| "push_step (Push_load_next n tail) q =
     rbind (deref (q_nodes q) tail) (\<lambda>tn. Inr (Push_check n tail (n_next tn), q))"
| "push_step (Push_check n tail next) q =
     (if tail = q_tail q then
        (if next = 0 then Inr (Push_link n tail, q) else Inr (Push_help n tail next, q))
      else Inr (Push_load_tail n, q))"
| "push_step (Push_link n tail) q =
     rbind (deref (q_nodes q) tail) (\<lambda>tn.
       let (ok, v, w) = compare_exchange_weak (n_next tn) 0 n (q_weak q);
           q' = q\<lparr>q_nodes := (q_nodes q)(tail \<mapsto> tn\<lparr>n_next := v\<rparr>), q_weak := w\<rparr>
       in Inr (if ok then Push_load_last n else Push_load_tail n, q'))"
| "push_step (Push_help n tail next) q =
     (let (_, v, w) = compare_exchange_weak (q_tail q) tail next (q_weak q)
      in Inr (Push_load_tail n, q\<lparr>q_tail := v, q_weak := w\<rparr>))"
| "push_step (Push_load_last n) q = Inr (Push_swing n (q_tail q), q)"
| "push_step (Push_swing n t) q =
     (let (_, v, w) = compare_exchange_weak (q_tail q) t n (q_weak q)
      in Inr (Push_done, q\<lparr>q_tail := v, q_weak := w\<rparr>))"
| "push_step Push_done q = Inr (Push_done, q)"

text \<open>An interrupt in between: the handler puts the current thread back and takes the next one.\<close>

definition handler_rotate :: "'a \<Rightarrow> 'a lock_free_queue \<Rightarrow> ('a option \<times> 'a lock_free_queue) res" where
  "handler_rotate current q = rbind (push current q) try_pop"

inductive push_run :: "'a push_pc \<Rightarrow> 'a lock_free_queue \<Rightarrow> 'a push_pc \<Rightarrow> 'a lock_free_queue \<Rightarrow> bool" where
  here: "push_run pc q pc q"
| steps: "push_step pc q = Inr (pc1, q1) \<Longrightarrow> push_run pc1 q1 pc2 q2 \<Longrightarrow> push_run pc q pc2 q2"

lemma push_run_trans: "push_run a q b q1 \<Longrightarrow> push_run b q1 c q2 \<Longrightarrow> push_run a q c q2"
  by (induction rule: push_run.induct) (auto intro: push_run.steps)

lemma push_run2: "push_step a q = Inr (b, q1) \<Longrightarrow> push_step b q1 = Inr (c, q2) \<Longrightarrow> push_run a q c q2"
  by (rule push_run.steps, assumption, rule push_run.steps, assumption, rule push_run.here)

section \<open>Uninterrupted\<close>

lemma push_loop_steps:
  "push_loop fuel n q = Inr q' \<Longrightarrow> push_run (Push_load_tail n) q (Push_load_last n) q'"
proof (induction fuel arbitrary: q)
  case (Suc fuel)
  then obtain tn where tn: "deref (q_nodes q) (q_tail q) = Inr tn"
    by (auto simp: rbind_eq_Inr Let_def)
  have pre: "push_run (Push_load_tail n) q (Push_check n (q_tail q) (n_next tn)) q"
    using tn by (intro push_run2 [where b = "Push_load_next n (q_tail q)" and ?q1.0 = q]) simp_all
  show ?case
  proof (cases "n_next tn = 0")
    case True
    obtain ok v w where cas: "compare_exchange_weak (n_next tn) 0 n (q_weak q) = (ok, v, w)"
      by (metis surj_pair)
    let ?q = "q\<lparr>q_nodes := (q_nodes q)(q_tail q \<mapsto> tn\<lparr>n_next := v\<rparr>), q_weak := w\<rparr>"
    have "push_run (Push_check n (q_tail q) (n_next tn)) q (if ok then Push_load_last n else Push_load_tail n) ?q"
      using tn True cas by (intro push_run2 [where b = "Push_link n (q_tail q)" and ?q1.0 = q]) simp_all
    moreover have "push_run (if ok then Push_load_last n else Push_load_tail n) ?q (Push_load_last n) q'"
      using Suc tn True cas by (auto simp: Let_def intro: push_run.here)
    ultimately show ?thesis using pre by (blast intro: push_run_trans)
  next
    case False
    obtain ok v w where cas: "compare_exchange_weak (q_tail q) (q_tail q) (n_next tn) (q_weak q) = (ok, v, w)"
      by (metis surj_pair)
    have "push_run (Push_check n (q_tail q) (n_next tn)) q (Push_load_tail n) (q\<lparr>q_tail := v, q_weak := w\<rparr>)"
      using tn False cas by (intro push_run2 [where b = "Push_help n (q_tail q) (n_next tn)" and ?q1.0 = q]) simp_all
    moreover have "push_run (Push_load_tail n) (q\<lparr>q_tail := v, q_weak := w\<rparr>) (Push_load_last n) q'"
      using Suc tn False cas by (auto simp: Let_def)
    ultimately show ?thesis using pre by (blast intro: push_run_trans)
  qed
qed simp

section \<open>Interrupted\<close>

text \<open>
  The operations neither see nor touch a node that is not linked: they do the same, and return the
  same queue, beside it.
\<close>

definition beside :: "ptr \<Rightarrow> 'a queue_node \<Rightarrow> 'a lock_free_queue \<Rightarrow> 'a lock_free_queue" where
  "beside m n q = q\<lparr>q_nodes := (q_nodes q)(m \<mapsto> n)\<rparr>"

lemma beside_simps [simp]:
  "q_head (beside m n q) = q_head q" "q_tail (beside m n q) = q_tail q"
  "q_brk (beside m n q) = q_brk q" "q_weak (beside m n q) = q_weak q"
  "q_nodes (beside m n q) = (q_nodes q)(m \<mapsto> n)"
  by (simp_all add: beside_def)

lemma beside_update:
  "m \<noteq> a \<Longrightarrow> (beside m n q)\<lparr>q_nodes := ((q_nodes q)(m \<mapsto> n))(a := v)\<rparr> =
     beside m n (q\<lparr>q_nodes := (q_nodes q)(a := v)\<rparr>)"
  "m \<noteq> a \<Longrightarrow> m \<noteq> b \<Longrightarrow> (beside m n q)\<lparr>q_nodes := ((q_nodes q)(m \<mapsto> n))(a := v, b := u)\<rparr> =
     beside m n (q\<lparr>q_nodes := (q_nodes q)(a := v, b := u)\<rparr>)"
  "(beside m n q)\<lparr>q_tail := t\<rparr> = beside m n (q\<lparr>q_tail := t\<rparr>)"
  "(beside m n q)\<lparr>q_head := t\<rparr> = beside m n (q\<lparr>q_head := t\<rparr>)"
  "(beside m n q)\<lparr>q_weak := w\<rparr> = beside m n (q\<lparr>q_weak := w\<rparr>)"
  "(beside m n q)\<lparr>q_brk := b\<rparr> = beside m n (q\<lparr>q_brk := b\<rparr>)"
  by (simp_all add: beside_def fun_upd_twist)

lemma deref_beside:
  "deref h p = Inr r \<Longrightarrow> h m = None \<Longrightarrow> m \<noteq> p \<and> deref (h(m \<mapsto> n)) p = Inr r"
  by (auto simp: deref_def split: if_splits option.splits)

lemma push_loop_beside:
  "push_loop fuel a q = Inr q' \<Longrightarrow> q_nodes q m = None \<Longrightarrow>
     push_loop fuel a (beside m n q) = Inr (beside m n q') \<and> q_nodes q' m = None \<and> q_brk q' = q_brk q"
proof (induction fuel arbitrary: q)
  case (Suc fuel)
  then obtain tn where tn: "deref (q_nodes q) (q_tail q) = Inr tn"
    by (auto simp: rbind_eq_Inr Let_def)
  note t = deref_beside [OF tn Suc.prems(2), of n]
  obtain ok v w where cas: "compare_exchange_weak (n_next tn) 0 a (q_weak q) = (ok, v, w)"
    by (metis surj_pair)
  obtain ok' v' w' where cas': "compare_exchange_weak (q_tail q) (q_tail q) (n_next tn) (q_weak q) = (ok', v', w')"
    by (metis surj_pair)
  show ?case
  proof (cases "n_next tn = 0")
    case True
    let ?q = "q\<lparr>q_nodes := (q_nodes q)(q_tail q \<mapsto> tn\<lparr>n_next := v\<rparr>), q_weak := w\<rparr>"
    have "q_nodes ?q m = None" "q_brk ?q = q_brk q" using Suc.prems t by auto
    with Suc t tn cas True show ?thesis
      using Suc.IH [of ?q] by (auto simp: beside_update Let_def)
  next
    case False
    with Suc t tn cas' show ?thesis
      using Suc.IH [of "q\<lparr>q_tail := v', q_weak := w'\<rparr>"] by (auto simp: beside_update Let_def)
  qed
qed simp

lemma push_beside:
  assumes "push x q = Inr q'" "q_nodes q m = None" "m < q_brk q"
  shows "push x (beside m n q) = Inr (beside m n q') \<and> q_nodes q' m = None \<and> q_brk q' = Suc (q_brk q)"
proof -
  let ?q1 = "q\<lparr>q_nodes := (q_nodes q)(q_brk q \<mapsto> \<lparr>n_thread = Some x, n_next = 0\<rparr>), q_brk := Suc (q_brk q)\<rparr>"
  from assms(1) obtain q2 where q2: "push_loop (length (q_weak q) + 2) (q_brk q) ?q1 = Inr q2"
    by (auto simp: push_def Let_def rbind_eq_Inr simp del: push_loop.simps)
  have "q_nodes ?q1 m = None" using assms by simp
  note b = push_loop_beside [OF q2 this, of n]
  obtain ok v w where cas: "compare_exchange_weak (q_tail q2) (q_tail q2) (q_brk q) (q_weak q2) = (ok, v, w)"
    by (metis surj_pair)
  with assms q2 have "q' = q2\<lparr>q_tail := v, q_weak := w\<rparr>"
    by (simp add: push_def Let_def del: push_loop.simps)
  with assms(3) b cas show ?thesis
    by (simp add: push_def Let_def beside_update del: push_loop.simps)
qed

lemma try_pop_loop_beside:
  "try_pop_loop fuel q = Inr (r, q') \<Longrightarrow> q_nodes q m = None \<Longrightarrow>
     try_pop_loop fuel (beside m n q) = Inr (r, beside m n q') \<and> q_nodes q' m = None \<and> q_brk q' = q_brk q"
proof (induction fuel arbitrary: q)
  case (Suc fuel)
  then obtain hn where hn: "deref (q_nodes q) (q_head q) = Inr hn"
    by (auto simp: rbind_eq_Inr Let_def)
  note h = deref_beside [OF hn Suc.prems(2), of n]
  consider "q_head q = q_tail q" "n_next hn = 0" | "q_head q = q_tail q" "n_next hn \<noteq> 0"
    | "q_head q \<noteq> q_tail q" "n_next hn = 0" | "q_head q \<noteq> q_tail q" "n_next hn \<noteq> 0" by blast
  then show ?case
  proof cases
    case 1
    with Suc.prems hn h show ?thesis by (auto simp: Let_def)
  next
    case 2
    obtain ok v w where cas: "compare_exchange_weak (q_tail q) (q_tail q) (n_next hn) (q_weak q) = (ok, v, w)"
      by (metis surj_pair)
    with 2 Suc hn h show ?thesis
      using Suc.IH [of "q\<lparr>q_tail := v, q_weak := w\<rparr>"] by (auto simp: beside_update Let_def)
  next
    case 3
    with Suc hn h show ?thesis by (auto simp: Let_def)
  next
    case 4
    with Suc.prems hn obtain nn where nn: "deref (q_nodes q) (n_next hn) = Inr nn"
      by (auto simp: rbind_eq_Inr Let_def)
    note x = deref_beside [OF nn Suc.prems(2), of n]
    obtain ok v w where cas: "compare_exchange_weak (q_head q) (q_head q) (n_next hn) (q_weak q) = (ok, v, w)"
      by (metis surj_pair)
    let ?q1 = "q\<lparr>q_nodes := (q_nodes q)(n_next hn \<mapsto> nn\<lparr>n_thread := None\<rparr>), q_head := v, q_weak := w\<rparr>"
    let ?q2 = "case n_thread nn of None \<Rightarrow> ?q1
      | Some t \<Rightarrow> ?q1\<lparr>q_nodes := (q_nodes ?q1)(n_next hn \<mapsto> nn\<lparr>n_thread := Some t\<rparr>)\<rparr>"
    have q2: "q_nodes ?q2 m = None" "q_brk ?q2 = q_brk q" using Suc.prems x by (auto split: option.splits)
    show ?thesis
    proof (cases ok)
      case True
      with 4 Suc.prems hn h nn x cas show ?thesis by (auto simp: beside_def fun_upd_twist Let_def)
    next
      case False
      have "try_pop_loop (Suc fuel) q = try_pop_loop fuel ?q2"
        using 4 hn nn cas False by (simp add: Let_def)
      moreover have "try_pop_loop (Suc fuel) (beside m n q) = try_pop_loop fuel (beside m n ?q2)"
        using 4 hn nn h x cas False by (cases "n_thread nn") (simp add: Let_def beside_update, simp add: Let_def beside_def fun_upd_twist)
      ultimately show ?thesis using Suc q2 by simp
    qed
  qed
qed simp


lemma try_pop_beside:
  assumes "try_pop q = Inr (r, q')" "q_nodes q m = None"
  shows "try_pop (beside m n q) = Inr (r, beside m n q') \<and> q_nodes q' m = None \<and> q_brk q' = q_brk q"
  using try_pop_loop_beside [of "length (q_weak q) + 2" q r q' m n] assms
  by (simp add: try_pop_def del: try_pop_loop.simps)

lemma pending_beside:
  "rep_pending q d cs m x \<longleftrightarrow> (\<exists>q0. q = beside m \<lparr>n_thread = Some x, n_next = 0\<rparr> q0 \<and> queue_rep q0 d cs \<and>
     q_nodes q0 m = None \<and> m \<noteq> 0 \<and> m < q_brk q0)"
proof
  assume r: "rep_pending q d cs m x"
  let ?q0 = "q\<lparr>q_nodes := (q_nodes q)(m := None)\<rparr>"
  from r have "queue_rep ?q0 d cs"
    by (auto simp: rep_pending_def queue_rep_def rep_core_def lseg_upd_other)
  moreover from r have "q = beside m \<lparr>n_thread = Some x, n_next = 0\<rparr> ?q0"
    by (simp add: rep_pending_def beside_def fun_upd_idem)
  ultimately show "\<exists>q0. q = beside m \<lparr>n_thread = Some x, n_next = 0\<rparr> q0 \<and> queue_rep q0 d cs \<and>
     q_nodes q0 m = None \<and> m \<noteq> 0 \<and> m < q_brk q0"
    using r by (intro exI [of _ ?q0]) (simp add: rep_pending_def)
next
  assume "\<exists>q0. q = beside m \<lparr>n_thread = Some x, n_next = 0\<rparr> q0 \<and> queue_rep q0 d cs \<and>
     q_nodes q0 m = None \<and> m \<noteq> 0 \<and> m < q_brk q0"
  then obtain q0 where q0: "q = beside m \<lparr>n_thread = Some x, n_next = 0\<rparr> q0" "queue_rep q0 d cs"
    "q_nodes q0 m = None" "m \<noteq> 0" "m < q_brk q0" by blast
  then have "m \<notin> dom (q_nodes q0)" by auto
  with q0(2) have "m \<notin> set (d # map fst cs)" by (simp add: queue_rep_def)
  with q0 show "rep_pending q d cs m x"
    by (auto simp: rep_pending_def queue_rep_def rep_core_def lseg_upd_other)
qed

text \<open>
  One rotation beside a pending node: the oldest thread comes out, its node becomes the dummy, the
  old dummy is freed, and the current thread goes into a fresh node at the end.
\<close>

lemma handler_rotate_pending:
  assumes "rep_pending q d cs m x"
  shows "\<exists>c' q' d' cs'. handler_rotate c q = Inr (Some c', q') \<and> rep_pending q' d' cs' m x \<and>
    q_brk q' = Suc (q_brk q) \<and> c' # map snd cs' = map snd cs @ [c] \<and>
    d' # map fst cs' = map fst cs @ [q_brk q]"
proof -
  let ?n = "\<lparr>n_thread = Some x, n_next = 0\<rparr>"
  from assms obtain q0 where q0: "q = beside m ?n q0" "queue_rep q0 d cs" "q_nodes q0 m = None"
    "m \<noteq> 0" "m < q_brk q0" by (auto simp: pending_beside)
  obtain q1 where q1: "push c q0 = Inr q1" "queue_rep q1 d (cs @ [(q_brk q0, c)])"
    using push_rep [OF q0(2)] by blast
  note p = push_beside [OF q1(1) q0(3,5), of ?n]
  obtain a y cs' where s: "cs @ [(q_brk q0, c)] = (a, y) # cs'"
    by (metis Cons_eq_append_conv append_Cons list.exhaust prod.exhaust snoc_eq_iff_butlast)
  obtain q2 where q2: "try_pop q1 = Inr (Some y, q2)" "queue_rep q2 a cs'"
    using try_pop_rep_Cons [OF q1(2) [unfolded s]] by blast
  note t = try_pop_beside [OF q2(1), of m ?n]
  have "handler_rotate c q = Inr (Some y, beside m ?n q2)"
    using q0(1) p t by (simp add: handler_rotate_def)
  moreover have "rep_pending (beside m ?n q2) a cs' m x"
    unfolding pending_beside using q2 q0(4,5) p t by (intro exI [of _ q2]) simp
  moreover have "y # map snd cs' = map snd cs @ [c]" "a # map fst cs' = map fst cs @ [q_brk q0]"
    using arg_cong [OF s, of "map snd"] arg_cong [OF s, of "map fst"] by simp_all
  moreover have "q_brk (beside m ?n q2) = Suc (q_brk q)" using q0(1) p t by simp
  ultimately show ?thesis using q0(1) by auto
qed


text \<open>Timer interrupts one after the other: each handler runs on behalf of the thread it finds running.\<close>

primrec ticks :: "nat \<Rightarrow> 'a \<Rightarrow> 'a lock_free_queue \<Rightarrow> ('a \<times> 'a lock_free_queue) res" where
  "ticks 0 c q = Inr (c, q)"
| "ticks (Suc k) c q =
     rbind (handler_rotate c q) (\<lambda>(next, q').
       case next of Some c' \<Rightarrow> ticks k c' q' | None \<Rightarrow> Inr (c, q'))"

lemma ticks_pending:
  "rep_pending q d cs m x \<Longrightarrow>
   \<exists>c' q' d' cs'. ticks k c q = Inr (c', q') \<and> rep_pending q' d' cs' m x \<and>
     c' # map snd cs' = rotate k (c # map snd cs) \<and>
     d' # map fst cs' = drop k (d # map fst cs @ [q_brk q..<q_brk q + k])"
proof (induction k arbitrary: c q d cs)
  case (Suc k)
  obtain c1 q1 d1 cs1 where 1: "handler_rotate c q = Inr (Some c1, q1)" "rep_pending q1 d1 cs1 m x"
    "q_brk q1 = Suc (q_brk q)" "c1 # map snd cs1 = map snd cs @ [c]" "d1 # map fst cs1 = map fst cs @ [q_brk q]"
    using handler_rotate_pending [OF Suc.prems, of c] by blast
  obtain c' q' d' cs' where 2: "ticks k c1 q1 = Inr (c', q')" "rep_pending q' d' cs' m x"
    "c' # map snd cs' = rotate k (c1 # map snd cs1)"
    "d' # map fst cs' = drop k (d1 # map fst cs1 @ [q_brk q1..<q_brk q1 + k])"
    using Suc.IH [OF 1(2), of c1] by blast
  have "c' # map snd cs' = rotate (Suc k) (c # map snd cs)"
    using 2(3) 1(4) by (simp add: rotate_def funpow_swap1)
  moreover have "d' # map fst cs' = drop (Suc k) (d # map fst cs @ [q_brk q..<q_brk q + Suc k])"
  proof -
    have "[q_brk q..<q_brk q + Suc k] = q_brk q # [q_brk q1..<q_brk q1 + k]"
      using upt_conv_Cons [of "q_brk q" "q_brk q + Suc k"] 1(3) by (simp del: upt_Suc)
    then have "drop (Suc k) (d # map fst cs @ [q_brk q..<q_brk q + Suc k]) =
        drop k ((map fst cs @ [q_brk q]) @ [q_brk q1..<q_brk q1 + k])"
      by (simp only: drop_Suc_Cons append_assoc append_Cons append_Nil)
    with 2(4) show ?thesis by (simp only: 1(5) [symmetric] append_Cons)
  qed
  ultimately show ?case using 1(1) 2(1,2) by auto
qed auto


text \<open>With the node allocated, \<open>push\<close> completes from the start of its loop.\<close>

lemma pending_run:
  assumes "rep_pending q d cs m x"
  shows "\<exists>q'. push_run (Push_load_tail m) q Push_done q' \<and> queue_rep q' d (cs @ [(m, x)])"
proof -
  obtain q2 where q2: "push_loop (push_need q d cs) m q = Inr q2" "queue_rep q2 d (cs @ [(m, x)])"
    using push_loop_ok [OF assms order_refl] by blast
  obtain ok v w where cas: "compare_exchange_weak (q_tail q2) (q_tail q2) m (q_weak q2) = (ok, v, w)"
    by (metis surj_pair)
  then have "push_run (Push_load_last m) q2 Push_done (q2\<lparr>q_tail := v, q_weak := w\<rparr>)"
    by (intro push_run2 [where b = "Push_swing m (q_tail q2)" and ?q1.0 = q2]) simp_all
  with push_run_trans [OF push_loop_steps [OF q2(1)]] queue_rep_swing [OF q2(2) cas] show ?thesis by blast
qed

text \<open>
  The state in which an interrupted push is resumed: everyone who was waiting has had a turn, and the
  node that was the tail when it was interrupted is gone.
\<close>

lemma resumed_state:
  assumes "rep_pending q d cs m x"
  shows "\<exists>q3 d3 cs3. ticks (length cs + 1) me q = Inr (me, q3) \<and> rep_pending q3 d3 cs3 m x \<and>
    map snd cs3 = map snd cs \<and> q_nodes q3 (q_tail q) = None \<and> q_tail q3 \<noteq> q_tail q \<and> q_tail q \<noteq> 0"
proof -
  obtain c' q3 d3 cs3 where t: "ticks (length cs + 1) me q = Inr (c', q3)" "rep_pending q3 d3 cs3 m x"
    "c' # map snd cs3 = rotate (length cs + 1) (me # map snd cs)"
    "d3 # map fst cs3 = drop (length cs + 1) (d # map fst cs @ [q_brk q..<q_brk q + (length cs + 1)])"
    using ticks_pending [OF assms, of "length cs + 1" me] by blast
  have ids: "c' = me" "map snd cs3 = map snd cs"
    using t(3) rotate_id [of "length cs + 1" "me # map snd cs"] by simp_all
  have new: "set (d3 # map fst cs3) = {q_brk q..<q_brk q + (length cs + 1)}"
    using t(4) by (simp del: upt_Suc)
  have old: "q_tail q \<in> set (d # map fst cs)" "q_tail q < q_brk q" "q_tail q \<noteq> m"
    using assms tail_ok_in [of "q_tail q" "d # map fst cs"] by (auto simp: rep_pending_def rep_core_def)
  have "rep_core q d cs" using assms by (simp add: rep_pending_def)
  then have tail: "q_tail q \<noteq> 0" by (cases rule: tail_node) simp_all
  have "q_tail q \<notin> dom (q_nodes q3)" using t(2) new old by (auto simp: rep_pending_def)
  moreover have "q_tail q3 \<in> {q_brk q..<q_brk q + (length cs + 1)}"
    using t(2) tail_ok_in unfolding new [symmetric] rep_pending_def rep_core_def by blast
  ultimately show ?thesis using t(1,2) ids old(2) tail by (intro exI [of _ q3] exI [of _ d3] exI [of _ cs3]) auto
qed

section \<open>Properties\<close>

text \<open>
  C33. Without interruption the atomic steps of \<open>push\<close> always end, and end in the queue with the
  element appended: they are an implementation of the whole operation, whatever the weak
  compare-exchanges do.
\<close>

theorem push_steps_append:
  assumes "queue_inv q"
  shows "\<exists>q'. push_run (Push_alloc x) q Push_done q' \<and> push x q = Inr q' \<and> queue_inv q' \<and>
    queue_list q' = queue_list q @ [x]"
proof -
  obtain q' where q': "push x q = Inr q'" "queue_inv q'" "queue_list q' = queue_list q @ [x]"
    using lfq.no_fault [OF assms, of x] lfq.enqD [OF assms] by blast
  let ?q1 = "q\<lparr>q_nodes := (q_nodes q)(q_brk q \<mapsto> \<lparr>n_thread = Some x, n_next = 0\<rparr>), q_brk := Suc (q_brk q)\<rparr>"
  from q'(1) obtain q2 where q2: "push_loop (length (q_weak q) + 2) (q_brk q) ?q1 = Inr q2"
    by (auto simp: push_def Let_def rbind_eq_Inr simp del: push_loop.simps)
  obtain ok v w where cas: "compare_exchange_weak (q_tail q2) (q_tail q2) (q_brk q) (q_weak q2) = (ok, v, w)"
    by (metis surj_pair)
  have fin: "q' = q2\<lparr>q_tail := v, q_weak := w\<rparr>"
    using q'(1) q2 cas by (simp add: push_def Let_def del: push_loop.simps)
  have "push_run (Push_load_last (q_brk q)) q2 Push_done q'"
    using cas fin by (intro push_run2 [where b = "Push_swing (q_brk q) (q_tail q2)" and ?q1.0 = q2]) simp_all
  with push_loop_steps [OF q2] have "push_run (Push_load_tail (q_brk q)) ?q1 Push_done q'"
    by (rule push_run_trans)
  then have "push_run (Push_alloc x) q Push_done q'" by (rule push_run.steps [rotated]) simp
  with q' show ?thesis by blast
qed

theorem push_steps_append_witness:
  "\<exists>q'. push_run (Push_alloc (7 :: nat)) (new_queue [True, False]) Push_done q' \<and> queue_list q' = [7]"
proof -
  have q: "queue_inv (new_queue [True, False] :: nat lock_free_queue)" "queue_list (new_queue [True, False]) = ([] :: nat list)"
    using new_queue_rep [of "[True, False]"] queue_list_rep [OF new_queue_rep] by (auto simp: queue_inv_def)
  from push_steps_append [OF q(1), of 7] q(2) show ?thesis by auto
qed

text \<open>
  C34. An interrupt inside \<open>push\<close> makes it use freed memory, whatever the queue.  A thread \<open>me\<close>
  has allocated its node and loaded the tail pointer, or has just checked it, when the timer
  interrupts; the handlers put the running thread back and take the next one until \<open>me\<close> has its
  turn again, after everyone who was waiting.  By then the node it is about to dereference has been
  freed.
\<close>

theorem interrupted_push_uses_freed_node:
  assumes "queue_inv q"
  shows "\<exists>m q1 q3. push_step (Push_alloc x) q = Inr (Push_load_tail m, q1) \<and>
    push_step (Push_load_tail m) q1 = Inr (Push_load_next m (q_tail q1), q1) \<and>
    ticks (length (queue_list q) + 1) me q1 = Inr (me, q3) \<and>
    push_step (Push_load_next m (q_tail q1)) q3 = Inl UseAfterFree \<and>
    push_step (Push_link m (q_tail q1)) q3 = Inl UseAfterFree"
proof -
  obtain d cs where r: "queue_rep q d cs" "length (queue_list q) = length cs"
    using assms by (auto simp: queue_inv_rep)
  show ?thesis using resumed_state [OF alloc_pending [OF r(1), of x], of me] r(2)
    by (fastforce simp: deref_def)
qed

theorem interrupted_push_uses_freed_node_witness:
  "\<exists>m q1 q3. push_step (Push_alloc (CHR ''n'')) (new_queue [True, False]) = Inr (Push_load_tail m, q1) \<and>
    ticks 1 (CHR ''a'') q1 = Inr (CHR ''a'', q3) \<and> push_step (Push_load_next m (q_tail q1)) q3 = Inl UseAfterFree"
  using interrupted_push_uses_freed_node [OF lfq.ok_fresh, of "CHR ''n''" "[True, False]" "CHR ''a''"]
  by (auto simp: lfq.items_fresh)

text \<open>
  At the other points of the loop the interrupt is harmless.  Resumed before it loads the tail, or
  between loading the successor and checking that the tail is still the same, \<open>push\<close> starts over
  and completes, and the new thread is behind all those that were queued before.
\<close>

theorem interrupted_push_recovers:
  assumes "queue_inv q"
  shows "\<exists>m q1 q3 q4. push_step (Push_alloc x) q = Inr (Push_load_tail m, q1) \<and>
    ticks (length (queue_list q) + 1) me q1 = Inr (me, q3) \<and>
    push_run (Push_load_tail m) q3 Push_done q4 \<and>
    push_run (Push_check m (q_tail q1) next) q3 Push_done q4 \<and>
    queue_inv q4 \<and> queue_list q4 = queue_list q @ [x]"
proof -
  obtain d cs where r: "queue_rep q d cs" "queue_list q = map snd cs"
    using assms by (auto simp: queue_inv_rep)
  let ?m = "q_brk q"
  let ?q1 = "q\<lparr>q_nodes := (q_nodes q)(?m \<mapsto> \<lparr>n_thread = Some x, n_next = 0\<rparr>), q_brk := Suc ?m\<rparr>"
  obtain q3 d3 cs3 where t: "ticks (length cs + 1) me ?q1 = Inr (me, q3)" "rep_pending q3 d3 cs3 ?m x"
    "map snd cs3 = map snd cs" "q_tail q3 \<noteq> q_tail ?q1"
    using resumed_state [OF alloc_pending [OF r(1), of x], of me] by blast
  obtain q4 where q4: "push_run (Push_load_tail ?m) q3 Push_done q4" "queue_rep q4 d3 (cs3 @ [(?m, x)])"
    using pending_run [OF t(2)] by blast
  then have "push_run (Push_check ?m (q_tail ?q1) next) q3 Push_done q4"
    using t(4) by (intro push_run.steps [OF _ q4(1)]) simp
  moreover have "queue_inv q4" "queue_list q4 = queue_list q @ [x]"
    using q4(2) r(2) t(3) by (auto simp: queue_inv_def queue_list_rep)
  ultimately show ?thesis using t(1) q4(1) r(2) by (intro exI [of _ ?m] exI [of _ ?q1] exI [of _ q3] exI [of _ q4]) simp
qed

theorem interrupted_push_recovers_witness:
  "\<exists>q3 q4 m. push_run (Push_load_tail m) q3 Push_done q4 \<and> queue_list q4 = [CHR ''n'']"
  using interrupted_push_recovers [OF lfq.ok_fresh, of "CHR ''n''" "[True, False]" "CHR ''a''" 0]
  by (auto simp: lfq.items_fresh)

end
