(* ===== verification/Kernel_Safety.thy ===== *)
theory Kernel_Safety
  imports Kernel_Properties
begin

text \<open>
  Kernel calls do not go wrong: in every reachable state the state bytes of all threads decode, and
  every entry point of the kernel returns, with the two exceptions the code has (no memory for a
  control block, and dropping the last reference on bare metal).  And how many threads a kernel can
  ever start: the stacks come from a heap that never takes memory back.
\<close>

section \<open>Progress\<close>

context scheduler_contract
begin

lemma yield_returns:
  assumes "kernel_inv ready ok w" "control_ok w"
  shows "\<exists>f w'. yield_now ops now resume w = Inr (f, w')"
proof (cases "k_initialized w")
  case True
  show ?thesis
  proof (cases "current w")
    case None
    have "\<not> m_locked (k_current_thread (disable_interrupts w))" using kernel_invD(2) [OF assms(1)] by simp
    from lock_current [OF this] None True show ?thesis
      by (auto simp: yield_now_def current_def Let_def)
  next
    case (Some c)
    show ?thesis by (rule yield_run [OF assms(1) Some True, where now = now and resume = resume]) blast
  qed
qed (simp add: yield_now_def)

lemma start_returns:
  assumes "kernel_inv ready ok w"
  shows "\<exists>f w'. start_first_thread ops now w = Inr (f, w')"
proof (cases "k_initialized w")
  case True
  have "\<not> m_locked (k_current_thread (disable_interrupts w))" using kernel_invD(2) [OF assms(1)] by simp
  note lk = lock_current [OF this]
  show ?thesis
  proof (cases "current w")
    case None
    show ?thesis
    proof (cases "ready (k_scheduler w)")
      case Nil
      obtain s' where "so_pick_next ops 0 (k_scheduler w) (s_threads w) = Inr (None, s')"
        using pick_none [OF kernel_invD(1) [OF assms] Nil] by blast
      with lk None True show ?thesis by (auto simp: start_first_thread_def current_def Let_def)
    next
      case (Cons n rs)
      show ?thesis by (rule start_run [OF assms(1) None True Cons, where now = now]) blast
    qed
  qed (use lk True in \<open>auto simp: start_first_thread_def current_def Let_def\<close>)
qed (simp add: start_first_thread_def)

lemma finish_returns:
  assumes "kernel_inv ready ok w" "finish_and_yield ops False now resume w = Inl e"
  shows "e = Unimplemented \<and> ready (k_scheduler w) = [] \<and> (\<exists>c. current w = Some c \<and> arc_cnt (s_threads w) c = 1)"
proof (cases "k_initialized w")
  case True
  have "\<not> m_locked (k_current_thread (disable_interrupts w))" using kernel_invD(2) [OF assms(1)] by simp
  note lk = lock_current [OF this]
  show ?thesis
  proof (cases "current w")
    case None
    with lk True assms(2) show ?thesis by (auto simp: finish_and_yield_def current_def Let_def)
  next
    case (Some c)
    show ?thesis
    proof (cases "ready (k_scheduler w)")
      case Nil
      from finish_alone [OF assms(1) Some True this, of now resume] assms(2) Some Nil show ?thesis
        by (auto split: if_splits)
    next
      case (Cons n rs)
      obtain w' where "finish_and_yield ops False now resume w = Inr (Switched, w')"
        by (rule finish_run [OF assms(1) Some True Cons, where now = now and resume = resume and std_shim = False]) blast
      with assms(2) show ?thesis by simp
    qed
  qed
qed (use assms(2) in \<open>simp add: finish_and_yield_def\<close>)

lemma timer_returns:
  assumes "kernel_inv ready ok w" "control_ok w" "timer_irq (handle_irq_preemption ops now) w = Inl e"
  shows "e = Hang \<and> current w = None \<and> m_load (s_machine w) = 0"
proof (cases "current w")
  case None
  obtain st where st: "(if m_save (s_machine w) = 0 then Inr (s_threads w)
      else store_context (m_save (s_machine w)) (m_live (s_machine w)) (s_threads w)) = Inr st"
    "same_threads (s_threads w) st"
    by (rule irq_store [OF assms(2)]) blast
  have "mutex_try_lock (k_current_thread w) = Some (None, (k_current_thread w)\<lparr>m_locked := True\<rparr>)"
    using kernel_invD(2) [OF assms(1)] None by (simp add: mutex_try_lock_def current_def)
  then have "\<exists>w1. handle_irq_preemption ops now (w\<lparr>s_threads := st\<rparr>) = Inr w1 \<and>
      s_machine w1 = s_machine w \<and> s_threads w1 = st"
    by (cases "k_initialized w") (simp_all add: handle_irq_preemption_def)
  then obtain w1 where w1: "handle_irq_preemption ops now (w\<lparr>s_threads := st\<rparr>) = Inr w1"
    "s_machine w1 = s_machine w" "s_threads w1 = st" by blast
  have "arc_live st (m_load (s_machine w))" if "m_load (s_machine w) \<noteq> 0"
    using that assms(2) same_threads_live [OF st(2)] by (auto simp: control_ok_def)
  with assms(3) st(1) w1 None show ?thesis
    by (auto simp: timer_irq_def Let_def thread_context_run split: if_splits)
next
  case (Some c)
  obtain w' where "timer_irq (handle_irq_preemption ops now) w = Inr w'"
    by (rule timer_run [OF assms(1) Some control_ok_current [OF assms(2) Some] assms(2), where now = now]) blast
  with assms(3) show ?thesis by simp
qed

end

context kernel_system
begin

lemma spawn_returns:
  assumes "system_inv ready ok taken heap_ok w" "ah_room (s_threads w) \<noteq> 0"
  shows "\<exists>r w'. spawn_thread ops alloc cls entry start arg priority w = Inr (r, w')"
proof (cases "k_initialized w")
  case True
  have i: "kernel_inv ready ok w" "resources_ok taken heap_ok w" using assms(1) by (auto simp: system_inv_def)
  show ?thesis
  proof (cases "pool_allocate alloc (s_heap w) (k_stack_pool w) cls")
    case (fields r pool h)
    show ?thesis
    proof (cases r)
      case None
      with fields True show ?thesis by (simp add: spawn_thread_def)
    next
      case (Some stk)
      with fields have "pool_allocate alloc (s_heap w) (k_stack_pool w) cls = (Some stk, pool, h)" by simp
      then show ?thesis
        by (rule spawn_run [OF i True assms(2), of cls stk pool h entry start arg priority]) blast
    qed
  qed
qed (simp add: spawn_thread_def)

end

text \<open>The kernel calls of which a state is safe.\<close>

definition calls_safe ::
  "'s scheduler_ops \<Rightarrow> ('h \<Rightarrow> usize \<Rightarrow> usize \<Rightarrow> u64 \<times> 'h) \<Rightarrow> ('s \<Rightarrow> ptr list) \<Rightarrow> ('s, 'h) system \<Rightarrow> bool" where
  "calls_safe ops alloc ready w \<longleftrightarrow>
     (\<forall>now resume. \<exists>r. yield_now ops now resume w = Inr r) \<and>
     (\<forall>now. \<exists>r. start_first_thread ops now w = Inr r) \<and>
     (\<forall>now e. timer_irq (handle_irq_preemption ops now) w = Inl e \<longrightarrow>
        e = Hang \<and> current w = None \<and> m_load (s_machine w) = 0) \<and>
     (\<forall>now resume e. finish_and_yield ops False now resume w = Inl e \<longrightarrow>
        e = Unimplemented \<and> ready (k_scheduler w) = [] \<and>
        (\<exists>c. current w = Some c \<and> arc_cnt (s_threads w) c = 1)) \<and>
     (ah_room (s_threads w) \<noteq> 0 \<longrightarrow>
        (\<forall>trampoline empty_fn closure priority. \<exists>r. spawn ops alloc trampoline empty_fn closure priority w = Inr r) \<and>
        (\<forall>entry priority. \<exists>r. spawn_fn ops alloc entry priority w = Inr r))"

context kernel_system
begin

lemma calls_safe_inv:
  assumes "system_inv ready ok taken heap_ok w"
  shows "calls_safe ops alloc ready w"
proof -
  have i: "kernel_inv ready ok w" "control_ok w" using assms by (auto simp: system_inv_def)
  show ?thesis
    unfolding calls_safe_def spawn_def spawn_fn_def
    using yield_returns [OF i] start_returns [OF i(1)] timer_returns [OF i] finish_returns [OF i(1)]
      spawn_returns [OF assms] by blast
qed

end

section \<open>Stacks and the heap\<close>

text \<open>The stacks of all threads lie side by side in the memory handed out so far.\<close>

lemma stacks_fit_heap:
  assumes st: "store_ok (s_threads w)" and res: "resources_ok bump_taken bump_ok w"
  shows "4096 * (ah_next (s_threads w) - 1) \<le> unat HEAP_SIZE"
proof -
  let ?A = "{1..<ah_next (s_threads w)}"
  let ?s = "\<lambda>p. the (t_stack (arc_val (s_threads w) p))"
  have live: "arc_live (s_threads w) p" if "p \<in> ?A" for p using that st by (auto simp: store_ok_def)
  have apart: "\<forall>p \<in> ?A. \<forall>q \<in> ?A. p \<noteq> q \<longrightarrow> stack_region (?s p) \<inter> stack_region (?s q) = {}"
    using resources_isolated(3) [OF st res live live] by fastforce
  have wf: "stack_wf (bump_taken (s_heap w)) (?s p)" if "p \<in> ?A" for p
    using res that by (auto simp: resources_ok_def pool_inv_def pool_all_def thread_stacks_def)
  have big: "4096 \<le> card (stack_region (?s p))" if "p \<in> ?A" for p
    using wf [OF that] by (cases "st_size_class (?s p)") (auto simp: stack_wf_def stack_region_def region_def)
  have "4096 * card ?A = (\<Sum>p \<in> ?A. 4096)" by simp
  also have "\<dots> \<le> (\<Sum>p \<in> ?A. card (stack_region (?s p)))" by (rule sum_mono) (rule big)
  also have "\<dots> = card (\<Union>p \<in> ?A. stack_region (?s p))"
    using apart by (intro card_UN_disjoint [symmetric]) (auto simp: stack_region_def region_def)
  also have "\<dots> \<le> card (bump_taken (s_heap w))"
  proof (rule card_mono)
    show "finite (bump_taken (s_heap w))" by (simp add: bump_taken_def)
    show "(\<Union>p \<in> ?A. stack_region (?s p)) \<subseteq> bump_taken (s_heap w)"
      using wf unfolding stack_wf_def by blast
  qed
  also have "\<dots> \<le> unat HEAP_SIZE"
    using res by (simp add: bump_taken_def resources_ok_def bump_ok_def word_le_nat_alt)
  finally show ?thesis by simp
qed

section \<open>Properties\<close>



text \<open>
  C13. Only so many threads, ever.  A kernel on the example heap of 16 MiB starts at most 4096 threads
  in all its life, however many of them have finished in the meantime: each successful spawn takes a
  stack of at least 4 KiB, and no step gives one back.  The thread identifiers are therefore
  \<open>1 \<dots> 4096\<close>, and the counter never wraps around.
\<close>

theorem threads_ever_bounded:
  assumes "kernel_run fcfs_ops (bump_alloc []) (kernel_new (fcfs_new wk) (arc_empty room ws) h m) es w"
    "bump_ok h" "boot_machine m" "Suc room < 2 ^ 64"
  shows "sum_list (map spawned es) \<le> 4096 \<and> k_next_thread_id w = of_nat (Suc (sum_list (map spawned es)))"
proof -
  have i: "system_inv fcfs_ready fcfs_ok bump_taken bump_ok w"
    and n: "ah_next (s_threads w) = Suc (sum_list (map spawned es))"
    using fcfs_kernel.kernel_run_inv [OF assms(1) fcfs_kernel.kernel_new_inv [OF fcfs_ok_new assms(2-4)]]
    by (simp_all add: kernel_new_def arc_empty_def)
  have r: "store_ok (s_threads w)" "resources_ok bump_taken bump_ok w"
    using i by (auto simp: system_inv_def kernel_inv_def)
  have "4096 * sum_list (map spawned es) \<le> unat HEAP_SIZE" using stacks_fit_heap [OF r] n by simp
  then show ?thesis using r(2) n by (simp add: HEAP_SIZE_def resources_ok_def)
qed


theorem threads_ever_bounded_witness:
  "\<exists>(w :: (fcfs, bump_heap) system). kernel_run fcfs_ops (bump_alloc [])
       (kernel_new (fcfs_new []) (arc_empty 5 []) boot_heap reset_machine)
       [Init True, Spawn (Inr 1), Spawn (Inr 2), Start] w \<and> k_next_thread_id w = 3"
proof (rule fcfs_boot)
  fix w c d
  assume r: "kernel_run fcfs_ops (bump_alloc [])
      (kernel_new (fcfs_new []) (arc_empty 5 []) boot_heap reset_machine)
      [Init True, Spawn (Inr 1), Spawn (Inr 2), Start] w"
  have "k_next_thread_id w = of_nat (Suc (sum_list (map spawned [Init True, Spawn (Inr 1), Spawn (Inr 2), Start])))"
    using threads_ever_bounded [OF r boot_heap_ok reset_machine_boot] by simp
  with r show ?thesis by (auto simp: spawned_def)
qed

end
