(* ===== verification/Cpu_Interface.thy ===== *)
theory Cpu_Interface
  imports Kernel
begin

text \<open>
  The processor behind the trait \<open>Arch\<close> of \<open>arch/mod.rs\<close>: the trait as a record of operations, its three
  implementations, what the kernel relies on as an interface, and the state in which the
  kernel's calls leave the interrupt mask.  Also the two ways to stop the processor, and the
  entry points of the crate root.
\<close>

section \<open>The trait and its implementations\<close>

record 'w arch_ops =
  ao_context_switch :: "ptr \<Rightarrow> ptr \<Rightarrow> 'w \<Rightarrow> 'w res"
  ao_enable_interrupts :: "'w \<Rightarrow> 'w"
  ao_disable_interrupts :: "'w \<Rightarrow> 'w"
  ao_interrupts_enabled :: "'w \<Rightarrow> bool"

definition aarch64_arch :: "u64 \<Rightarrow> ('s, 'h) system arch_ops" where
  "aarch64_arch resume =
     \<lparr>ao_context_switch = arch_context_switch resume, ao_enable_interrupts = enable_interrupts,
      ao_disable_interrupts = disable_interrupts, ao_interrupts_enabled = interrupts_enabled\<rparr>"

text \<open>\<open>NoOpArch\<close> for tests, and the stub of \<open>Aarch64Arch\<close> that other hosts compile.\<close>

definition no_op_arch :: "'w arch_ops" where
  "no_op_arch =
     \<lparr>ao_context_switch = (\<lambda>prev next w. Inr w), ao_enable_interrupts = (\<lambda>w. w),
      ao_disable_interrupts = (\<lambda>w. w), ao_interrupts_enabled = (\<lambda>w. True)\<rparr>"

definition aarch64_stub :: "'w arch_ops" where
  "aarch64_stub =
     \<lparr>ao_context_switch = (\<lambda>prev next w. Inr w), ao_enable_interrupts = (\<lambda>w. w),
      ao_disable_interrupts = (\<lambda>w. w), ao_interrupts_enabled = (\<lambda>w. True)\<rparr>"

text \<open>\<open>msr daifset, #0xf\<close>, the panic handler of \<open>lib.rs\<close> and \<open>halt\<close> before they wait for ever.\<close>

definition daifset_all :: "('s, 'h) system \<Rightarrow> ('s, 'h) system" where
  "daifset_all w = set_pstate (c_pstate (m_live (s_machine w)) OR DAIF_MASK) w"

definition panic_handler :: "('s, 'h) system \<Rightarrow> ('s, 'h) system" where
  "panic_handler w = daifset_all w"

definition halt :: "('s, 'h) system \<Rightarrow> ('s, 'h) system" where
  "halt w = daifset_all w"

text \<open>The functions of the crate root.\<close>

definition lib_yield_now ::
  "scheduler_type option \<Rightarrow> ('w \<Rightarrow> (flow \<times> 'w) res) \<Rightarrow> 'w \<Rightarrow> (flow \<times> 'w) res" where
  "lib_yield_now registered yield w = yield_current registered yield w"

definition lib_finish_current ::
  "scheduler_type option \<Rightarrow> ('w \<Rightarrow> (flow \<times> 'w) res) \<Rightarrow> 'w \<Rightarrow> (flow \<times> 'w) res" where
  "lib_finish_current registered finish w = finish_current registered finish w"

section \<open>The contract of the interrupt mask\<close>

text \<open>
  What the documentation of the trait promises: disabling prevents interrupts, enabling allows them,
  and a context switch that is entered with interrupts disabled keeps them so.
\<close>

locale interrupt_control =
  fixes ops :: "'w arch_ops"
  assumes disabled: "\<not> ao_interrupts_enabled ops (ao_disable_interrupts ops w)"
    and enabled: "ao_interrupts_enabled ops (ao_enable_interrupts ops w)"
    and switch_keeps: "ao_context_switch ops prev nxt w = Inr w' \<Longrightarrow>
      ao_interrupts_enabled ops w' = ao_interrupts_enabled ops w"
begin

lemma masked_switch:
  "ao_context_switch ops prev nxt (ao_disable_interrupts ops w) = Inr w' \<Longrightarrow> \<not> ao_interrupts_enabled ops w'"
  by (simp add: switch_keeps disabled)

text \<open>The mask is a flag and no counter: the end of an inner section ends the outer one too.\<close>

lemma sections_do_not_nest:
  "ao_interrupts_enabled ops (ao_enable_interrupts ops (ao_disable_interrupts ops (ao_disable_interrupts ops w)))"
  by (rule enabled)

end

lemma IRQ_BIT_exp: "IRQ_BIT = 2 ^ 7"
  by (simp add: IRQ_BIT_def)

lemma bit_IRQ_BIT: "bit IRQ_BIT k \<longleftrightarrow> k = 7"
  unfolding IRQ_BIT_exp by (simp only: bit_exp_iff possible_bit_word) auto

lemma interrupts_enabled_bit: "interrupts_enabled w \<longleftrightarrow> \<not> bit (c_pstate (m_live (s_machine w))) 7"
  unfolding interrupts_enabled_def IRQ_BIT_exp by (rule and_exp_eq_0_iff_not_bit)

lemma enable_disable_flag [simp]:
  "interrupts_enabled (enable_interrupts w)" "\<not> interrupts_enabled (disable_interrupts w)"
  by (simp_all add: interrupts_enabled_bit enable_interrupts_def disable_interrupts_def set_pstate_def
      bit_and_iff bit_not_iff bit_or_iff bit_IRQ_BIT)

lemma switch_load_flag: "bit (c_pstate (switch_load n c)) 7 = bit (c_pstate c) 7"
proof -
  have "\<not> bit NZCV_MASK 7" by (simp add: NZCV_MASK_def)
  then show ?thesis by (simp add: switch_load_def bit_and_iff bit_or_iff bit_not_iff)
qed

lemma switch_keeps_flag:
  "arch_context_switch resume prev nxt w = Inr w' \<Longrightarrow> interrupts_enabled w' = interrupts_enabled w"
  by (auto simp: arch_context_switch_def Let_def rbind_eq_Inr interrupts_enabled_bit switch_load_flag)

interpretation cpu: interrupt_control "aarch64_arch resume" for resume
  by unfold_locales (auto simp: aarch64_arch_def dest: switch_keeps_flag)

lemma host_builds_never_mask:
  "ao_interrupts_enabled no_op_arch (ao_disable_interrupts no_op_arch w)"
  "ao_interrupts_enabled aarch64_stub (ao_disable_interrupts aarch64_stub w)"
  by (simp_all add: no_op_arch_def aarch64_stub_def)

lemma daifset_all_masks: "\<not> interrupts_enabled (daifset_all w)"
proof -
  have "bit DAIF_MASK 7" by (simp add: DAIF_MASK_def)
  then show ?thesis by (simp add: daifset_all_def interrupts_enabled_bit set_pstate_def bit_or_iff)
qed

section \<open>Properties\<close>

lemma flag_upd [simp]:
  "interrupts_enabled (w\<lparr>k_scheduler := s\<rparr>) = interrupts_enabled w"
  "interrupts_enabled (w\<lparr>s_threads := st\<rparr>) = interrupts_enabled w"
  "interrupts_enabled (w\<lparr>k_current_thread := g\<rparr>) = interrupts_enabled w"
  "interrupts_enabled (set_current_irq_context p w) = interrupts_enabled w"
  by (simp_all add: interrupts_enabled_def set_current_irq_context_def)

lemma flag_load:
  "interrupts_enabled (w\<lparr>s_machine := (s_machine w)\<lparr>m_exec := p, m_live := switch_load n (m_live (s_machine w))\<rparr>\<rparr>) =
     interrupts_enabled w"
  by (simp add: interrupts_enabled_bit switch_load_flag)

lemma yield_now_flag:
  assumes "k_initialized w" "yield_now ops now resume w = Inr (f, w')"
  shows "interrupts_enabled w' \<longleftrightarrow> f = Returned"
  using assms unfolding yield_now_def Let_def
  by (auto simp: rbind_eq_Inr split: prod.splits option.splits if_splits dest!: switch_keeps_flag)

lemma finish_and_yield_flag:
  assumes "k_initialized w" "finish_and_yield ops std_shim now resume w = Inr (f, w')"
  shows "interrupts_enabled w' \<longleftrightarrow> f = Returned"
  using assms unfolding finish_and_yield_def Let_def
  by (auto simp: rbind_eq_Inr split: prod.splits option.splits if_splits dest!: switch_keeps_flag)

lemma start_first_thread_flag:
  assumes "k_initialized w" "start_first_thread ops now w = Inr (Switched, w')"
  shows "\<not> interrupts_enabled w'"
  using assms unfolding start_first_thread_def Let_def
  by (auto simp: rbind_eq_Inr flag_load split: prod.splits option.splits if_splits)

text \<open>
  C21. Interrupts around the kernel's calls.  With any scheduler and in any state of an initialised
  kernel: a call that switches threads does so with interrupts masked, as the contract of
  \<open>context_switch\<close> demands, and they are still masked when the next thread continues; a call of
  \<open>yield_now\<close> or \<open>finish_and_yield\<close> that returns without a switch leaves interrupts enabled, even when they
  were masked before the call.
\<close>

theorem kernel_calls_leave_mask:
  assumes "k_initialized w"
  shows "(yield_now ops now resume w = Inr (f, w') \<longrightarrow> (interrupts_enabled w' \<longleftrightarrow> f = Returned)) \<and>
    (finish_and_yield ops std_shim now resume w = Inr (f, w') \<longrightarrow> (interrupts_enabled w' \<longleftrightarrow> f = Returned)) \<and>
    (start_first_thread ops now w = Inr (Switched, w') \<longrightarrow> \<not> interrupts_enabled w')"
  using yield_now_flag [OF assms] finish_and_yield_flag [OF assms] start_first_thread_flag [OF assms] by blast

theorem kernel_calls_leave_mask_witness:
  "\<exists>(w :: (fcfs, unit) system) w'. k_initialized w \<and> \<not> interrupts_enabled w \<and>
     yield_now fcfs_ops (Instant 3) 0x8000 w = Inr (Returned, w') \<and> interrupts_enabled w'"
proof -
  let ?w = "(kernel_new (fcfs_new []) (arc_empty 5 []) ()
    \<lparr>m_exec = 0, m_save = 0, m_load = 0, m_live = default_context, m_addr = (\<lambda>_. 0)\<rparr>)\<lparr>k_initialized := True\<rparr>"
  have "\<not> interrupts_enabled ?w"
    by (simp add: interrupts_enabled_bit kernel_new_def default_context_def)
  moreover obtain w' where "yield_now fcfs_ops (Instant 3) 0x8000 ?w = Inr (Returned, w')"
    by (simp add: yield_now_def kernel_new_def mutex_lock_def mutex_new_def disable_interrupts_def set_pstate_def Let_def)
  ultimately show ?thesis
    using kernel_calls_leave_mask [where w = ?w and ops = fcfs_ops and now = "Instant 3" and resume = "0x8000"
        and f = Returned and w' = w' and std_shim = False]
    by (intro exI [of _ ?w] exI [of _ w']) simp
qed

text \<open>
  A stopped processor stays stopped.  After the panic handler or \<open>halt\<close> has masked all four exception
  classes, interrupts are disabled; nothing else of the state has changed.
\<close>

lemma stopped_cpu:
  "\<not> interrupts_enabled (panic_handler w)" "\<not> interrupts_enabled (halt w)"
  "k_current_thread (halt w) = k_current_thread w" "s_threads (halt w) = s_threads w"
  by (simp_all add: panic_handler_def halt_def daifset_all_masks) (simp_all add: daifset_all_def)

end
