(* ===== verification/Thread_Lifecycle.thy ===== *)
theory Thread_Lifecycle
  imports Dispatch_Order
begin

text \<open>
  A thread from its first instruction to its last: how it is entered, the trampoline that \<open>spawn\<close> wraps
  around the closure, and what happens when the thread's function returns.
\<close>

section \<open>The trampoline\<close>

text \<open>
  \<open>thread_trampoline\<close> of \<open>Kernel::spawn\<close>: enable interrupts, run the closure, finish the thread through
  the global kernel, and wait for ever if that returns.  The closure is whatever the thread does
  to the system; a closure that never returns is never seen here.
\<close>

definition thread_trampoline ::
  "scheduler_type option \<Rightarrow> (('s, 'h) system \<Rightarrow> ('s, 'h) system res) \<Rightarrow>
   (('s, 'h) system \<Rightarrow> (flow \<times> ('s, 'h) system) res) \<Rightarrow> ('s, 'h) system \<Rightarrow> (flow \<times> ('s, 'h) system) res" where
  "thread_trampoline registered closure finish w =
     rbind (closure (enable_interrupts w)) (\<lambda>w1.
     rbind (finish_current registered finish w1) (\<lambda>(f, w2).
       case f of Switched \<Rightarrow> Inr (Switched, w2) | Returned \<Rightarrow> Inl Hang))"

text \<open>
  \<open>CURRENT_THREAD_ID\<close> is a static that nothing ever stores to; \<open>current_thread_id\<close> reads it, and is what
  the trampoline reports as the thread that finished.
\<close>

definition CURRENT_THREAD_ID :: u64 where "CURRENT_THREAD_ID = 1"

definition current_thread_id :: usize where
  "current_thread_id = thread_id_new CURRENT_THREAD_ID"

section \<open>Code of the running thread\<close>

text \<open>Between two kernel calls the running thread leaves the registers with any contents.\<close>

definition with_registers :: "aarch64_context \<Rightarrow> ('s, 'h) system \<Rightarrow> ('s, 'h) system" where
  "with_registers l w = w\<lparr>s_machine := (s_machine w)\<lparr>m_live := l\<rparr>\<rparr>"

lemma with_registers_sel [simp]:
  "k_scheduler (with_registers l w) = k_scheduler w" "k_current_thread (with_registers l w) = k_current_thread w"
  "s_threads (with_registers l w) = s_threads w" "k_initialized (with_registers l w) = k_initialized w"
  "current (with_registers l w) = current w" "m_live (s_machine (with_registers l w)) = l"
  "m_save (s_machine (with_registers l w)) = m_save (s_machine w)"
  "m_load (s_machine (with_registers l w)) = m_load (s_machine w)"
  "m_exec (s_machine (with_registers l w)) = m_exec (s_machine w)"
  by (simp_all add: with_registers_def current_def)

lemma with_registers_inv [simp]:
  "kernel_inv ready ok (with_registers l w) = kernel_inv ready ok w"
  "control_ok (with_registers l w) = control_ok w" "top_level L (with_registers l v) c = top_level L v c"
  "level_waiting L (with_registers l v) = level_waiting L v"
  by (simp_all add: kernel_inv_def control_ok_def top_level_def level_waiting_def)

section \<open>Properties\<close>

text \<open>
  C20. A new thread cannot be preempted.  When the kernel switches to a thread for the first time, by a
  yield or by the timer, the thread starts at its entry point on its own stack, with interrupts
  masked, and with nothing to return to: the link register is 0.  No timer interrupt is taken until
  the thread itself unmasks interrupts, which only the trampoline of \<open>spawn\<close> does; a function started
  by \<open>spawn_fn\<close> keeps the CPU until it yields, and jumps to address 0 when it returns.
\<close>

theorem new_thread_runs_masked:
  assumes inv: "kernel_inv rr1_ready rr1_ok w" and ctl: "control_ok w" and irq: "irq_linked w"
    and run: "do_switch rr_ops x w = Inr w'" and n: "current w' = Some n" "current w \<noteq> Some n"
    and ctx: "m_value (t_context (arc_val (s_threads w) n)) = initial_context entry_point sp_top arg"
  shows "\<not> interrupts_enabled w' \<and> (\<forall>w''. \<not> kstep rr_ops alloc w' Timer w'') \<and>
    c_pc (m_live (s_machine w')) = entry_point \<and> c_sp (m_live (s_machine w')) = sp_top \<and>
    c_x (m_live (s_machine w')) 0 = arg \<and> c_x (m_live (s_machine w')) 30 = 0"
proof -
  obtain c where c: "current w = Some c" "m_save (s_machine w) = c" using irq by (auto simp: irq_linked_def)
  note ci = control_ok_current [OF ctl c(1)]
  have "\<not> interrupts_enabled w' \<and> c_pc (m_live (s_machine w')) = entry_point \<and>
    c_sp (m_live (s_machine w')) = sp_top \<and> c_x (m_live (s_machine w')) 0 = arg \<and> c_x (m_live (s_machine w')) 30 = 0"
  proof (cases x)
    case (YieldAt now resume)
    obtain v m where v: "yield_now rr_ops now resume w = Inr (Switched, v)" "current v = Some m"
      "\<And>q. m_value (t_context (arc_val (s_threads v) q)) = (if q = c
        then switch_save (m_addr (s_machine w) c) (m_addr (s_machine w) m) resume
          (m_live (s_machine (disable_interrupts w)))
        else m_value (t_context (arc_val (s_threads w) q)))"
      "s_machine v = (s_machine w)\<lparr>m_exec := m, m_live := switch_load
        (m_value (t_context (arc_val (s_threads v) m))) (m_live (s_machine (disable_interrupts w)))\<rparr>"
      by (rule rr1.yield_run [OF inv c(1) ci, where now = now and resume = resume]) (rule that; assumption)
    have "w' = v" "m = n" using run YieldAt v(1,2) n(1) by auto
    moreover have "n \<noteq> c" using n(2) c(1) by auto
    ultimately have e: "w' = v" "m = n" "m_value (t_context (arc_val (s_threads v) n)) = initial_context entry_point sp_top arg"
      using v(3) [of n] ctx by simp_all
    have "\<not> interrupts_enabled w'"
      using switch_load_masked [where w = w and n = "m_value (t_context (arc_val (s_threads v) n))"]
      by (simp add: interrupts_enabled_def e(1,2) v(4))
    then show ?thesis using v(4) e by (simp add: switch_load_def initial_context_def)
  next
    case (TimerAt now)
    obtain v m where v: "timer_irq (handle_irq_preemption rr_ops now) w = Inr v" "current v = Some m"
      "\<And>q. m_value (t_context (arc_val (s_threads v) q)) = (if q = m_save (s_machine w) \<and> q \<noteq> 0
        then m_live (s_machine w) else m_value (t_context (arc_val (s_threads w) q)))"
      "s_machine v = (s_machine w)\<lparr>m_exec := m, m_save := m, m_load := m,
        m_live := m_value (t_context (arc_val (s_threads v) m))\<rparr>"
      by (rule rr1.timer_run [OF inv c(1) ci ctl, where now = now]) (rule that; assumption)
    have "w' = v" "m = n" using run TimerAt v(1,2) n(1) by auto
    moreover have "n \<noteq> c" using n(2) c(1) by auto
    ultimately show ?thesis
      using v(3) [of n] v(4) ctx c(2) by (simp add: interrupts_enabled_def initial_context_def IRQ_BIT_def)
  qed
  then show ?thesis by (auto elim: kstepE)
qed

theorem new_thread_runs_masked_witness:
  "\<exists>w w'. current (w :: (round_robin, bump_heap) system) = Some 1 \<and> do_switch rr_ops (TimerAt (Instant 5)) w = Inr w' \<and>
     current w' = Some 2 \<and> \<not> interrupts_enabled w' \<and> c_pc (m_live (s_machine w')) = 0x4000 \<and>
     c_x (m_live (s_machine w')) 30 = 0"
proof (rule mixed_kernel_run)
  fix w :: "(round_robin, bump_heap) system"
  assume i: "kernel_inv rr1_ready rr1_ok w" "control_ok w" "irq_linked w"
    and w: "current w = Some 1" "s_threads w = mixed_threads"
    and lw: "\<And>l. level_waiting l w = (case l of High \<Rightarrow> [2] | Normal \<Rightarrow> [3] | _ \<Rightarrow> [])"
  have "priority_level_of 200 = High" by (simp add: priority_level_of_def)
  then have top: "top_level High w 1"
    using w mixed_threads_live(2) by (auto simp: top_level_def lw levels_above_def thread_level_def)
  obtain w' n where w': "do_switch rr_ops (TimerAt (Instant 5)) w = Inr w'" "top_level High w' n"
    "n # level_waiting High w' = rotate1 (1 # level_waiting High w)"
    by (rule rr_switch_rotates [OF i(1,2) top, where x = "TimerAt (Instant 5)"]) (rule that; assumption)
  have n: "current w' = Some 2" using w'(2,3) by (simp add: lw top_level_def)
  have ctx: "m_value (t_context (arc_val (s_threads w) 2)) = initial_context 0x4000 0x91000 0"
    using mixed_threads_live(4) [of 2] by (simp add: w(2) mutex_new_def)
  from new_thread_runs_masked [OF i w'(1) n _ ctx] w(1)
  show ?thesis using w'(1) n by (intro exI [of _ w] exI [of _ w']) simp
qed

text \<open>
  C15. A thread that returns.  When the closure of a \<open>spawn\<close>ed thread returns in a first-come-first-served
  kernel registered as such, the trampoline marks the thread Finished and switches to the thread
  that waited longest.  If nobody waits, it stays in its final loop for ever, or panics when the
  kernel's reference was the last one.  If no kernel is registered the thread stays in that loop
  without having been marked Finished.
\<close>

theorem trampoline_outcome:
  assumes clo: "closure (enable_interrupts w) = Inr w1"
    and inv: "kernel_inv fcfs_ready fcfs_ok w1" and cur: "current w1 = Some c" and init: "k_initialized w1"
  shows "let run = (\<lambda>registered. thread_trampoline registered closure (finish_and_yield fcfs_ops False now resume) w)
    in run None = Inl Hang \<and>
    (case fcfs_ready (k_scheduler w1) of
       [] \<Rightarrow> run (Some FirstComeFirstServe) = Inl (if arc_cnt (s_threads w1) c = 1 then Unimplemented else Hang)
     | n # rs \<Rightarrow> \<exists>w'. run (Some FirstComeFirstServe) = Inr (Switched, w') \<and> kernel_inv fcfs_ready fcfs_ok w' \<and>
         current w' = Some n \<and> fcfs_ready (k_scheduler w') = rs \<and> thread_in (s_threads w') Finished c)"
proof -
  let ?run = "\<lambda>registered. thread_trampoline registered closure (finish_and_yield fcfs_ops False now resume) w"
  have r: "?run (Some FirstComeFirstServe) = rbind (finish_and_yield fcfs_ops False now resume w1)
      (\<lambda>(f, w2). case f of Switched \<Rightarrow> Inr (Switched, w2) | Returned \<Rightarrow> Inl Hang)" "?run None = Inl Hang"
    by (simp_all add: thread_trampoline_def clo finish_current_def get_global_kernel_def)
  show ?thesis
  proof (cases "fcfs_ready (k_scheduler w1)")
    case Nil
    from fcfs.finish_alone [OF inv cur init Nil, of now resume] show ?thesis
      using Nil r by (auto simp: Let_def split: if_splits)
  next
    case (Cons n rs)
    note i = kernel_invD [OF inv]
    have "n \<noteq> c" using i(10) [OF cur] Cons by auto
    obtain w' where w': "finish_and_yield fcfs_ops False now resume w1 = Inr (Switched, w')"
      "kernel_inv fcfs_ready fcfs_ok w'" "current w' = Some n" "fcfs_ready (k_scheduler w') = rs"
      "same_threads (s_threads w1) (s_threads w')"
      "\<And>q. t_state (arc_val (s_threads w') q) = (if q = n then state_code Running
        else if q = c then state_code Finished else t_state (arc_val (s_threads w1) q))"
      by (rule fcfs.finish_run [OF inv cur init Cons, where now = now and resume = resume and std_shim = False])
        (rule that; assumption)
    have "thread_in (s_threads w') Finished c"
      using w'(6) [of c] \<open>n \<noteq> c\<close> i(9) [OF cur] same_threads_live [OF w'(5)] by (simp add: thread_in_def)
    with w' show ?thesis using r Cons by (simp add: Let_def)
  qed
qed

theorem trampoline_outcome_witness:
  "\<exists>(w :: (fcfs, bump_heap) system) c d w'. current w = Some c \<and>
     thread_trampoline (Some FirstComeFirstServe) (\<lambda>v. Inr w)
       (finish_and_yield fcfs_ops False (Instant 5) 0x8000) w = Inr (Switched, w') \<and>
     current w' = Some d \<and> c \<noteq> d \<and> thread_in (s_threads w') Finished c"
proof (rule fcfs_boot)
  fix w c d
  assume r: "kernel_run fcfs_ops (bump_alloc [])
      (kernel_new (fcfs_new []) (arc_empty 5 []) boot_heap reset_machine)
      [Init True, Spawn (Inr 1), Spawn (Inr 2), Start] w"
    and w: "current w = Some c" "fcfs_ready (k_scheduler w) = [d]" "c \<noteq> d" "k_initialized w"
  have "system_inv fcfs_ready fcfs_ok bump_taken bump_ok w"
    by (rule fcfs_kernel.reached(1) [OF r fcfs_ok_new boot_heap_ok reset_machine_boot]) simp
  then have inv: "kernel_inv fcfs_ready fcfs_ok w" by (simp add: system_inv_def)
  from trampoline_outcome [where closure = "\<lambda>v. Inr w", OF refl inv w(1,4), of "Instant 5" "0x8000"]
  obtain w' where "thread_trampoline (Some FirstComeFirstServe) (\<lambda>v. Inr w)
       (finish_and_yield fcfs_ops False (Instant 5) 0x8000) w = Inr (Switched, w')"
      "current w' = Some d" "thread_in (s_threads w') Finished c" by (auto simp: w(2) Let_def)
  with w show ?thesis by blast
qed

text \<open>
  Every registered kernel breaks one of the two global calls: with a round-robin kernel a thread
  whose closure returns uses the kernel at the wrong type, with a first-come-first-served kernel a
  thread that yields does.
\<close>

lemma global_calls_confuse_types:
  "yield_current (Some t) yield w = Inl TypeConfusion \<longleftrightarrow> t = FirstComeFirstServe \<or> yield w = Inl TypeConfusion"
  "finish_current (Some t) finish w = Inl TypeConfusion \<longleftrightarrow> t = RoundRobin \<or> finish w = Inl TypeConfusion"
  by (cases t; simp add: yield_current_def finish_current_def get_global_kernel_def)+

lemma round_robin_trampoline_goes_wrong:
  "closure (enable_interrupts w) = Inr w1 \<Longrightarrow> thread_trampoline (Some RoundRobin) closure finish w = Inl TypeConfusion"
  by (simp add: thread_trampoline_def finish_current_def get_global_kernel_def)

text \<open>
  C19. A yielded thread that the timer resumes loses its privileges.  \<open>context_switch\<close> saves only the
  condition flags as PSTATE, but the interrupt path restores the whole PSTATE from the context.  In
  a linked round-robin kernel let one thread yield to another and that one yield back, whatever both
  do in between.  The interrupt pointers are then right again; still, when the timer next gives the
  second thread its turn, it continues behind its yield in user mode (EL0, with the other
  stack pointer), with interrupts unmasked.
\<close>

theorem yielded_thread_resumes_in_user_mode:
  assumes inv: "kernel_inv rr1_ready rr1_ok w" and ctl: "control_ok w" and irq: "irq_linked w"
    and c: "current w = Some c" "c \<noteq> d"
    and y1: "yield_now rr_ops t1 r1 w = Inr (f1, w1)" "current w1 = Some d"
    and y2: "yield_now rr_ops t2 r2 (with_registers l1 w1) = Inr (f2, w2)" "current w2 = Some c"
    and tm: "timer_irq (handle_irq_preemption rr_ops t3) (with_registers l2 w2) = Inr w3" "current w3 = Some d"
  shows "irq_linked w2 \<and> c_pc (m_live (s_machine w3)) = r2 \<and>
    c_pstate (m_live (s_machine w3)) AND MODE_MASK = 0 \<and> interrupts_enabled w3"
proof -
  obtain v m where v: "yield_now rr_ops t1 r1 w = Inr (Switched, v)" "kernel_inv rr1_ready rr1_ok v"
    "current v = Some m" "k_initialized v" "s_machine v = (s_machine w)\<lparr>m_exec := m, m_live := switch_load
        (m_value (t_context (arc_val (s_threads v) m))) (m_live (s_machine (disable_interrupts w)))\<rparr>"
    by (rule rr1.yield_run [OF inv c(1) control_ok_current [OF ctl c(1)], where now = t1 and resume = r1])
      (rule that; assumption)
  have w1: "w1 = v" using y1 v(1) by simp
  have ctl1: "control_ok w1" using rr1.yield_step [OF inv ctl y1(1)] by (simp add: good_step_def)
  define w1' where "w1' = with_registers l1 w1"
  have i1: "kernel_inv rr1_ready rr1_ok w1'" "control_ok w1'" "current w1' = Some d" "k_initialized w1'"
    using v(2,4) y1(2) ctl1 by (simp_all add: w1'_def w1)
  obtain u n where u: "yield_now rr_ops t2 r2 w1' = Inr (Switched, u)" "kernel_inv rr1_ready rr1_ok u"
    "current u = Some n" "k_initialized u"
    "\<And>q. m_value (t_context (arc_val (s_threads u) q)) = (if q = d
      then switch_save (m_addr (s_machine w1') d) (m_addr (s_machine w1') n) r2
        (m_live (s_machine (disable_interrupts w1')))
      else m_value (t_context (arc_val (s_threads w1') q)))"
    "s_machine u = (s_machine w1')\<lparr>m_exec := n, m_live := switch_load
      (m_value (t_context (arc_val (s_threads u) n))) (m_live (s_machine (disable_interrupts w1')))\<rparr>"
    by (rule rr1.yield_run [OF i1(1,3,4), where now = t2 and resume = r2]) (rule that; assumption)
  have w2: "w2 = u" "n = c" using y2 u(1,3) by (simp_all add: w1'_def)
  have ctl2: "control_ok w2" using rr1.yield_step [OF i1(1,2) u(1)] w2 by (simp add: good_step_def)
  have linked: "irq_linked w2" "m_save (s_machine w2) = c"
    using irq c y2(2) by (simp_all add: irq_linked_def w2 u(6) w1'_def w1 v(5))
  define w2' where "w2' = with_registers l2 w2"
  have i2: "kernel_inv rr1_ready rr1_ok w2'" "current w2' = Some c" "k_initialized w2'" "control_ok w2'"
    using u(2,4) y2(2) ctl2 by (simp_all add: w2'_def w2)
  obtain x k where x: "timer_irq (handle_irq_preemption rr_ops t3) w2' = Inr x" "current x = Some k"
    "\<And>q. m_value (t_context (arc_val (s_threads x) q)) = (if q = m_save (s_machine w2') \<and> q \<noteq> 0
      then m_live (s_machine w2') else m_value (t_context (arc_val (s_threads w2') q)))"
    "s_machine x = (s_machine w2')\<lparr>m_exec := k, m_save := k, m_load := k,
      m_live := m_value (t_context (arc_val (s_threads x) k))\<rparr>"
    by (rule rr1.timer_run [OF i2, where now = t3]) (rule that; assumption)
  have w3: "w3 = x" "k = d" using tm x(1,2) by (simp_all add: w2'_def)
  have "m_live (s_machine w3) = switch_save (m_addr (s_machine w1') d) (m_addr (s_machine w1') n) r2
        (m_live (s_machine (disable_interrupts w1')))"
    using x(3) [of d] u(5) [of d] c(2) linked(2) by (simp add: w3 x(4) w2'_def w2(1))
  moreover have "(v AND NZCV_MASK) AND MODE_MASK = 0" "(v AND NZCV_MASK) AND IRQ_BIT = 0" for v
    by (simp_all add: and.assoc NZCV_MASK_def MODE_MASK_def IRQ_BIT_def)
  ultimately show ?thesis using linked(1) by (simp add: switch_save_def interrupts_enabled_def)
qed

theorem yielded_thread_resumes_in_user_mode_witness:
  "\<exists>w w1 w2 w3 f1 f2. irq_linked (w :: (round_robin, bump_heap) system) \<and>
     yield_now rr_ops (Instant 3) 0x8000 w = Inr (f1, w1) \<and>
     yield_now rr_ops (Instant 5) 0x9000 (with_registers default_context w1) = Inr (f2, w2) \<and>
     timer_irq (handle_irq_preemption rr_ops (Instant 7)) (with_registers default_context w2) = Inr w3 \<and>
     c_pc (m_live (s_machine w3)) = 0x9000 \<and> c_pstate (m_live (s_machine w3)) AND MODE_MASK = 0"
proof (rule mixed_kernel_run)
  fix w :: "(round_robin, bump_heap) system"
  assume i: "kernel_inv rr1_ready rr1_ok w" "control_ok w" "irq_linked w"
    and w: "current w = Some 1" "s_threads w = mixed_threads"
    and lw: "\<And>l. level_waiting l w = (case l of High \<Rightarrow> [2] | Normal \<Rightarrow> [3] | _ \<Rightarrow> [])"
  have "priority_level_of 200 = High" by (simp add: priority_level_of_def)
  then have top: "top_level High w 1"
    using w mixed_threads_live(2) by (auto simp: top_level_def lw levels_above_def thread_level_def)
  let ?x1 = "YieldAt (Instant 3) 0x8000" and ?x2 = "YieldAt (Instant 5) 0x9000" and ?x3 = "TimerAt (Instant 7)"
  obtain w1 n1 where w1: "do_switch rr_ops ?x1 w = Inr w1" "kernel_inv rr1_ready rr1_ok w1" "control_ok w1"
    "top_level High w1 n1" "n1 # level_waiting High w1 = rotate1 (1 # level_waiting High w)"
    by (rule rr_switch_rotates [OF i(1,2) top, where x = ?x1]) (rule that; assumption)
  define v1 where "v1 = with_registers default_context w1"
  have v1: "kernel_inv rr1_ready rr1_ok v1" "control_ok v1" "top_level High v1 n1" using w1 by (simp_all add: v1_def)
  obtain w2 n2 where w2: "do_switch rr_ops ?x2 v1 = Inr w2" "kernel_inv rr1_ready rr1_ok w2" "control_ok w2"
    "top_level High w2 n2" "n2 # level_waiting High w2 = rotate1 (n1 # level_waiting High v1)"
    by (rule rr_switch_rotates [OF v1, where x = ?x2]) (rule that; assumption)
  define v2 where "v2 = with_registers default_context w2"
  have v2: "kernel_inv rr1_ready rr1_ok v2" "control_ok v2" "top_level High v2 n2" using w2 by (simp_all add: v2_def)
  obtain w3 n3 where w3: "do_switch rr_ops ?x3 v2 = Inr w3" "top_level High w3 n3"
    "n3 # level_waiting High w3 = rotate1 (n2 # level_waiting High v2)"
    by (rule rr_switch_rotates [OF v2, where x = ?x3]) (rule that; assumption)
  have cur: "current w1 = Some 2" "current w2 = Some 1" "current w3 = Some 2"
    using w1(4,5) w2(4,5) w3(2,3) by (simp_all add: lw top_level_def v1_def v2_def)
  obtain f1 where f1: "yield_now rr_ops (Instant 3) 0x8000 w = Inr (f1, w1)"
    using w1(1) by (cases "yield_now rr_ops (Instant 3) 0x8000 w") auto
  obtain f2 where f2: "yield_now rr_ops (Instant 5) 0x9000 (with_registers default_context w1) = Inr (f2, w2)"
    using w2(1) by (cases "yield_now rr_ops (Instant 5) 0x9000 v1") (auto simp: v1_def)
  have t: "timer_irq (handle_irq_preemption rr_ops (Instant 7)) (with_registers default_context w2) = Inr w3"
    using w3(1) by (simp add: v2_def)
  have "(1 :: ptr) \<noteq> 2" by simp
  from yielded_thread_resumes_in_user_mode [OF i w(1) this f1 cur(1) f2 cur(2) t cur(3)]
  show ?thesis using i(3) f1 f2 t by blast
qed

end
