(* ===== verification/Preemptive_Platform.thy ===== *)
theory Preemptive_Platform
  imports Thread_Lifecycle Platform
begin

text \<open>
  Preemptive multithreading as a whole.  The platform, with its kernel, timer and interrupt
  controller, runs in slices: code of the running thread, and at its end the timer interrupt if
  it is due and not masked.  The theory gives the abstract machine this is meant to be, a rotating
  list of threads each with its own registers, and shows that the platform implements it over any
  sequence of slices.
\<close>

section \<open>The platform in slices\<close>

text \<open>
  A slice: the running thread leaves the registers with contents \<open>sl_regs\<close> when the counter has
  reached \<open>sl_count\<close>; \<open>sl_now\<close> is the time the kernel reads.
\<close>

datatype slice = Slice (sl_regs: aarch64_context) (sl_count: u64) (sl_now: instant)

text \<open>
  The timer's output drives input 30 of the controller (\<open>wire\<close>), and the CPU takes an interrupt when
  the controller signals one and interrupts are unmasked.
\<close>

definition slice_end ::
  "(bool \<Rightarrow> 'd \<Rightarrow> 'd) \<Rightarrow> slice \<Rightarrow> ('s, 'h, 'd) platform \<Rightarrow> ('s, 'h, 'd) platform" where
  "slice_end wire s p =
     (let t = (p_timer p)\<lparr>cntpct_el0 := sl_count s\<rparr>
      in p\<lparr>p_kernel := with_registers (sl_regs s) (p_kernel p), p_timer := t,
           p_device := wire (timer_line t) (p_device p)\<rparr>)"

definition platform_slice ::
  "bool \<Rightarrow> 'd bus \<Rightarrow> ('d \<Rightarrow> gic) \<Rightarrow> (bool \<Rightarrow> 'd \<Rightarrow> 'd) \<Rightarrow> bool \<Rightarrow> slice \<Rightarrow>
   (round_robin, 'h, 'd) platform \<Rightarrow> (round_robin, 'h, 'd) platform res" where
  "platform_slice qemu b view wire checks s p =
     (let p1 = slice_end wire s p
      in if gic_signal (view (p_device p1)) \<noteq> None \<and> interrupts_enabled (p_kernel p1)
         then take_platform_irq (irq_handler qemu b rr_ops (sl_now s) checks) p1
         else Inr p1)"

section \<open>The abstract machine\<close>

record timeslicer =
  ts_order :: "ptr list"
  ts_regs :: "ptr \<Rightarrow> aarch64_context"
  ts_deadline :: nat

definition unmasked :: "aarch64_context \<Rightarrow> bool" where
  "unmasked c \<longleftrightarrow> c_pstate c AND IRQ_BIT = 0"

definition timeslicer_step :: "nat \<Rightarrow> slice \<Rightarrow> timeslicer \<Rightarrow> timeslicer" where
  "timeslicer_step interval s t =
     (let regs = (ts_regs t)(hd (ts_order t) := sl_regs s)
      in if ts_deadline t \<le> unat (sl_count s) \<and> unmasked (sl_regs s)
         then \<lparr>ts_order = rotate1 (ts_order t), ts_regs = regs, ts_deadline = unat (sl_count s) + interval\<rparr>
         else t\<lparr>ts_regs := regs\<rparr>)"

text \<open>What the platform is as such a machine, while threads of level \<open>L\<close> run and nobody waits above.\<close>

definition platform_abs :: "priority_level \<Rightarrow> (round_robin, 'h, 'd) platform \<Rightarrow> timeslicer" where
  "platform_abs L p =
     \<lparr>ts_order = (case current (p_kernel p) of None \<Rightarrow> [] | Some c \<Rightarrow> c # level_waiting L (p_kernel p)),
      ts_regs = thread_regs (p_kernel p), ts_deadline = unat (cntp_cval_el0 (p_timer p))\<rparr>"

definition kernel_running :: "priority_level \<Rightarrow> (round_robin, 'h) system \<Rightarrow> bool" where
  "kernel_running L w \<longleftrightarrow> kernel_inv rr1_ready rr1_ok w \<and> control_ok w \<and> irq_linked w \<and> (\<exists>c. top_level L w c)"

definition tick_interval :: "generic_timer \<Rightarrow> nat" where
  "tick_interval t = unat (TIMER_FREQ t) * 1000 div 1000000"

definition timer_running :: "nat \<Rightarrow> generic_timer \<Rightarrow> bool" where
  "timer_running interval t \<longleftrightarrow> cntp_ctl_el0 t = 1 \<and> TIMER_FREQ t \<noteq> 0 \<and>
     unat (TIMER_FREQ t) * 1000 < 2 ^ 64 \<and> tick_interval t = interval"

definition gic_forwarding :: "gic \<Rightarrow> bool" where
  "gic_forwarding g \<longleftrightarrow> timer_only g \<and> g_active g = [] \<and> \<not> g_latch g 30"

definition platform_ok :: "priority_level \<Rightarrow> ('d \<Rightarrow> gic) \<Rightarrow> nat \<Rightarrow> (round_robin, 'h, 'd) platform \<Rightarrow> bool" where
  "platform_ok L view interval p \<longleftrightarrow> kernel_running L (p_kernel p) \<and> p_registered p = Some RoundRobin \<and>
     timer_running interval (p_timer p) \<and> gic_forwarding (view (p_device p))"

section \<open>One slice\<close>

lemma thread_regs_user:
  "current w = Some c \<Longrightarrow> thread_regs (with_registers l w) = (thread_regs w)(c := l)"
  by (auto simp: thread_regs_def fun_eq_iff)

lemma irq_linked_user [simp]: "irq_linked (with_registers l w) = irq_linked w"
  by (simp add: irq_linked_def)

lemma kernel_running_user [simp]: "kernel_running L (with_registers l w) = kernel_running L w"
  by (simp add: kernel_running_def)

lemma kernel_running_tick:
  assumes "kernel_running L w"
  obtains w' c n where "timer_irq (handle_irq_preemption rr_ops now) w = Inr w'" "kernel_running L w'"
    "thread_regs w' = thread_regs w" "current w = Some c" "current w' = Some n"
    "n # level_waiting L w' = rotate1 (c # level_waiting L w)"
proof -
  obtain c where inv: "kernel_inv rr1_ready rr1_ok w" and ctl: "control_ok w" and irq: "irq_linked w" and top: "top_level L w c"
    using assms by (auto simp: kernel_running_def)
  have c: "current w = Some c" using top by (simp add: top_level_def)
  have save: "m_save (s_machine w) = c" using irq c by (simp add: irq_linked_def)
  have nz: "c \<noteq> 0" using store_ok_live kernel_invD(3,9) [OF inv] c by blast
  obtain w' n where w': "do_switch rr_ops (TimerAt now) w = Inr w'" "kernel_inv rr1_ready rr1_ok w'" "control_ok w'"
    "top_level L w' n" "n # level_waiting L w' = rotate1 (c # level_waiting L w)"
    by (rule rr_switch_rotates [OF inv ctl top, where x = "TimerAt now"]) (rule that; assumption)
  obtain v m where v: "timer_irq (handle_irq_preemption rr_ops now) w = Inr v" "current v = Some m"
    "\<And>q. m_value (t_context (arc_val (s_threads v) q)) = (if q = m_save (s_machine w) \<and> q \<noteq> 0
      then m_live (s_machine w) else m_value (t_context (arc_val (s_threads w) q)))"
    "s_machine v = (s_machine w)\<lparr>m_exec := m, m_save := m, m_load := m,
      m_live := m_value (t_context (arc_val (s_threads v) m))\<rparr>"
    by (rule rr1.timer_run [OF inv c control_ok_current [OF ctl c] ctl, where now = now]) (rule that; assumption)
  have eq: "v = w'" using v(1) w'(1) by simp
  have "thread_regs w' q = thread_regs w q" for q
    using v(2-4) c save nz by (simp add: thread_regs_def eq)
  moreover have "irq_linked w'" using v(2,4) by (simp add: irq_linked_def eq)
  moreover have "current w' = Some n" using w'(4) by (simp add: top_level_def)
  moreover have "timer_irq (handle_irq_preemption rr_ops now) w = Inr w'" using v(1) eq by simp
  ultimately show thesis
    using w'(2-5) c by (intro that [of w' c n]) (auto simp: kernel_running_def)
qed

lemma timer_running_line:
  "timer_running interval t \<Longrightarrow> timer_line t \<longleftrightarrow> unat (cntp_cval_el0 t) \<le> unat (cntpct_el0 t)"
  by (simp add: timer_running_def timer_line_def timer_condition_def word_le_nat_alt bit_1_iff)

lemma timer_running_rearm:
  assumes "timer_running interval t" "unat (cntpct_el0 t) + interval < 2 ^ 64"
  obtains t' where "setup_preemption_timer checks 1000 (mask_timer t) = Inr (True, t')"
    "timer_running interval t'" "unat (cntp_cval_el0 t') = unat (cntpct_el0 t) + interval"
proof -
  note t = assms(1) [unfolded timer_running_def tick_interval_def]
  have us: "unat (1000 :: u32) = 1000" by simp
  obtain t' where t': "setup_preemption_timer checks 1000 (mask_timer t) = Inr (True, t')"
    "unat (cntp_cval_el0 t') = unat (cntpct_el0 t) + interval"
    "t' = (mask_timer t)\<lparr>cntp_cval_el0 := cntp_cval_el0 t', cntp_ctl_el0 := 1\<rparr>"
    using setup_timer_fits [of "mask_timer t" 1000 checks] t assms(2) unfolding us by (auto simp: mask_timer_def)
  have "timer_running interval t'"
    using t by (subst t'(3)) (simp add: timer_running_def tick_interval_def mask_timer_def)
  with t'(1,2) show thesis by (intro that)
qed

lemma gic_forwarding_line: "gic_forwarding g \<Longrightarrow> gic_forwarding (g\<lparr>g_line := (g_line g)(30 := l)\<rparr>)"
  by (auto simp: gic_forwarding_def timer_only_def gic_pending_def)

lemma gic_forwarding_signal: "gic_forwarding g \<Longrightarrow> gic_signal g = (if g_line g 30 then Some 30 else None)"
  by (simp add: gic_forwarding_def timer_only_signal gic_pending_def)

lemma take_timer_irq:
  assumes dev: "gic_device qemu b view" and ok: "platform_ok L view interval p"
    and line: "g_line (view (p_device p)) 30" and fits: "unat (cntpct_el0 (p_timer p)) + interval < 2 ^ 64"
  shows "\<exists>p'. take_platform_irq (irq_handler qemu b rr_ops now checks) p = Inr p' \<and> platform_ok L view interval p' \<and>
    platform_abs L p' = \<lparr>ts_order = rotate1 (ts_order (platform_abs L p)), ts_regs = ts_regs (platform_abs L p),
      ts_deadline = unat (cntpct_el0 (p_timer p)) + interval\<rparr>"
proof -
  note ok' = ok [unfolded platform_ok_def]
  have gic: "gic_forwarding (view (p_device p))" using ok' by simp
  obtain w' c n where w': "timer_irq (handle_irq_preemption rr_ops now) (p_kernel p) = Inr w'" "kernel_running L w'"
    "thread_regs w' = thread_regs (p_kernel p)" "current (p_kernel p) = Some c" "current w' = Some n"
    "n # level_waiting L w' = rotate1 (c # level_waiting L (p_kernel p))"
    by (rule kernel_running_tick [of L "p_kernel p" now]) (use ok' in \<open>auto intro: that\<close>)
  obtain t where t: "setup_preemption_timer checks 1000 (mask_timer (p_timer p)) = Inr (True, t)"
    "timer_running interval t" "unat (cntp_cval_el0 t) = unat (cntpct_el0 (p_timer p)) + interval"
    by (rule timer_running_rearm [of interval "p_timer p" checks]) (use ok' fits in \<open>auto intro: that\<close>)
  obtain d1 where d1: "acknowledge_interrupt qemu b (p_device p) = (TIMER_IRQ, d1)"
    "view (end_interrupt qemu b TIMER_IRQ d1) =
      (view (p_device p))\<lparr>g_latch := (g_latch (view (p_device p)))(30 := False)\<rparr>"
    by (rule timer_acknowledged [OF dev _ _ line]) (use gic in \<open>auto simp: gic_forwarding_def intro: that\<close>)
  define p1 where "p1 = p\<lparr>p_timer := t, p_device := end_interrupt qemu b TIMER_IRQ d1\<rparr>"
  have "\<exists>p'. take_platform_irq (irq_handler qemu b rr_ops now checks) p = Inr (p'\<lparr>p_kernel := w'\<rparr>) \<and> p' = p1"
  proof (rule take_platform_irq_kernel [OF w'(1)])
    fix w0 w1 :: "(round_robin, 'b) system"
    assume "handle_irq_preemption rr_ops now w0 = Inr w1"
    with irq_handler_timer [of qemu b "p\<lparr>p_kernel := w0\<rparr>" d1 rr_ops now w1 checks True t] d1(1) ok' t(1)
    show "\<exists>p'. irq_handler qemu b rr_ops now checks (p\<lparr>p_kernel := w0\<rparr>) = Inr (p'\<lparr>p_kernel := w1\<rparr>) \<and> p' = p1"
      by (simp add: p1_def)
  qed
  then have run: "take_platform_irq (irq_handler qemu b rr_ops now checks) p = Inr (p1\<lparr>p_kernel := w'\<rparr>)" by simp
  have "gic_forwarding (view (p_device p1))"
    using gic by (auto simp: p1_def d1(2) gic_forwarding_def timer_only_def gic_pending_def)
  then have "platform_ok L view interval (p1\<lparr>p_kernel := w'\<rparr>)"
    using w'(2) t(2) ok' by (simp add: platform_ok_def p1_def)
  moreover have "platform_abs L (p1\<lparr>p_kernel := w'\<rparr>) =
      \<lparr>ts_order = rotate1 (ts_order (platform_abs L p)), ts_regs = ts_regs (platform_abs L p),
       ts_deadline = unat (cntpct_el0 (p_timer p)) + interval\<rparr>"
    using w'(3-6) t(3) by (simp add: platform_abs_def p1_def)
  ultimately show ?thesis using run by blast
qed

text \<open>A controller that forwards nothing or has nothing enabled, as it is after reset.\<close>

definition gic_silent :: "gic \<Rightarrow> bool" where
  "gic_silent g \<longleftrightarrow> \<not> bit (g_ctlr g) 0 \<or> \<not> bit (g_cpu_ctlr g) 0 \<or> (\<forall>i. \<not> g_enabled g i)"

lemma gic_silent_signal: "gic_silent g \<Longrightarrow> gic_signal g = None"
  using best_None [of g "[0..<1020]"] by (auto simp: gic_silent_def gic_signal_def gic_highest_def eligible_def)

section \<open>Refinement\<close>

text \<open>
  A bus with a GICv2 behind it whose input 30 is driven by the timer, as the generic timer of these
  processors is wired.
\<close>

locale timer_wiring = gic_device qemu b view
  for qemu :: bool and b :: "'d bus" and view :: "'d \<Rightarrow> gic" +
  fixes wire :: "bool \<Rightarrow> 'd \<Rightarrow> 'd"
  assumes wire_law: "view (wire l d) = (view d)\<lparr>g_line := (g_line (view d))(30 := l)\<rparr>"
begin

lemma slice_refines:
  assumes ok: "platform_ok L view interval p" and fits: "unat (sl_count s) + interval < 2 ^ 64"
  shows "\<exists>p'. platform_slice qemu b view wire checks s p = Inr p' \<and> platform_ok L view interval p' \<and>
    platform_abs L p' = timeslicer_step interval s (platform_abs L p)"
proof -
  define p1 where "p1 = slice_end wire s p"
  have p1: "p_kernel p1 = with_registers (sl_regs s) (p_kernel p)" "p_registered p1 = p_registered p"
    "p_timer p1 = (p_timer p)\<lparr>cntpct_el0 := sl_count s\<rparr>"
    "view (p_device p1) = (view (p_device p))\<lparr>g_line := (g_line (view (p_device p)))(30 := timer_line (p_timer p1))\<rparr>"
    by (simp_all add: p1_def slice_end_def Let_def wire_law)
  note ok' = ok [unfolded platform_ok_def]
  obtain c where c: "current (p_kernel p) = Some c" using ok' by (auto simp: kernel_running_def top_level_def)
  have t1: "timer_running interval (p_timer p1)"
    using ok' by (simp add: p1 timer_running_def tick_interval_def)
  have ok1: "platform_ok L view interval p1"
    using ok' gic_forwarding_line t1 by (simp add: platform_ok_def p1)
  have abs1: "platform_abs L p1 = (platform_abs L p)\<lparr>ts_regs := (ts_regs (platform_abs L p))(c := sl_regs s)\<rparr>"
    using c by (simp add: platform_abs_def p1 thread_regs_user [OF c])
  have line: "g_line (view (p_device p1)) 30 \<longleftrightarrow> ts_deadline (platform_abs L p) \<le> unat (sl_count s)"
    using timer_running_line [OF t1] by (simp add: p1 platform_abs_def)
  have sig: "gic_signal (view (p_device p1)) \<noteq> None \<longleftrightarrow> g_line (view (p_device p1)) 30"
    using gic_forwarding_signal [of "view (p_device p1)"] ok1 by (simp add: platform_ok_def)
  have mask: "interrupts_enabled (p_kernel p1) \<longleftrightarrow> unmasked (sl_regs s)"
    by (simp add: p1 interrupts_enabled_def unmasked_def)
  have hd: "hd (ts_order (platform_abs L p)) = c" using c by (simp add: platform_abs_def)
  show ?thesis
  proof (cases "ts_deadline (platform_abs L p) \<le> unat (sl_count s) \<and> unmasked (sl_regs s)")
    case True
    then have "platform_slice qemu b view wire checks s p =
        take_platform_irq (irq_handler qemu b rr_ops (sl_now s) checks) p1"
      using sig mask line by (simp add: platform_slice_def p1_def [symmetric] Let_def)
    moreover have "\<exists>p'. take_platform_irq (irq_handler qemu b rr_ops (sl_now s) checks) p1 = Inr p' \<and>
        platform_ok L view interval p' \<and> platform_abs L p' = \<lparr>ts_order = rotate1 (ts_order (platform_abs L p1)),
          ts_regs = ts_regs (platform_abs L p1), ts_deadline = unat (cntpct_el0 (p_timer p1)) + interval\<rparr>"
      using True line fits by (intro take_timer_irq [OF gic_device_axioms ok1]) (simp_all add: p1(3))
    ultimately show ?thesis using True by (simp add: timeslicer_step_def hd abs1 p1(3) Let_def)
  next
    case False
    then have "platform_slice qemu b view wire checks s p = Inr p1"
      using sig mask line by (auto simp: platform_slice_def p1_def [symmetric] Let_def)
    moreover have "timeslicer_step interval s (platform_abs L p) = platform_abs L p1"
      unfolding timeslicer_step_def hd abs1 Let_def using False by (rule if_not_P)
    ultimately show ?thesis using ok1 by simp
  qed
qed

sublocale timeslicing: simulation "platform_slice qemu b view wire checks" "timeslicer_step interval"
  "platform_ok L view interval" "\<lambda>s. unat (sl_count s) + interval < 2 ^ 64" "platform_abs L"
  for checks interval L
  by unfold_locales (rule slice_refines)

lemma slices_refine:
  assumes "platform_ok L view interval p" "list_all (\<lambda>s. unat (sl_count s) + interval < 2 ^ 64) ss"
  shows "\<exists>p'. run_steps (platform_slice qemu b view wire checks) ss p = Inr p' \<and> platform_ok L view interval p' \<and>
    platform_abs L p' = fold (timeslicer_step interval) ss (platform_abs L p)"
  by (rule timeslicing.run_refines [OF assms])

text \<open>Behind a controller that lets nothing through, only the registers of the running thread ever change.\<close>

lemma silent_slice:
  assumes "gic_silent (view (p_device p)) \<and> current (p_kernel p) \<noteq> None"
  shows "\<exists>p'. platform_slice qemu b view wire checks s p = Inr p' \<and>
    (gic_silent (view (p_device p')) \<and> current (p_kernel p') \<noteq> None) \<and> platform_abs L p' =
      (platform_abs L p)\<lparr>ts_regs := (ts_regs (platform_abs L p))(hd (ts_order (platform_abs L p)) := sl_regs s)\<rparr>"
proof -
  obtain c where c: "current (p_kernel p) = Some c" using assms by blast
  have "gic_silent (view (p_device (slice_end wire s p)))"
    using assms by (simp add: slice_end_def Let_def wire_law gic_silent_def)
  then have "platform_slice qemu b view wire checks s p = Inr (slice_end wire s p)"
    "gic_silent (view (p_device (slice_end wire s p)))"
    by (simp_all add: platform_slice_def Let_def gic_silent_signal)
  with c show ?thesis by (simp add: slice_end_def Let_def platform_abs_def thread_regs_user [OF c])
qed

sublocale silence: simulation "platform_slice qemu b view wire checks"
  "\<lambda>s t. t\<lparr>ts_regs := (ts_regs t)(hd (ts_order t) := sl_regs s)\<rparr>"
  "\<lambda>p. gic_silent (view (p_device p)) \<and> current (p_kernel p) \<noteq> None" "\<lambda>_. True" "platform_abs L"
  for checks L
  by unfold_locales (rule silent_slice)

lemma silent_slices:
  assumes "gic_silent (view (p_device p))" "current (p_kernel p) = Some c"
  shows "\<exists>p'. run_steps (platform_slice qemu b view wire checks) ss p = Inr p' \<and>
    ts_order (platform_abs L p') = ts_order (platform_abs L p) \<and>
    ts_deadline (platform_abs L p') = ts_deadline (platform_abs L p) \<and>
    (\<forall>q. q \<noteq> c \<longrightarrow> ts_regs (platform_abs L p') q = ts_regs (platform_abs L p) q)"
proof -
  let ?step = "\<lambda>s t. t\<lparr>ts_regs := (ts_regs t)(hd (ts_order t) := sl_regs s)\<rparr>"
  have keep: "ts_order (fold ?step ss t) = ts_order t \<and> ts_deadline (fold ?step ss t) = ts_deadline t \<and>
    (\<forall>q. q \<noteq> hd (ts_order t) \<longrightarrow> ts_regs (fold ?step ss t) q = ts_regs t q)" for t
    by (induction ss arbitrary: t) simp_all
  have "hd (ts_order (platform_abs L p)) = c" using assms(2) by (simp add: platform_abs_def)
  with silence.run_refines [of p ss checks L] keep [of "platform_abs L p"] assms
  show ?thesis by (auto simp: list_all_iff)
qed

end

definition gic_wire :: "bool \<Rightarrow> gic \<Rightarrow> gic" where
  "gic_wire l g = g\<lparr>g_line := (g_line g)(30 := l)\<rparr>"

interpretation virt_timer: timer_wiring qemu "gic_bus qemu" "\<lambda>g. g" gic_wire for qemu
  by (rule timer_wiring.intro [OF gic_bus_device]) (simp add: timer_wiring_axioms_def gic_wire_def)

section \<open>Properties\<close>

text \<open>
  C3. Preemptive multithreading.  Let the timer be wired to a GICv2 that passes only it, a round-robin
  kernel be registered and linked, and nobody wait above the level of the running thread.
  Whatever the threads do to the registers, whenever the counter is read, and whether or not
  interrupts are masked, the platform goes through every sequence of slices without failing, and is
  at the end what the abstract machine is after these slices: at each slice whose end finds the
  deadline passed and interrupts unmasked, the running thread goes to the back of the line, the
  next one continues with exactly the registers it had, and the deadline moves one millisecond's
  ticks behind the interrupt; no other event moves a thread or changes another thread's registers.
\<close>

theorem platform_refines_timeslicer:
  assumes "timer_wiring qemu b view wire" "platform_ok L view interval p"
    "list_all (\<lambda>s. unat (sl_count s) + interval < 2 ^ 64) ss"
  shows "\<exists>p'. run_steps (platform_slice qemu b view wire checks) ss p = Inr p' \<and> platform_ok L view interval p' \<and>
    platform_abs L p' = fold (timeslicer_step interval) ss (platform_abs L p)"
  by (rule timer_wiring.slices_refine [OF assms])

definition user_context :: "u64 \<Rightarrow> aarch64_context" where
  "user_context v = \<lparr>c_x = (\<lambda>_. v), c_sp = 0x91000, c_pc = 0x4000, c_pstate = 0x5\<rparr>"

theorem platform_refines_timeslicer_witness:
  "\<exists>(p :: (round_robin, bump_heap, gic) platform) p'. ts_order (platform_abs High p) = [1, 2] \<and>
     run_steps (platform_slice True (gic_bus True) (\<lambda>g. g) gic_wire True)
       [Slice (user_context 7) 1000 (Instant 0), Slice (user_context 8) 90000 (Instant 1),
        Slice (user_context 9) 160000 (Instant 2)] p = Inr p' \<and>
     ts_order (platform_abs High p') = [1, 2] \<and> ts_regs (platform_abs High p') 1 = user_context 8 \<and>
     ts_regs (platform_abs High p') 2 = user_context 9"
proof (rule mixed_kernel_run)
  fix w :: "(round_robin, bump_heap) system"
  assume i: "kernel_inv rr1_ready rr1_ok w" "control_ok w" "irq_linked w"
    and w: "current w = Some 1" "s_threads w = mixed_threads"
    and lw: "\<And>l. level_waiting l w = (case l of High \<Rightarrow> [2] | Normal \<Rightarrow> [3] | _ \<Rightarrow> [])"
  let ?ss = "[Slice (user_context 7) 1000 (Instant 0), Slice (user_context 8) 90000 (Instant 1),
    Slice (user_context 9) 160000 (Instant 2)]"
  have "priority_level_of 200 = High" by (simp add: priority_level_of_def)
  then have top: "top_level High w 1"
    using w mixed_threads_live(2) by (auto simp: top_level_def lw levels_above_def thread_level_def)
  define p :: "(round_robin, bump_heap, gic) platform" where
    "p = \<lparr>p_kernel = w, p_registered = Some RoundRobin,
       p_timer = (arch_init example_timer)\<lparr>cntp_cval_el0 := 63500\<rparr>,
       p_device = running_gic\<lparr>g_latch := \<lambda>_. False\<rparr>, p_vbar_el1 = 0x80800\<rparr>"
  have "timer_running 62500 (p_timer p)"
    by (simp add: p_def timer_running_def tick_interval_def arch_init_def example_timer_def)
  moreover have "gic_forwarding (p_device p)"
    using running_gic_ok by (auto simp: p_def gic_forwarding_def timer_only_def gic_pending_def)
  ultimately have ok: "platform_ok High (\<lambda>g. g) 62500 p"
    using i top by (auto simp: platform_ok_def kernel_running_def p_def)
  have fits: "list_all (\<lambda>s. unat (sl_count s) + 62500 < 2 ^ 64) ?ss" by simp
  have abs: "ts_order (platform_abs High p) = [1, 2]" "ts_deadline (platform_abs High p) = 63500"
    using w(1) by (simp_all add: platform_abs_def p_def lw)
  have un: "unmasked (user_context v)" for v by (simp add: unmasked_def user_context_def IRQ_BIT_def)
  from platform_refines_timeslicer [OF virt_timer.timer_wiring_axioms ok fits, of True True] obtain p' where
    "run_steps (platform_slice True (gic_bus True) (\<lambda>g. g) gic_wire True) ?ss p = Inr p'"
    "platform_abs High p' = fold (timeslicer_step 62500) ?ss (platform_abs High p)" by blast
  with abs un show ?thesis
    by (intro exI [of _ p] exI [of _ p']) (simp add: timeslicer_step_def Let_def del: run_steps.simps)
qed

end
