(* ===== verification/Preemptive_Example.thy ===== *)
theory Preemptive_Example
  imports Preemptive_Platform Example_Kernels
begin

text \<open>
  The preemptive example \<open>rpi_kernel.rs\<close> as a whole: from the boot code through \<open>kernel_main\<close> to its three
  threads taking turns under the timer.  Built for the QEMU machine it does what it is meant to; built
  for the Raspberry Pi the boot code leaves the interrupt controller alone, and nothing is ever
  preempted.
\<close>

section \<open>Starting\<close>

lemma rr_enqueued:
  assumes "rr1_ok s" "enqueued rr_ops ps s s'"
  shows "rr1_ok s' \<and> (\<forall>l. cq_list l (run_queues s' ! 0) =
    (if l = Normal then cq_list l (run_queues s ! 0) @ ps else cq_list l (run_queues s ! 0)))"
  using assms
proof (induction ps arbitrary: s)
  case (Cons p ps)
  then obtain st s1 where s1: "arc_live st p" "t_priority (arc_val st p) = 128" "so_enqueue rr_ops p s st = Inr s1"
    "enqueued rr_ops ps s1 s'" by auto
  have "priority_level_of 128 = Normal" by (simp add: priority_level_of_def)
  with rr1_enqueue_run [OF Cons.prems(1) s1(1)] s1(2,3) have
    "rr1_ok s1" "\<And>l. cq_list l (run_queues s1 ! 0) =
      (if l = Normal then cq_list l (run_queues s ! 0) @ [p] else cq_list l (run_queues s ! 0))"
    by (auto simp: rr_ops_def)
  with Cons.IH [OF this(1) s1(4)] show ?case by auto
qed simp

lemma start_picks:
  assumes "start_first_thread ops now w = Inr (Switched, w')"
  shows "\<exists>n. so_pick_next ops 0 (k_scheduler w) (s_threads w) = Inr (Some n, k_scheduler w')"
  using assms unfolding start_first_thread_def Let_def
  by (auto simp: rbind_eq_Inr set_current_irq_context_def split: prod.splits option.splits if_splits)

text \<open>Three threads of the same priority, spawned and started.\<close>

lemma rr_start_three:
  assumes h: "bump_ok h" "boot_machine m" "3 \<le> room" "Suc room < 2 ^ 64"
    and stacks: "stacks_available (bump_alloc []) 3 h new_stack_pool"
  obtains w1 w2 w3 where
    "kernel_init (kernel_new (rr_new weak 1) (arc_empty room ws) h m) = (True, w1)"
    "spawn_all rr_ops (bump_alloc []) tr ef [c1, c2, c3] w1 = Inr w2"
    "start_first_thread rr_ops now w2 = Inr (Switched, w3)"
    "kernel_running Normal w3" "current w3 = Some 1" "level_waiting Normal w3 = [2, 3]"
    "\<And>q. q \<in> {1, 2, 3} \<Longrightarrow> c_pc (thread_regs w3 q) = tr \<and> c_x (thread_regs w3 q) 0 = [c1, c2, c3] ! (q - 1)"
proof -
  have len: "length [c1, c2, c3] = 3" by simp
  have cs: "length [c1, c2, c3] \<le> room" "stacks_available (bump_alloc []) (length [c1, c2, c3]) h new_stack_pool"
    unfolding len using h(3) stacks by simp_all
  obtain w1 w2 where w:
    "kernel_init (kernel_new (rr_new weak 1) (arc_empty room ws) h m) = (True, w1)"
    "spawn_all rr_ops (bump_alloc []) tr ef [c1, c2, c3] w1 = Inr w2"
    "system_inv rr1_ready rr1_ok bump_taken bump_ok w2" "k_initialized w2" "current w2 = None"
    "enqueued rr_ops [1..<Suc (length [c1, c2, c3])] (rr_new weak 1) (k_scheduler w2)"
    "\<And>i. i < length [c1, c2, c3] \<Longrightarrow> spawned_thread tr ([c1, c2, c3] ! i) (arc_val (s_threads w2) (Suc i))"
    by (rule rr_kernel.application_spawns [OF rr1_ok_new h(1,2) cs(1) h(4) cs(2), where tr = tr and ef = ef])
      (rule that; assumption)
  have i: "kernel_inv rr1_ready rr1_ok w2" "control_ok w2" using w(3) by (auto simp: system_inv_def)
  have e: "cq_list l (run_queues (rr_new weak 1) ! 0) = []" for l
    using rr1_ok_new(2) [of weak] by (cases l) (simp_all add: rr1_ready_def cq_ready_def)
  have ids: "[1..<Suc (length [c1, c2, c3])] = [1, 2, 3]" by (simp add: upt_rec numeral_2_eq_2 numeral_3_eq_3)
  have q: "rr1_ok (k_scheduler w2)" "\<And>l. cq_list l (run_queues (k_scheduler w2) ! 0) = (if l = Normal then [1, 2, 3] else [])"
    using rr_enqueued [OF rr1_ok_new(1) w(6) [unfolded ids]] by (simp_all add: e [unfolded One_nat_def])
  then have r: "rr1_ready (k_scheduler w2) = 1 # [2, 3]" by (simp add: rr1_ready_def cq_ready_def)
  obtain w3 where w3: "start_first_thread rr_ops now w2 = Inr (Switched, w3)" "kernel_inv rr1_ready rr1_ok w3"
    "current w3 = Some 1" "same_threads (s_threads w2) (s_threads w3)"
    "\<And>q. t_context (arc_val (s_threads w3) q) = t_context (arc_val (s_threads w2) q)"
    "s_machine w3 = (s_machine w2)\<lparr>m_exec := 1, m_save := 1, m_load := 1, m_live := switch_load
      (m_value (t_context (arc_val (s_threads w2) 1))) (m_live (s_machine (disable_interrupts w2)))\<rparr>"
    by (rule rr1.start_run [OF i(1) w(5,4) r, where now = now]) (rule that; assumption)
  obtain n where n: "rr_pick_next 0 (k_scheduler w2) (s_threads w2) = Inr (Some n, k_scheduler w3)"
    using start_picks [OF w3(1)] by (auto simp: rr_ops_def)
  have top: "cq_list Normal (run_queues (k_scheduler w2) ! 0) = 1 # [2, 3]"
    "\<forall>l \<in> set (levels_above Normal). cq_list l (run_queues (k_scheduler w2) ! 0) = []"
    "distinct (rr1_ready (k_scheduler w2))" using q(2) r by (auto simp: levels_above_def)
  have lists: "level_waiting l w3 = (if l = Normal then [2, 3] else [])" for l
    using rr1_pick_top [OF q(1) top(3,2,1) n] q(2) by (auto simp: level_waiting_def)
  have pr: "spawned_thread tr ([c1, c2, c3] ! (q - 1)) (arc_val (s_threads w2) q)" if "q \<in> {1, 2, 3}" for q
    using w(7) [of "q - 1"] that by (auto simp: numeral_2_eq_2 numeral_3_eq_3)
  have "arc_live (s_threads w2) q" if "q \<in> {1, 2, 3}" for q
    using kernel_invD(8) [OF i(1), of q] r that by auto
  then have lvl: "thread_level (s_threads w3) q = Normal" if "q \<in> {1, 2, 3}" for q
    using same_threads_level [OF w3(4), of q] pr [OF that] that
    by (auto simp: thread_level_def spawned_thread_def priority_level_of_def)
  have "top_level Normal w3 1" using w3(3) lvl by (auto simp: top_level_def lists levels_above_def)
  moreover have "irq_linked w3" using w3(3,6) by (simp add: irq_linked_def)
  moreover have "control_ok w3" using rr1.start_step [OF i w3(1)] by (simp add: good_step_def)
  ultimately have "kernel_running Normal w3" using w3(2) by (auto simp: kernel_running_def)
  moreover have "c_pc (thread_regs w3 q) = tr \<and> c_x (thread_regs w3 q) 0 = [c1, c2, c3] ! (q - 1)" if "q \<in> {1, 2, 3}" for q
    using pr [OF that] w3(3,5,6) by (auto simp: thread_regs_def spawned_thread_def switch_load_def initial_context_def)
  ultimately show thesis using w(1,2) w3(1,3) lists by (intro that [of w1 w2 w3]) simp_all
qed

section \<open>Booting\<close>

text \<open>The controller as the boot code of the QEMU build leaves it.\<close>

definition gic_usable :: "gic \<Rightarrow> bool" where
  "gic_usable g \<longleftrightarrow> g_impl g AND 0xF0 = 0xF0 \<and> (\<forall>i. g_priority g i AND g_impl g = g_priority g i) \<and>
     (\<forall>i \<ge> irq_count g. \<not> gic_pending g i) \<and> g_active g = [] \<and> g_typer g \<notin> {0, 0xFFFFFFFF}"

lemma gic_boots:
  assumes "gic_device qemu b view" "gic_usable (view d)"
  obtains d' where "gic_module_init qemu b d = (True, d')" "gic_forwarding (view d')"
proof -
  obtain ok d' where run: "gic_module_init qemu b d = (ok, d')" by fastforce
  note g = assms(2) [unfolded gic_usable_def]
  have out: "ok" "timer_only (view d')" "g_active (view d') = []"
    using module_init_outcome [OF assms(1) run] g by auto
  have v: "view d' = (gic_configured (view d))\<lparr>
      g_priority := (g_priority (gic_configured (view d)))(30 := 0x80),
      g_enabled := (g_enabled (gic_configured (view d)))(30 := True)\<rparr>"
    using gic_device.module_init_view [OF assms(1) _ run] g by auto
  have "30 < irq_count (view d)" by (simp add: irq_count_def)
  then have "\<not> g_latch (view d') 30" by (simp add: v gic_configured_def)
  with out run show thesis by (intro that [of d']) (simp_all add: gic_forwarding_def)
qed

text \<open>The machine before the boot code runs: a fresh kernel with room for the threads, and a counter.\<close>

definition boot_ready :: "(round_robin, bump_heap, 'd) platform \<Rightarrow> bool" where
  "boot_ready p \<longleftrightarrow> (\<exists>weak room ws h m. p_kernel p = kernel_new (rr_new weak 1) (arc_empty room ws) h m \<and>
     bump_ok h \<and> boot_machine m \<and> 3 \<le> room \<and> Suc room < 2 ^ 64 \<and>
     stacks_available (bump_alloc []) 3 h new_stack_pool) \<and>
   cntfrq_el0 (p_timer p) \<noteq> 0 \<and> unat (cntfrq_el0 (p_timer p)) * 1000 < 2 ^ 64 \<and>
   unat (cntpct_el0 (p_timer p)) + unat (cntfrq_el0 (p_timer p)) * 1000 div 1000000 < 2 ^ 64"

lemma platform_update_swap:
  "p\<lparr>p_vbar_el1 := v, p_device := d, p_timer := t\<rparr> = p\<lparr>p_vbar_el1 := v, p_timer := t, p_device := d\<rparr>"
  by (cases p) simp

lemma rpi_main_starts:
  assumes uart: "uart_device qemu b sent busy" "beside_uart qemu b view" and p: "boot_ready p"
  defines "interval \<equiv> unat (cntfrq_el0 (p_timer p)) * 1000 div 1000000"
  obtains p' where "rpi_kernel_main qemu b (bump_alloc []) tr ef (c1, c2, c3) now checks
      (p\<lparr>p_timer := arch_init (p_timer p), p_device := d\<rparr>) = Inr p'"
    "kernel_running Normal (p_kernel p')" "p_registered p' = Some RoundRobin" "timer_running interval (p_timer p')"
    "view (p_device p') = view d"
    "ts_order (platform_abs Normal p') = [1, 2, 3]"
    "ts_deadline (platform_abs Normal p') = unat (cntpct_el0 (p_timer p)) + interval"
    "\<And>q. q \<in> {1, 2, 3} \<Longrightarrow> c_pc (ts_regs (platform_abs Normal p') q) = tr \<and>
      c_x (ts_regs (platform_abs Normal p') q) 0 = [c1, c2, c3] ! (q - 1)"
proof -
  obtain weak room ws h m where k: "p_kernel p = kernel_new (rr_new weak 1) (arc_empty room ws) h m" "bump_ok h"
    "boot_machine m" "3 \<le> room" "Suc room < 2 ^ 64" "stacks_available (bump_alloc []) 3 h new_stack_pool"
    using p by (auto simp: boot_ready_def)
  obtain w1 w2 w3 where w: "kernel_init (kernel_new (rr_new weak 1) (arc_empty room ws) h m) = (True, w1)"
    "spawn_all rr_ops (bump_alloc []) tr ef [c1, c2, c3] w1 = Inr w2"
    "start_first_thread rr_ops now w2 = Inr (Switched, w3)"
    "kernel_running Normal w3" "current w3 = Some 1" "level_waiting Normal w3 = [2, 3]"
    "\<And>q. q \<in> {1, 2, 3} \<Longrightarrow> c_pc (thread_regs w3 q) = tr \<and> c_x (thread_regs w3 q) 0 = [c1, c2, c3] ! (q - 1)"
    by (rule rr_start_three [OF k(2-6), where weak = weak and ws = ws and tr = tr and ef = ef and now = now])
      (rule that; assumption)
  define t0 where "t0 = arch_init (p_timer p)"
  have us: "unat (1000 :: u32) = 1000" by simp
  obtain t where t: "setup_preemption_timer checks 1000 t0 = Inr (True, t)"
    "unat (cntp_cval_el0 t) = unat (cntpct_el0 (p_timer p)) + interval"
    "t = t0\<lparr>cntp_cval_el0 := cntp_cval_el0 t, cntp_ctl_el0 := 1\<rparr>"
    using setup_timer_fits [of t0 1000 checks] p unfolding us
    by (auto simp: t0_def arch_init_def boot_ready_def interval_def)
  have "timer_running interval t"
    using p by (subst t(3)) (simp add: timer_running_def tick_interval_def t0_def arch_init_def boot_ready_def interval_def)
  moreover obtain e where e: "rpi_kernel_main qemu b (bump_alloc []) tr ef (c1, c2, c3) now checks
      (p\<lparr>p_timer := t0, p_device := d\<rparr>) =
      Inr (p\<lparr>p_kernel := w3, p_registered := Some RoundRobin, p_timer := t, p_device := e\<rparr>)" "view e = view d"
    using rpi_main_run [OF uart, of "p\<lparr>p_timer := t0, p_device := d\<rparr>"] w(1-3) k(1) t(1)
    unfolding printed_def by force
  ultimately show thesis
    using w(4-7) t(2) by (intro that [OF e(1) [unfolded t0_def]]) (simp_all add: platform_abs_def)
qed

section \<open>A complete machine\<close>

text \<open>The controller and the UART on one bus, at the addresses the two machines have them at.\<close>

definition soc_bus :: "bool \<Rightarrow> (gic \<times> uart) bus" where
  "soc_bus qemu =
     \<lparr>read_volatile = (\<lambda>a (g, u).
        if a \<in> uart_addresses qemu then map_prod id (Pair g) (read_volatile (uart_bus qemu) a u)
        else map_prod id (\<lambda>g'. (g', u)) (read_volatile (gic_bus qemu) a g)),
      write_volatile = (\<lambda>a v (g, u).
        if a \<in> uart_addresses qemu then (g, write_volatile (uart_bus qemu) a v u)
        else (write_volatile (gic_bus qemu) a v g, u))\<rparr>"

definition soc_wire :: "bool \<Rightarrow> gic \<times> uart \<Rightarrow> gic \<times> uart" where
  "soc_wire l = map_prod (gic_wire l) id"

lemma uart_apart:
  assumes "off < 0x1000"
  shows "GICD_BASE qemu + of_nat off \<notin> uart_addresses qemu" "GICC_BASE qemu + of_nat off \<notin> uart_addresses qemu"
proof -
  have "a \<in> uart_addresses qemu \<Longrightarrow> unat a \<in> {0x09000000..0x09000044} \<union> {0x3F200000..0x3F201044}" for a
    by (auto simp: uart_addresses_def uart_registers split: if_splits)
  from this [of "GICD_BASE qemu + of_nat off"] this [of "GICC_BASE qemu + of_nat off"] assms
  show "GICD_BASE qemu + of_nat off \<notin> uart_addresses qemu" "GICC_BASE qemu + of_nat off \<notin> uart_addresses qemu"
    by (auto simp: unat_gic_addr unat_gic_base split: if_splits)
qed

lemma soc_gic: "gic_device qemu (soc_bus qemu) fst"
  by unfold_locales
    (auto simp: soc_bus_def uart_apart gicd_access gicc_access gic_registers_small map_prod_def
      split: prod.splits)

interpretation soc: timer_wiring qemu "soc_bus qemu" fst soc_wire for qemu
  by (rule timer_wiring.intro [OF soc_gic]) (simp add: timer_wiring_axioms_def soc_wire_def gic_wire_def)

interpretation soc_uart: uart_device qemu "soc_bus qemu" "\<lambda>d. u_line (snd d) @ u_fifo (snd d)"
  "\<lambda>d. length (u_fifo (snd d)) - 15" for qemu
  by unfold_locales (auto simp: soc_bus_def uart_bus_def uart_addresses_def bit_simps split: if_splits)

lemma soc_beside: "beside_uart qemu (soc_bus qemu) fst"
  by (auto simp: beside_uart_def soc_bus_def)

definition soc_platform :: "gic \<Rightarrow> (round_robin, bump_heap, gic \<times> uart) platform" where
  "soc_platform g = \<lparr>p_kernel = kernel_new (rr_new (\<lambda>i l. []) 1) (arc_empty 5 []) boot_heap reset_machine,
     p_registered = None, p_timer = example_timer, p_device = (g, \<lparr>u_line = [], u_fifo = []\<rparr>), p_vbar_el1 = 0\<rparr>"

lemma soc_platform_ready: "boot_ready (soc_platform g)"
  using boot_heap_ok reset_machine_boot boot_heap_stacks
  by (auto simp: boot_ready_def soc_platform_def example_timer_def intro!: exI)

section \<open>Properties\<close>



text \<open>
  C18. The same program built for the Raspberry Pi, as the README and the example's own instructions say
  to.  The boot code initialises the interrupt controller only in the QEMU build, and the example does not
  do it either, so a controller that passes no interrupt at reset still passes none.  Boot and
  \<open>kernel_main\<close> succeed, but then the first thread keeps the processor whatever the timer does: after any
  number of slices it is still running, the deadline has not moved, and the other two have not executed an
  instruction.
\<close>

theorem rpi_build_never_preempts:
  assumes wiring: "timer_wiring False b view wire"
    and uart: "uart_device False b sent busy" "beside_uart False b view"
    and p: "boot_ready p" and gic: "gic_silent (view (p_device p))"
  shows "\<exists>p1. boot_rust False b vec (rpi_kernel_main False b (bump_alloc []) tr ef (c1, c2, c3) now checks) p = Inr p1 \<and>
    (\<forall>ss. \<exists>p'. run_steps (platform_slice False b view wire checks) ss p1 = Inr p' \<and>
      ts_order (platform_abs Normal p') = [1, 2, 3] \<and>
      ts_deadline (platform_abs Normal p') =
        unat (cntpct_el0 (p_timer p)) + unat (cntfrq_el0 (p_timer p)) * 1000 div 1000000 \<and>
      (\<forall>q \<in> {2, 3}. c_pc (ts_regs (platform_abs Normal p') q) = tr \<and>
        c_x (ts_regs (platform_abs Normal p') q) 0 = [c1, c2, c3] ! (q - 1)))"
proof -
  let ?i = "unat (cntfrq_el0 (p_timer p)) * 1000 div 1000000" and ?p = "p\<lparr>p_vbar_el1 := vec\<rparr>"
  have ready: "boot_ready ?p" using p by (simp add: boot_ready_def)
  obtain p1 where p1: "rpi_kernel_main False b (bump_alloc []) tr ef (c1, c2, c3) now checks
      (?p\<lparr>p_timer := arch_init (p_timer ?p), p_device := p_device p\<rparr>) = Inr p1"
    "view (p_device p1) = view (p_device p)" "ts_order (platform_abs Normal p1) = [1, 2, 3]"
    "ts_deadline (platform_abs Normal p1) = unat (cntpct_el0 (p_timer p)) + ?i"
    "\<And>q. q \<in> {1, 2, 3} \<Longrightarrow> c_pc (ts_regs (platform_abs Normal p1) q) = tr \<and>
      c_x (ts_regs (platform_abs Normal p1) q) 0 = [c1, c2, c3] ! (q - 1)"
    by (rule rpi_main_starts [OF uart ready, where d = "p_device p" and tr = tr and ef = ef and ?c1.0 = c1
          and ?c2.0 = c2 and ?c3.0 = c3 and now = now and checks = checks, simplified]) (rule that; simp)
  have "boot_rust False b vec (rpi_kernel_main False b (bump_alloc []) tr ef (c1, c2, c3) now checks) p = Inr p1"
    using p1(1) by (simp add: boot_rust_def install_vector_table_def Let_def)
  moreover have c: "current (p_kernel p1) = Some 1"
    using p1(3) by (auto simp: platform_abs_def split: option.splits)
  have "gic_silent (view (p_device p1))" using gic p1(2) by simp
  note run = timer_wiring.silent_slices [OF wiring this c, of checks _ Normal]
  have "\<exists>p'. run_steps (platform_slice False b view wire checks) ss p1 = Inr p' \<and>
      ts_order (platform_abs Normal p') = [1, 2, 3] \<and>
      ts_deadline (platform_abs Normal p') = unat (cntpct_el0 (p_timer p)) + ?i \<and>
      (\<forall>q \<in> {2, 3}. c_pc (ts_regs (platform_abs Normal p') q) = tr \<and>
        c_x (ts_regs (platform_abs Normal p') q) 0 = [c1, c2, c3] ! (q - 1))" for ss
  proof -
    obtain p' where p': "run_steps (platform_slice False b view wire checks) ss p1 = Inr p'"
      "ts_order (platform_abs Normal p') = ts_order (platform_abs Normal p1)"
      "ts_deadline (platform_abs Normal p') = ts_deadline (platform_abs Normal p1)"
      "\<And>q. q \<noteq> 1 \<Longrightarrow> ts_regs (platform_abs Normal p') q = ts_regs (platform_abs Normal p1) q"
      using run [of ss] by blast
    with p1(3-5) show ?thesis by (intro exI [of _ p']) simp
  qed
  ultimately show ?thesis by blast
qed

theorem rpi_build_never_preempts_witness:
  "\<exists>p1 p'. boot_rust False (soc_bus False) 0x80800 (rpi_kernel_main False (soc_bus False) (bump_alloc []) 0x8000 0x9000
      (1, 2, 3) (Instant 0) True) (soc_platform example_gic) = Inr p1 \<and>
    run_steps (platform_slice False (soc_bus False) fst soc_wire True)
      [Slice (user_context 7) 63500 (Instant 0), Slice (user_context 8) 126000 (Instant 1)] p1 = Inr p' \<and>
    ts_order (platform_abs Normal p') = [1, 2, 3]"
proof -
  have "gic_silent (fst (p_device (soc_platform example_gic)))"
    by (simp add: gic_silent_def soc_platform_def example_gic_def)
  from rpi_build_never_preempts [OF soc.timer_wiring_axioms soc_uart.uart_device_axioms soc_beside soc_platform_ready this,
      of "0x80800" "0x8000" "0x9000" 1 2 3 "Instant 0" True]
  show ?thesis by blast
qed

end
