(* ===== verification/Concurrent_Spawn.thy ===== *)
theory Concurrent_Spawn
  imports Preemptive_Example
begin

text \<open>
  Spawning under preemption.  \<open>spawn\<close> and \<open>spawn_fn\<close> run with interrupts enabled, so a timer interrupt may
  come between any two of their steps and let other threads run, which may be spawning themselves.
  The theory splits the two functions at their calls, lets every thread (and the boot code) be in the
  middle of a spawn, and shows what no interleaving of these steps breaks.  The calls themselves are
  whole steps here; \<open>Queue_Interleaving\<close> goes inside the last of them.
\<close>

section \<open>Spawning in steps\<close>

record spawn_request =
  rq_class :: stack_size_class
  rq_entry :: usize
  rq_start :: usize
  rq_arg :: usize
  rq_priority :: u8

text \<open>How far a call has got, with the local variables that are still needed.\<close>

datatype spawn_progress =
    Requested spawn_request
  | HasStack spawn_request stack
  | HasId spawn_request stack usize
  | HasThread spawn_request usize ptr ptr
  | HasContext ptr ptr
  | Spawned "spawn_error + ptr"

fun spawn_stage ::
  "'s scheduler_ops \<Rightarrow> ('h \<Rightarrow> usize \<Rightarrow> usize \<Rightarrow> u64 \<times> 'h) \<Rightarrow> spawn_progress \<Rightarrow>
   ('s, 'h) system \<Rightarrow> (spawn_progress \<times> ('s, 'h) system) res" where
  "spawn_stage ops alloc (Requested r) w =
     (if \<not> k_initialized w then Inr (Spawned (Inl Spawn_NotInitialized), w)
      else
        (case pool_allocate alloc (s_heap w) (k_stack_pool w) (rq_class r) of
           (None, pool, h) \<Rightarrow> Inr (Spawned (Inl Spawn_OutOfMemory), w\<lparr>k_stack_pool := pool, s_heap := h\<rparr>)
         | (Some stk, pool, h) \<Rightarrow> Inr (HasStack r stk, w\<lparr>k_stack_pool := pool, s_heap := h\<rparr>)))"
| "spawn_stage ops alloc (HasStack r stk) w =
     (case next_thread_id w of (thread_id, w1) \<Rightarrow> Inr (HasId r stk thread_id, w1))"
| "spawn_stage ops alloc (HasId r stk thread_id) w =
     rbind (thread_new thread_id stk (rq_entry r) (rq_priority r) (s_threads w)) (\<lambda>(thread, handle, st).
       Inr (HasThread r (stack_bottom stk) thread handle, w\<lparr>s_threads := st\<rparr>))"
| "spawn_stage ops alloc (HasThread r bottom thread handle) w =
     rbind (setup_initial_context (rq_start r) bottom (rq_arg r) thread (s_threads w)) (\<lambda>st.
       Inr (HasContext thread handle, w\<lparr>s_threads := st\<rparr>))"
| "spawn_stage ops alloc (HasContext thread handle) w =
     rbind (so_enqueue ops thread (k_scheduler w) (s_threads w)) (\<lambda>sched.
       Inr (Spawned (Inr handle), w\<lparr>k_scheduler := sched\<rparr>))"
| "spawn_stage ops alloc (Spawned x) w = Inr (Spawned x, w)"

primrec spawn_stages ::
  "'s scheduler_ops \<Rightarrow> ('h \<Rightarrow> usize \<Rightarrow> usize \<Rightarrow> u64 \<times> 'h) \<Rightarrow> nat \<Rightarrow> spawn_progress \<Rightarrow>
   ('s, 'h) system \<Rightarrow> (spawn_progress \<times> ('s, 'h) system) res" where
  "spawn_stages ops alloc 0 g w = Inr (g, w)"
| "spawn_stages ops alloc (Suc n) g w = rbind (spawn_stage ops alloc g w) (\<lambda>(g', w'). spawn_stages ops alloc n g' w')"

text \<open>Without interruption the five steps are the whole call.\<close>

lemma system_update_swap: "w\<lparr>s_threads := st, k_scheduler := s\<rparr> = w\<lparr>k_scheduler := s, s_threads := st\<rparr>"
  by (cases w) simp

lemma spawn_stages_whole:
  "spawn_stages ops alloc 5 (Requested r) w =
     rbind (spawn_thread ops alloc (rq_class r) (rq_entry r) (rq_start r) (rq_arg r) (rq_priority r) w)
       (\<lambda>(x, w'). Inr (Spawned x, w'))"
  by (simp add: numeral_eq_Suc spawn_thread_def next_thread_id_def Let_def rbind_def system_update_swap
      split: option.split prod.split sum.split)

section \<open>Many threads spawning\<close>

text \<open>
  The kernel with the calls in progress, each with its caller: a thread, or \<open>None\<close> for code that runs
  while no thread is current.  A caller goes on only while it is current; the timer
  interrupt may come at any time, and a thread that is not in the middle of a spawn may make any
  other kernel call.
\<close>

type_synonym calls = "(ptr option \<times> spawn_progress) multiset"

inductive cstep ::
  "'s scheduler_ops \<Rightarrow> ('h \<Rightarrow> usize \<Rightarrow> usize \<Rightarrow> u64 \<times> 'h) \<Rightarrow>
   ('s, 'h) system \<times> calls \<Rightarrow> ('s, 'h) system \<times> calls \<Rightarrow> bool"
  for ops alloc where
  call: "current w \<notin># image_mset fst P \<Longrightarrow> cstep ops alloc (w, P) (w, add_mset (current w, Requested r) P)"
| stage: "spawn_stage ops alloc g w = Inr (g', w') \<Longrightarrow>
    cstep ops alloc (w, add_mset (current w, g) P) (w', add_mset (current w, g') P)"
| return: "cstep ops alloc (w, add_mset (current w, Spawned x) P) (w, P)"
| other: "kstep ops alloc w e w' \<Longrightarrow> (\<And>r. e \<noteq> Spawn r) \<Longrightarrow>
    e = Timer \<or> e = User \<or> current w \<notin># image_mset fst P \<Longrightarrow> cstep ops alloc (w, P) (w', P)"

section \<open>Invariant\<close>

text \<open>What the calls in progress hold: stacks and identifiers without a thread yet, threads not yet queued.\<close>

fun held_stacks :: "spawn_progress \<Rightarrow> stack multiset" where
  "held_stacks (HasStack r stk) = {#stk#}"
| "held_stacks (HasId r stk i) = {#stk#}"
| "held_stacks _ = {#}"

fun held_ids :: "spawn_progress \<Rightarrow> usize multiset" where
  "held_ids (HasId r stk i) = {#i#}"
| "held_ids _ = {#}"

fun held_threads :: "spawn_progress \<Rightarrow> ptr multiset" where
  "held_threads (HasThread r bottom t h) = {#t#}"
| "held_threads (HasContext t h) = {#t#}"
| "held_threads _ = {#}"

definition held :: "(spawn_progress \<Rightarrow> 'a multiset) \<Rightarrow> calls \<Rightarrow> 'a multiset" where
  "held f P = sum_mset (image_mset (\<lambda>x. f (snd x)) P)"

lemma held_add [simp]: "held f {#} = {#}" "held f (add_mset x P) = f (snd x) + held f P"
  by (simp_all add: held_def)

definition thread_ids :: "threads \<Rightarrow> usize multiset" where
  "thread_ids st = {#t_id (arc_val st p). p \<in># mset_set {1..<ah_next st}#}"

definition callers_ok :: "('s, 'h) system \<Rightarrow> calls \<Rightarrow> bool" where
  "callers_ok w P \<longleftrightarrow> image_mset fst P \<subseteq># mset_set (insert None (Some ` {1..<ah_next (s_threads w)}))"

definition supplies_ok :: "('h \<Rightarrow> nat set) \<Rightarrow> ('h \<Rightarrow> bool) \<Rightarrow> ('s, 'h) system \<Rightarrow> calls \<Rightarrow> bool" where
  "supplies_ok taken heap_ok w P \<longleftrightarrow> heap_ok (s_heap w) \<and>
     pool_inv (taken (s_heap w)) (k_stack_pool w) (thread_stacks (s_threads w) + held held_stacks P) \<and>
     (\<forall>p. arc_live (s_threads w) p \<longrightarrow> t_stack (arc_val (s_threads w) p) \<noteq> None) \<and>
     2 * (ah_next (s_threads w) + ah_room (s_threads w)) < 2 ^ 64 \<and>
     k_next_thread_id w = of_nat (ah_next (s_threads w) + size (held held_ids P)) \<and>
     thread_ids (s_threads w) + held held_ids P =
       image_mset of_nat (mset_set {1..<ah_next (s_threads w) + size (held held_ids P)})"

definition newborn_ok :: "('s \<Rightarrow> ptr list) \<Rightarrow> ('s, 'h) system \<Rightarrow> calls \<Rightarrow> bool" where
  "newborn_ok ready w P \<longleftrightarrow>
     (\<forall>p \<in># held held_threads P. thread_in (s_threads w) Ready p \<and> p \<notin># schedulable ready w) \<and>
     (\<forall>p. count (held held_threads P) p \<le> 1) \<and>
     (\<forall>p. arc_live (s_threads w) p \<longrightarrow> p \<in># schedulable ready w \<or> p \<in># held held_threads P \<or>
        thread_in (s_threads w) Finished p)"

definition spawning_inv ::
  "('s \<Rightarrow> ptr list) \<Rightarrow> ('s \<Rightarrow> bool) \<Rightarrow> ('h \<Rightarrow> nat set) \<Rightarrow> ('h \<Rightarrow> bool) \<Rightarrow> ('s, 'h) system \<Rightarrow> calls \<Rightarrow> bool" where
  "spawning_inv ready ok taken heap_ok w P \<longleftrightarrow> kernel_inv ready ok w \<and> control_ok w \<and> callers_ok w P \<and>
     supplies_ok taken heap_ok w P \<and> newborn_ok ready w P"

lemma thread_ids_same:
  assumes "store_ok st" "same_threads st st'"
  shows "thread_ids st' = thread_ids st"
proof -
  have "t_id (arc_val st' p) = t_id (arc_val st p)" if "p \<in> {1..<ah_next st}" for p
    using that assms by (simp add: store_ok_def same_threads_def)
  then have "{#t_id (arc_val st' p). p \<in># mset_set {1..<ah_next st}#} =
      {#t_id (arc_val st p). p \<in># mset_set {1..<ah_next st}#}"
    by (intro image_mset_cong) simp
  then show ?thesis using assms(2) by (simp add: thread_ids_def same_threads_def)
qed

lemma callers_bound:
  assumes "callers_ok w P" "store_ok (s_threads w)"
  shows "size (held held_ids P) \<le> ah_next (s_threads w)"
proof -
  have 1: "size (held_ids g) \<le> 1" for g by (cases g) auto
  have "size (held held_ids P) \<le> size P"
  proof (induction P)
    case (add x P)
    then show ?case using 1 [of "snd x"] by simp
  qed simp
  also have "\<dots> \<le> card (insert None (Some ` {1..<ah_next (s_threads w)}))"
    using size_mset_mono [OF assms(1) [unfolded callers_ok_def]] by simp
  also have "\<dots> = ah_next (s_threads w)"
    using assms(2) by (subst card_insert_disjoint) (auto simp: card_image store_ok_def)
  finally show ?thesis .
qed

lemma add_sub_mset_set:
  assumes "finite A" "M \<subseteq># mset_set A" "x \<in> A" "x \<notin># M"
  shows "add_mset x M \<subseteq># mset_set A"
  unfolding subseteq_mset_def
proof
  fix a
  have "count M a \<le> count (mset_set A) a" using assms(2) by (simp add: subseteq_mset_def)
  with assms show "count (add_mset x M) a \<le> count (mset_set A) a"
    by (auto simp: count_mset_set' not_in_iff split: if_splits)
qed

text \<open>A call that begins, and a call that ends.\<close>

lemma spawning_call:
  assumes inv: "spawning_inv ready ok taken heap_ok w P" and "current w \<notin># image_mset fst P"
  shows "spawning_inv ready ok taken heap_ok w (add_mset (current w, Requested r) P)"
proof -
  have "current w \<in> insert None (Some ` {1..<ah_next (s_threads w)})"
    using inv kernel_invD(3,9) [of ready ok w] by (cases "current w") (auto simp: spawning_inv_def store_ok_def)
  then have "callers_ok w (add_mset (current w, Requested r) P)"
    using inv assms(2) add_sub_mset_set [of "insert None (Some ` {1..<ah_next (s_threads w)})" "image_mset fst P"]
    unfolding spawning_inv_def callers_ok_def image_mset_add_mset fst_conv by blast
  with inv show ?thesis by (simp add: spawning_inv_def supplies_ok_def newborn_ok_def)
qed

lemma spawning_return:
  assumes "spawning_inv ready ok taken heap_ok w (add_mset (k, Spawned x) P)"
  shows "spawning_inv ready ok taken heap_ok w P"
  using assms by (auto simp: spawning_inv_def supplies_ok_def newborn_ok_def callers_ok_def
      intro: subset_mset.order_trans [rotated])

text \<open>The other steps leave what the calls hold alone.\<close>

lemma spawning_kept:
  assumes inv: "spawning_inv ready ok taken heap_ok w P" and good: "good_step ready ok gone w w'"
    and gone: "\<And>p. p \<in># gone \<Longrightarrow> thread_in (s_threads w') Finished p"
  shows "spawning_inv ready ok taken heap_ok w' P"
proof -
  note g = good [unfolded good_step_def kept_def]
  have st: "store_ok (s_threads w)" and ki: "kernel_inv ready ok w"
    using inv by (auto simp: spawning_inv_def dest: kernel_invD(3))
  have same: "same_threads (s_threads w) (s_threads w')" using g by simp
  have cnt: "ah_next (s_threads w') = ah_next (s_threads w)" "ah_room (s_threads w') = ah_room (s_threads w)"
    and live: "\<And>p. arc_live (s_threads w') p = arc_live (s_threads w) p"
    and stk: "\<And>p. arc_live (s_threads w) p \<Longrightarrow> t_stack (arc_val (s_threads w') p) = t_stack (arc_val (s_threads w) p)"
    using same by (simp_all add: same_threads_def)
  have state: "thread_in (s_threads w') s p = thread_in (s_threads w) s p" if "p \<notin># schedulable ready w" for s p
    using g that by (simp add: thread_in_def live)
  have sched: "p \<in># schedulable ready w \<longleftrightarrow> p \<in># schedulable ready w' \<or> p \<in># gone" for p using g by simp
  have fin: "p \<notin># schedulable ready w" if "thread_in (s_threads w) Finished p" for p
    using finished_not_schedulable(3) [OF ki, of p] that by (simp add: thread_in_def)
  have "supplies_ok taken heap_ok w' P"
    using inv g stk by (simp add: spawning_inv_def supplies_ok_def cnt live thread_ids_same [OF st same]
        thread_stacks_same [OF st same])
  moreover have "newborn_ok ready w' P"
    using inv state sched fin gone unfolding spawning_inv_def newborn_ok_def live by blast
  ultimately show ?thesis using inv g by (simp add: spawning_inv_def callers_ok_def cnt)
qed

text \<open>A new thread in the store, and what was there before.\<close>

lemma grown_store:
  assumes st: "store_ok st" and p: "p = ah_next st" and live: "arc_live st' p"
    and val: "arc_val st' p = t" "\<not> m_locked (t_context t)" "t_stack t = Some stk"
    and old: "\<And>q. q \<noteq> p \<Longrightarrow> arc_live st' q = arc_live st q" "\<And>q. q \<noteq> p \<Longrightarrow> arc_val st' q = arc_val st q"
    and nxt: "ah_next st' = Suc p"
  shows "store_ok st'" "thread_stacks st' = add_mset stk (thread_stacks st)"
    "thread_ids st' = add_mset (t_id t) (thread_ids st)"
proof -
  have "0 < p" using st p by (simp add: store_ok_def)
  then have A: "{1..<Suc p} = insert p {1..<p}" by auto
  have live': "arc_live st' q \<longleftrightarrow> q = p \<or> arc_live st q" for q using live old(1) [of q] by auto
  show "store_ok st'"
    using st val(1,2) old(2) live' nxt \<open>0 < p\<close> unfolding store_ok_def p [symmetric]
    by (metis less_Suc_eq zero_less_Suc)
  have "image_mset (\<lambda>q. f (arc_val st' q)) (mset_set {1..<p}) = image_mset (\<lambda>q. f (arc_val st q)) (mset_set {1..<p})"
    for f :: "thread_inner \<Rightarrow> 'z" using old(2) by (intro image_mset_cong) simp
  note this [of "\<lambda>t. the (t_stack t)"] this [of t_id]
  then show "thread_stacks st' = add_mset stk (thread_stacks st)" "thread_ids st' = add_mset (t_id t) (thread_ids st)"
    using val(1,3) unfolding thread_stacks_def thread_ids_def nxt p [symmetric] A by simp_all
qed

context kernel_system
begin

text \<open>The first two steps only draw on the supplies.\<close>

lemma spawning_draw:
  assumes inv: "spawning_inv ready ok taken heap_ok w (add_mset (k, g) P)"
    and w': "w' = w\<lparr>k_stack_pool := pool, s_heap := h, k_next_thread_id := n\<rparr>"
    and g: "held_threads g' = held_threads g" and sup: "supplies_ok taken heap_ok w' (add_mset (k, g') P)"
  shows "spawning_inv ready ok taken heap_ok w' (add_mset (k, g') P)"
proof -
  have obs: "current w' = current w" "schedulable ready w' = schedulable ready w" "s_threads w' = s_threads w"
    "s_machine w' = s_machine w" "k_initialized w' = k_initialized w"
    by (simp_all add: w' current_def schedulable_def)
  have "kernel_inv ready ok w'"
    using inv by (intro kernel_inv_cong [of ready ok w w']) (simp_all add: spawning_inv_def w')
  then show ?thesis
    using inv sup g by (simp add: spawning_inv_def newborn_ok_def callers_ok_def control_ok_def obs)
qed

lemma stage_stack:
  assumes inv: "spawning_inv ready ok taken heap_ok w (add_mset (k, Requested r) P)"
    and run: "spawn_stage ops alloc (Requested r) w = Inr (g, w')"
  shows "spawning_inv ready ok taken heap_ok w' (add_mset (k, g) P)"
proof (cases "k_initialized w")
  case True
  obtain a pool h where pa: "pool_allocate alloc (s_heap w) (k_stack_pool w) (rq_class r) = (a, pool, h)"
    by (cases "pool_allocate alloc (s_heap w) (k_stack_pool w) (rq_class r)") auto
  have w': "w' = w\<lparr>k_stack_pool := pool, s_heap := h, k_next_thread_id := k_next_thread_id w\<rparr>"
    and g: "g = (case a of None \<Rightarrow> Spawned (Inl Spawn_OutOfMemory) | Some stk \<Rightarrow> HasStack r stk)"
    using run pa True by (auto split: option.splits)
  have sup: "supplies_ok taken heap_ok w (add_mset (k, Requested r) P)" using inv by (simp add: spawning_inv_def)
  with heap.pool_inv_allocate [OF _ _ pa, of "thread_stacks (s_threads w) + held held_stacks P"]
  have "supplies_ok taken heap_ok w' (add_mset (k, g) P)"
    by (cases a) (simp_all add: supplies_ok_def w' g)
  then show ?thesis by (intro spawning_draw [OF inv w']) (simp_all add: g split: option.split)
next
  case False
  with run have "w' = w" "g = Spawned (Inl Spawn_NotInitialized)" by auto
  with inv show ?thesis by (simp add: spawning_inv_def supplies_ok_def newborn_ok_def callers_ok_def)
qed

lemma stage_id:
  assumes inv: "spawning_inv ready ok taken heap_ok w (add_mset (k, HasStack r stk) P)"
    and run: "spawn_stage ops alloc (HasStack r stk) w = Inr (g, w')"
  shows "spawning_inv ready ok taken heap_ok w' (add_mset (k, g) P)"
proof -
  let ?n = "ah_next (s_threads w) + size (held held_ids P)"
  have w': "w' = w\<lparr>k_stack_pool := k_stack_pool w, s_heap := s_heap w, k_next_thread_id := k_next_thread_id w + 1\<rparr>"
    and g: "g = HasId r stk (k_next_thread_id w)"
    using run by (auto simp: next_thread_id_def)
  have "0 < ah_next (s_threads w)"
    using inv kernel_invD(3) [of ready ok w] by (simp add: spawning_inv_def store_ok_def)
  then have A: "{1..<Suc ?n} = insert ?n {1..<?n}" by auto
  have sup: "supplies_ok taken heap_ok w (add_mset (k, HasStack r stk) P)" using inv by (simp add: spawning_inv_def)
  then have "thread_ids (s_threads w) + add_mset (k_next_thread_id w) (held held_ids P) =
      image_mset of_nat (mset_set {1..<Suc ?n})"
    unfolding A by (simp add: supplies_ok_def)
  with sup have "supplies_ok taken heap_ok w' (add_mset (k, g) P)" by (simp add: supplies_ok_def w' g)
  then show ?thesis by (intro spawning_draw [OF inv w']) (simp_all add: g)
qed

lemma stage_thread:
  assumes inv: "spawning_inv ready ok taken heap_ok w (add_mset (k, HasId r stk i) P)"
    and run: "spawn_stage ops alloc (HasId r stk i) w = Inr (g, w')"
  shows "spawning_inv ready ok taken heap_ok w' (add_mset (k, g) P)"
proof -
  let ?p = "ah_next (s_threads w)"
  have ki: "kernel_inv ready ok w" and sto: "store_ok (s_threads w)"
    using inv kernel_invD(3) [of ready ok w] by (auto simp: spawning_inv_def)
  have room: "ah_room (s_threads w) \<noteq> 0"
    using run by (intro notI) (simp add: thread_new_def arc_new_def)
  have next0: "0 < ?p" using sto by (simp add: store_ok_def)
  obtain st where st: "thread_new i stk (rq_entry r) (rq_priority r) (s_threads w) = Inr (?p, ?p, st)"
    "arc_live st ?p" "arc_val st ?p = (new_thread_inner i stk (rq_entry r) (rq_priority r))
       \<lparr>t_context := mutex_new (initial_context (rq_entry r) (stack_bottom stk) 0)\<rparr>"
    "\<And>q. q \<noteq> ?p \<Longrightarrow> arc_live st q = arc_live (s_threads w) q"
    "\<And>q. q \<noteq> ?p \<Longrightarrow> arc_val st q = arc_val (s_threads w) q"
    "ah_next st = Suc ?p" "ah_room st = ah_room (s_threads w) - 1"
    by (rule thread_new_run [OF room next0, of i stk "rq_entry r" "rq_priority r"]) blast
  have w': "w' = w\<lparr>s_threads := st\<rparr>" "g = HasThread r (stack_bottom stk) ?p ?p" using run st(1) by auto
  have new: "store_ok st" "thread_stacks st = add_mset stk (thread_stacks (s_threads w))"
    "thread_ids st = add_mset i (thread_ids (s_threads w))"
    using grown_store [OF sto refl st(2,3) _ _ st(4,5,6), of stk] by (simp_all add: new_thread_inner_def mutex_new_def)
  have dead: "\<not> arc_live (s_threads w) ?p" using sto by (simp add: store_ok_def)
  have live: "arc_live st q \<longleftrightarrow> q = ?p \<or> arc_live (s_threads w) q" for q
    using st(2) st(4) [of q] by auto
  have old: "thread_in st s q \<longleftrightarrow> (if q = ?p then s = Ready else thread_in (s_threads w) s q)" for s q
    using st(2-5) by (cases s) (auto simp: thread_in_def new_thread_inner_def)
  have stk: "t_stack (arc_val st q) = (if q = ?p then Some stk else t_stack (arc_val (s_threads w) q))" for q
    using st(3,5) by (simp add: new_thread_inner_def)
  have obs: "current w' = current w" "schedulable ready w' = schedulable ready w"
    by (simp_all add: w' current_def schedulable_def)
  have out: "?p \<notin># schedulable ready w" "?p \<notin># held held_threads P"
    using inv dead kernel_invD(8,9) [OF ki]
    by (auto simp: schedulable_def spawning_inv_def newborn_ok_def thread_in_def split: option.splits)
  have "kernel_inv ready ok w'"
    using kernel_invD [OF ki] dead new(1) by (intro kernel_invI) (auto simp: w' old list_all_iff current_def)
  moreover have "control_ok w'" using inv by (auto simp: spawning_inv_def control_ok_def current_def w'(1) live)
  moreover have "callers_ok w' (add_mset (k, g) P)"
  proof -
    have "mset_set (insert None (Some ` {1..<?p})) \<subseteq># mset_set (insert None (Some ` {1..<Suc ?p}))"
      by (rule subset_imp_msubset_mset_set) auto
    with inv show ?thesis
      unfolding spawning_inv_def callers_ok_def by (auto simp: w' st(6) intro: subset_mset.order_trans)
  qed
  moreover have "supplies_ok taken heap_ok w' (add_mset (k, g) P)"
    using inv room by (auto simp: spawning_inv_def supplies_ok_def w' new st(6,7) live stk)
  moreover have "newborn_ok ready w' (add_mset (k, g) P)"
  proof -
    have "held held_threads (add_mset (k, g) P) = add_mset ?p (held held_threads P)" by (simp add: w'(2))
    moreover have "count (held held_threads P) ?p = 0" using out(2) by (simp add: not_in_iff)
    ultimately show ?thesis
      using inv out unfolding spawning_inv_def newborn_ok_def obs(2) by (auto simp: w'(1) old live)
  qed
  ultimately show ?thesis by (simp add: spawning_inv_def)
qed

text \<open>Writing the context of a thread that nobody runs.\<close>

lemma stage_context:
  assumes inv: "spawning_inv ready ok taken heap_ok w (add_mset (k, HasThread r bottom t h) P)"
  obtains st where "spawn_stage ops alloc (HasThread r bottom t h) w = Inr (HasContext t h, w\<lparr>s_threads := st\<rparr>)"
    "m_value (t_context (arc_val st t)) = initial_context (rq_start r) bottom (rq_arg r)"
    "spawning_inv ready ok taken heap_ok (w\<lparr>s_threads := st\<rparr>) (add_mset (k, HasContext t h) P)"
proof -
  have ki: "kernel_inv ready ok w" and live: "arc_live (s_threads w) t"
    using inv by (auto simp: spawning_inv_def newborn_ok_def thread_in_def)
  have free: "\<not> m_locked (t_context (arc_val (s_threads w) t))"
    using kernel_invD(3) [OF ki] live by (simp add: store_ok_def)
  define st where "st = tmod t (\<lambda>x. x\<lparr>t_context := mutex_new (initial_context (rq_start r) bottom (rq_arg r))\<rparr>)
    (s_threads w)"
  have run: "setup_initial_context (rq_start r) bottom (rq_arg r) t (s_threads w) = Inr st"
    using live free by (simp add: setup_initial_context_def mutex_lock_def mutex_unlock_new st_def)
  let ?w = "w\<lparr>s_threads := st\<rparr>"
  have same: "same_threads (s_threads w) st" using live free by (simp add: same_threads_def st_def mutex_new_def)
  have state: "t_state (arc_val st q) = t_state (arc_val (s_threads w) q)" for q using live by (simp add: st_def)
  have "good_step ready ok {#} w ?w"
    using kernel_inv_store [OF ki same state] inv same state
    by (auto simp: good_step_def kept_def spawning_inv_def control_ok_def current_def schedulable_def same_threads_live)
  then have "spawning_inv ready ok taken heap_ok ?w (add_mset (k, HasThread r bottom t h) P)"
    by (rule spawning_kept [OF inv]) simp
  then have "spawning_inv ready ok taken heap_ok ?w (add_mset (k, HasContext t h) P)"
    by (simp add: spawning_inv_def supplies_ok_def newborn_ok_def callers_ok_def)
  moreover have "m_value (t_context (arc_val st t)) = initial_context (rq_start r) bottom (rq_arg r)"
    using live by (simp add: st_def mutex_new_def)
  ultimately show thesis using run by (intro that [of st]) simp_all
qed

lemma stage_queue:
  assumes inv: "spawning_inv ready ok taken heap_ok w (add_mset (k, HasContext t h) P)"
  obtains s' where "spawn_stage ops alloc (HasContext t h) w = Inr (Spawned (Inr h), w\<lparr>k_scheduler := s'\<rparr>)"
    "spawning_inv ready ok taken heap_ok (w\<lparr>k_scheduler := s'\<rparr>) (add_mset (k, Spawned (Inr h)) P)"
    "mset (ready s') = add_mset t (mset (ready (k_scheduler w)))"
proof -
  have ki: "kernel_inv ready ok w" and t: "thread_in (s_threads w) Ready t" "t \<notin># schedulable ready w"
    using inv by (simp_all add: spawning_inv_def newborn_ok_def)
  have cnt: "count (held held_threads (add_mset (k, HasContext t h) P)) p \<le> 1" for p
    using inv unfolding spawning_inv_def newborn_ok_def by blast
  have once: "t \<notin># held held_threads P" using cnt [of t] by (simp add: not_in_iff)
  have cnt': "count (held held_threads P) p \<le> 1" for p using cnt [of p] by (simp split: if_splits)
  note i = kernel_invD [OF ki]
  have "arc_live (s_threads w) t" using t(1) by (simp add: thread_in_def)
  then obtain s' xs ys where s': "so_enqueue ops t (k_scheduler w) (s_threads w) = Inr s'" "ok s'"
    "ready (k_scheduler w) = xs @ ys" "ready s' = xs @ t # ys"
    by (rule enqueueE [OF i(1)])
  let ?w = "w\<lparr>k_scheduler := s'\<rparr>"
  have "kernel_inv ready ok ?w"
    using i(2-7) s' t by (intro kernel_invI) (auto simp: current_def list_all_iff schedulable_def)
  moreover have sched: "schedulable ready ?w = add_mset t (schedulable ready w)"
    using s'(3,4) by (simp add: schedulable_def current_def)
  moreover have "newborn_ok ready ?w (add_mset (k, Spawned (Inr h)) P)"
    using inv once cnt' unfolding spawning_inv_def newborn_ok_def sched by auto
  moreover have "control_ok ?w" using inv by (simp add: spawning_inv_def control_ok_def current_def)
  ultimately show thesis
    using inv s' by (intro that [of s']) (simp_all add: spawning_inv_def supplies_ok_def callers_ok_def)
qed

lemma stage_inv:
  assumes "spawning_inv ready ok taken heap_ok w (add_mset (k, g) P)" "spawn_stage ops alloc g w = Inr (g', w')"
  shows "spawning_inv ready ok taken heap_ok w' (add_mset (k, g') P)"
proof (cases g)
  case (HasThread r bottom t h)
  show ?thesis
    by (rule stage_context [OF assms(1) [unfolded HasThread]]) (use assms(2) HasThread in auto)
next
  case (HasContext t h)
  show ?thesis
    by (rule stage_queue [OF assms(1) [unfolded HasContext]]) (use assms(2) HasContext in auto)
next
  case (Requested r)
  then show ?thesis using stage_stack assms by blast
next
  case (HasStack r stk)
  then show ?thesis using stage_id assms by blast
next
  case (HasId r stk i)
  then show ?thesis using stage_thread assms by blast
next
  case (Spawned x)
  then show ?thesis using assms by simp
qed

lemma cstep_inv:
  assumes "cstep ops alloc s s'" "spawning_inv ready ok taken heap_ok (fst s) (snd s)"
  shows "spawning_inv ready ok taken heap_ok (fst s') (snd s')"
  using assms
proof cases
  case (other w e w' P)
  have "kernel_inv ready ok w" "control_ok w" using assms(2) other(1) by (auto simp: spawning_inv_def)
  note good = kstep_good [OF this other(3,4)]
  have "spawning_inv ready ok taken heap_ok w P" using assms(2) other(1) by simp
  then have "spawning_inv ready ok taken heap_ok w' P"
  proof (rule spawning_kept [OF _ conjunct1 [OF good]])
    fix p assume "p \<in># retired e (current w)"
    then show "thread_in (s_threads w') Finished p"
      using conjunct2 [OF good] by (auto simp: retired_def split: if_splits option.splits)
  qed
  then show ?thesis using other(2) by simp
qed (use assms(2) spawning_call spawning_return stage_inv in auto)

lemma crun_inv:
  assumes "(cstep ops alloc)\<^sup>*\<^sup>* s s'" "spawning_inv ready ok taken heap_ok (fst s) (snd s)"
  shows "spawning_inv ready ok taken heap_ok (fst s') (snd s')"
  using assms by (induction rule: rtranclp_induct) (auto intro: cstep_inv)

text \<open>A step of a call fails only where the memory for the thread's control block does not suffice.\<close>

lemma stage_error:
  assumes inv: "spawning_inv ready ok taken heap_ok w (add_mset (k, g) P)" and run: "spawn_stage ops alloc g w = Inl e"
  shows "e = AllocFailure \<and> ah_room (s_threads w) = 0"
proof (cases g)
  case (HasId r stk i)
  have "0 < ah_next (s_threads w)"
    using inv kernel_invD(3) [of ready ok w] by (simp add: spawning_inv_def store_ok_def)
  then have "\<exists>st. thread_new i stk (rq_entry r) (rq_priority r) (s_threads w) =
      Inr (ah_next (s_threads w), ah_next (s_threads w), st)" if "ah_room (s_threads w) \<noteq> 0"
    by (rule thread_new_run [OF that]) blast
  then have "ah_room (s_threads w) = 0" using run HasId by force
  then show ?thesis using run HasId by (simp add: thread_new_def arc_new_def)
next
  case (HasThread r bottom t h)
  show ?thesis by (rule stage_context [OF inv [unfolded HasThread]]) (use run HasThread in simp)
next
  case (HasContext t h)
  show ?thesis by (rule stage_queue [OF inv [unfolded HasContext]]) (use run HasContext in simp)
qed (use run in \<open>auto simp: next_thread_id_def split: if_splits prod.splits option.splits\<close>)

lemma spawning_start:
  assumes "system_inv ready ok taken heap_ok w" "all_placed ready w"
    "2 * (ah_next (s_threads w) + ah_room (s_threads w)) < 2 ^ 64"
  shows "spawning_inv ready ok taken heap_ok w {#}"
proof -
  have "store_ok (s_threads w)" using assms(1) kernel_invD(3) by (auto simp: system_inv_def)
  then have "t_id (arc_val (s_threads w) p) = of_nat p" if "p \<in> {1..<ah_next (s_threads w)}" for p
    using that assms(1) by (simp add: system_inv_def resources_ok_def store_ok_def)
  then have "thread_ids (s_threads w) = image_mset of_nat (mset_set {1..<ah_next (s_threads w)})"
    unfolding thread_ids_def by (intro image_mset_cong) simp
  with assms show ?thesis
    by (simp add: spawning_inv_def system_inv_def resources_ok_def supplies_ok_def newborn_ok_def callers_ok_def
        all_placed_def)
qed

end

text \<open>What the invariant says of identifiers and of where the threads are.\<close>

lemma spawning_ids:
  assumes "spawning_inv ready ok taken heap_ok w P"
  shows "count (thread_ids (s_threads w) + held held_ids P) i \<le> 1" "0 \<notin># thread_ids (s_threads w) + held held_ids P"
proof -
  let ?A = "{1..<ah_next (s_threads w) + size (held held_ids P)}"
  have "size (held held_ids P) \<le> ah_next (s_threads w)"
    using assms callers_bound [of w P] kernel_invD(3) [of ready ok w] by (simp add: spawning_inv_def)
  then have bound: "ah_next (s_threads w) + size (held held_ids P) < 2 ^ 64"
    and ids: "thread_ids (s_threads w) + held held_ids P = image_mset of_nat (mset_set ?A)"
    using assms by (simp_all add: spawning_inv_def supplies_ok_def)
  have inj: "inj_on (of_nat :: nat \<Rightarrow> usize) ?A"
    using bound by (auto simp: inj_on_def dest!: arg_cong [of _ _ unat] simp: unat_of_nat)
  show "count (thread_ids (s_threads w) + held held_ids P) i \<le> 1"
    unfolding ids image_mset_mset_set [OF inj] by (simp add: count_mset_set')
  have "unat (of_nat x :: usize) = x" if "x \<in> ?A" for x using that bound by (simp add: unat_of_nat)
  then show "0 \<notin># thread_ids (s_threads w) + held held_ids P"
    unfolding ids by (force dest: arg_cong [of _ _ unat])
qed

lemma spawning_places:
  assumes inv: "spawning_inv ready ok taken heap_ok w P" and p: "arc_live (s_threads w) p"
  shows "count (schedulable ready w + held held_threads P) p = (if thread_in (s_threads w) Finished p then 0 else 1)"
proof -
  have ki: "kernel_inv ready ok w" and nb: "newborn_ok ready w P" using inv by (simp_all add: spawning_inv_def)
  note i = kernel_invD [OF ki]
  have s: "count (schedulable ready w) p \<le> 1"
    using i(4,10) by (auto simp: schedulable_def distinct_count_atmost_1 count_mset split: option.split)
  have h: "count (held held_threads P) p \<le> 1" using nb by (simp add: newborn_ok_def)
  have f: "p \<notin># schedulable ready w" "p \<notin># held held_threads P" if "thread_in (s_threads w) Finished p"
    using that nb finished_not_schedulable(3) [OF ki, of p] by (auto simp: newborn_ok_def thread_in_def)
  have "p \<in># held held_threads P \<Longrightarrow> p \<notin># schedulable ready w"
    "p \<in># schedulable ready w \<or> p \<in># held held_threads P \<or> thread_in (s_threads w) Finished p"
    using nb p by (auto simp: newborn_ok_def)
  moreover have one: "count M p = 1" if "p \<in># M" "count M p \<le> 1" for M :: "ptr multiset"
    using that le_antisym Suc_leI by (fastforce simp flip: count_greater_zero_iff)
  ultimately show ?thesis
    using f one [OF _ s] one [OF _ h] by (cases "p \<in># schedulable ready w") (auto simp: count_eq_zero_iff)
qed

text \<open>Every run of the kernel in which spawning is not interrupted is one of these runs.\<close>

lemma stages_csteps:
  assumes "spawn_stages ops alloc n g w = Inr (g', w')"
  shows "(cstep ops alloc)\<^sup>*\<^sup>* (w, add_mset (current w, g) P) (w', add_mset (current w, g') P)"
  using assms
proof (induction n arbitrary: g w)
  case (Suc n)
  then obtain g1 w1 where s: "spawn_stage ops alloc g w = Inr (g1, w1)" "spawn_stages ops alloc n g1 w1 = Inr (g', w')"
    by (auto simp: rbind_eq_Inr)
  have "current w1 = current w"
    using s(1) by (cases g) (auto simp: rbind_eq_Inr next_thread_id_def current_def split: if_splits prod.splits option.splits)
  with Suc.IH [OF s(2)] cstep.stage [OF s(1)] show ?case by (metis converse_rtranclp_into_rtranclp)
qed simp

lemma spawn_csteps:
  assumes "spawn ops alloc tr ef c pr w = Inr (x, w')" "current w \<notin># image_mset fst P"
  shows "(cstep ops alloc)\<^sup>*\<^sup>* (w, P) (w', P)"
proof -
  define r where "r = \<lparr>rq_class = Medium, rq_entry = ef, rq_start = tr, rq_arg = c, rq_priority = pr\<rparr>"
  have run: "spawn_stages ops alloc 5 (Requested r) w = Inr (Spawned x, w')"
    using assms(1) unfolding spawn_stages_whole by (simp add: r_def spawn_def)
  have cur: "current w' = current w"
    using assms(1) by (auto simp: spawn_def spawn_thread_def next_thread_id_def Let_def current_def rbind_eq_Inr
        split: if_splits prod.splits option.splits)
  note cstep.call [OF assms(2), of ops alloc r]
  also note stages_csteps [OF run, of P]
  also have "cstep ops alloc (w', add_mset (current w, Spawned x) P) (w', P)"
    using cstep.return [of ops alloc w' x P] by (simp add: cur)
  finally show ?thesis .
qed

lemma spawn_all_csteps:
  assumes "spawn_all ops alloc tr ef cs w = Inr w'"
  shows "(cstep ops alloc)\<^sup>*\<^sup>* (w, {#}) (w', {#})"
  using assms
proof (induction cs arbitrary: w)
  case (Cons c cs)
  then obtain x w1 where s: "spawn ops alloc tr ef c 128 w = Inr (x, w1)"
    "(case x of Inl e \<Rightarrow> Inl ExpectFailed | Inr h \<Rightarrow> spawn_all ops alloc tr ef cs w1) = Inr w'"
    by (auto simp: rbind_eq_Inr)
  then have "spawn_all ops alloc tr ef cs w1 = Inr w'" by (cases x) auto
  then show ?case using spawn_csteps [OF s(1), of "{#}"] Cons.IH by (auto intro: rtranclp_trans)
qed simp

section \<open>Properties\<close>

text \<open>
  C4. Spawning may be preempted anywhere between its steps.  Let any number of threads of a
  round-robin kernel spawn concurrently, with timer interrupts and the other kernel calls between their steps in
  any order.  All stacks, those of threads, those a call holds for a thread it has not made yet and those
  free in the pool, are pairwise disjoint; no identifier is given twice, and none is zero; every thread that is not finished is
  in exactly one place, with the scheduler or with the one call that is about to queue it; and no step of a call
  fails unless the memory for the new thread's control block is used up.
\<close>

theorem concurrent_spawns_safe:
  assumes "(cstep rr_ops (bump_alloc []))\<^sup>*\<^sup>* (kernel_new (rr_new wk 1) (arc_empty room ws) h m, {#}) (w, P)"
    "bump_ok h" "boot_machine m" "2 * Suc room < 2 ^ 64"
  shows "stacks_apart (pool_all (k_stack_pool w) (thread_stacks (s_threads w) + held held_stacks P)) \<and>
    (\<forall>i. count (thread_ids (s_threads w) + held held_ids P) i \<le> 1) \<and>
    0 \<notin># thread_ids (s_threads w) + held held_ids P \<and>
    (\<forall>p. arc_live (s_threads w) p \<longrightarrow> count (schedulable rr1_ready w + held held_threads P) p =
      (if thread_in (s_threads w) Finished p then 0 else 1)) \<and>
    (\<forall>k g e. (k, g) \<in># P \<longrightarrow> spawn_stage rr_ops (bump_alloc []) g w = Inl e \<longrightarrow>
      e = AllocFailure \<and> ah_room (s_threads w) = 0)"
proof -
  let ?w = "kernel_new (rr_new wk 1) (arc_empty room ws) h m"
  have "Suc room < 2 ^ 64" using assms(4) by simp
  note new = rr_kernel.kernel_new_inv [OF rr1_ok_new [of wk] assms(2,3) this, of ws]
  have "2 * (ah_next (s_threads ?w) + ah_room (s_threads ?w)) < 2 ^ 64"
    using assms(4) by (simp add: kernel_new_def arc_empty_def)
  then have "spawning_inv rr1_ready rr1_ok bump_taken bump_ok (fst (?w, {#})) (snd (?w, {#} :: calls))"
    using rr_kernel.spawning_start [OF new] by simp
  from rr_kernel.crun_inv [OF assms(1) this] have inv: "spawning_inv rr1_ready rr1_ok bump_taken bump_ok w P" by simp
  then have "stacks_apart (pool_all (k_stack_pool w) (thread_stacks (s_threads w) + held held_stacks P))"
    by (simp add: spawning_inv_def supplies_ok_def pool_inv_def)
  moreover have "e = AllocFailure \<and> ah_room (s_threads w) = 0"
    if "(k, g) \<in># P" "spawn_stage rr_ops (bump_alloc []) g w = Inl e" for k g e
    using rr_kernel.stage_error [OF _ that(2), of k "P - {#(k, g)#}"] inv that(1) by simp
  ultimately show ?thesis using spawning_ids [OF inv] spawning_places [OF inv] by blast
qed

theorem concurrent_spawns_safe_witness:
  "\<exists>w P r. (cstep rr_ops (bump_alloc []))\<^sup>*\<^sup>*
     (kernel_new (rr_new (\<lambda>i l. []) 1) (arc_empty 5 []) boot_heap reset_machine, {#}) (w, P) \<and>
     P = {#(Some 1, Requested r), (Some 2, Requested r)#} \<and> current w = Some 2 \<and>
     stacks_apart (pool_all (k_stack_pool w) (thread_stacks (s_threads w) + held held_stacks P))"
proof -
  let ?w = "kernel_new (rr_new (\<lambda>i l. []) 1) (arc_empty 5 []) boot_heap reset_machine"
  let ?step = "cstep rr_ops (bump_alloc [])"
  define r where "r = \<lparr>rq_class = Medium, rq_entry = 0, rq_start = 0x8000, rq_arg = 0, rq_priority = 128\<rparr>"
  have room: "3 \<le> (5 :: nat)" "Suc 5 < 2 ^ 64" by simp_all
  obtain w1 w2 w3 where w: "kernel_init ?w = (True, w1)" "spawn_all rr_ops (bump_alloc []) 0x8000 0x9000 [1, 2, 3] w1 = Inr w2"
    "start_first_thread rr_ops (Instant 0) w2 = Inr (Switched, w3)" "kernel_running Normal w3" "current w3 = Some 1"
    "level_waiting Normal w3 = [2, 3]"
    by (rule rr_start_three [OF boot_heap_ok reset_machine_boot room boot_heap_stacks, where tr = "0x8000" and ef = "0x9000"
          and ?c1.0 = 1 and ?c2.0 = 2 and ?c3.0 = 3 and now = "Instant 0" and weak = "\<lambda>i l. []" and ws = "[]"])
      (rule that; assumption)
  let ?u = "with_registers (user_context 0) w3"
  have u: "kernel_running Normal ?u" "current ?u = Some 1" "level_waiting Normal ?u = [2, 3]"
    "interrupts_enabled ?u" using w(4-6)
    by (simp_all add: interrupts_enabled_def user_context_def IRQ_BIT_def level_waiting_def)
  obtain w4 where w4: "timer_irq (handle_irq_preemption rr_ops (Instant 1)) ?u = Inr w4" "current w4 = Some 2"
    by (rule kernel_running_tick [OF u(1), of "Instant 1"]) (use u(2,3) in \<open>auto intro: that\<close>)
  have "?step (?w, {#}) (w1, {#})" by (rule cstep.other [OF kstep.init [OF w(1)]]) simp_all
  also note spawn_all_csteps [OF w(2)]
  also have "?step (w2, {#}) (w3, {#})" by (rule cstep.other [OF kstep.start [OF w(3)]]) simp_all
  also have "?step (w3, {#}) (?u, {#})" unfolding with_registers_def by (rule cstep.other [OF kstep.user]) simp_all
  also have "?step (?u, {#}) (?u, {#(Some 1, Requested r)#})"
    using cstep.call [of ?u "{#}" rr_ops "bump_alloc []" r] u(2) by simp
  also have "?step (?u, {#(Some 1, Requested r)#}) (w4, {#(Some 1, Requested r)#})"
    by (rule cstep.other [OF kstep.timer [OF u(4) w4(1)]]) simp_all
  also have "?step (w4, {#(Some 1, Requested r)#}) (w4, {#(Some 1, Requested r), (Some 2, Requested r)#})"
    using cstep.call [of w4 "{#(Some 1, Requested r)#}" rr_ops "bump_alloc []" r] w4(2) by (simp add: add_mset_commute)
  finally have run: "?step\<^sup>*\<^sup>* (?w, {#}) (w4, {#(Some 1, Requested r), (Some 2, Requested r)#})" .
  have "2 * Suc 5 < 2 ^ 64" by simp
  note conjunct1 [OF concurrent_spawns_safe [OF run boot_heap_ok reset_machine_boot this]]
  with run w4(2) show ?thesis by blast
qed

end
