(* ===== verification/Spec2Isabelle.thy ===== *)
theory Spec2Isabelle
  imports Machine_Refinement Errors Cooperative_Example Boot Qemu_Virt Fpu Platform_Timer Queue_Interleaving
    Kernel_Safety Cpu_Interface Concurrent_Spawn
begin

text \<open>
  \<^bold>\<open>A verification of the preemptive thread kernel for the Raspberry Pi Zero 2 W.\<close>

  The program is a \<open>no_std\<close> Rust crate (\<open>src/src/\<close>) that boots an AArch64 machine, keeps threads in
  schedulers built on a lock-free queue, and switches between them cooperatively and on timer
  interrupts.  This development translates the crate's code into HOL definitions and proves what
  makes each part correct, and, where a part does not do what it is meant to, exactly what it does.
  Numbers are words of the width the code uses; additions and multiplications that Rust checks in
  debug builds are the operations \<open>add_u\<close>, \<open>mul_u\<close>, \<open>sub_u\<close> with a flag for the checks; panics, undefined
  behaviour and endless waits are errors of the result type \<open>res\<close>.

  \<^bold>\<open>Parts, and the theories that model them.\<close>

  \<^item> \<open>Prelude\<close>: result type, checked arithmetic, spin locks (\<open>spin::Mutex\<close>), memory, shared lemmas.
  \<^item> \<open>Lock_Free_Queue\<close> (\<open>sched/rr.rs\<close>, \<open>LockFreeQueue\<close>): nodes in a heap of pointers, \<open>push\<close>, \<open>try_pop\<close>,
    \<open>peek\<close>, \<open>debug_list_threads\<close>, dropping; the weak compare-exchanges fail by an oracle list.  The
    queue implements a FIFO list (a locale interpreted on the code's queue).
  \<^item> \<open>Scheduler\<close> (\<open>sched/rr.rs\<close>, \<open>sched/trait_def.rs\<close>): the trait as a record of operations, the
    first-come-first-served scheduler and the multi-CPU round-robin scheduler with priorities, work
    stealing and tick decisions.  The locale \<open>scheduler_contract\<close> is what the kernel needs of a
    scheduler; both schedulers are instances.
  \<^item> \<open>Time_Slice\<close> (\<open>time/mod.rs\<close>): instants, durations, quanta and virtual run time.
  \<^item> \<open>Arc_Lite\<close> (\<open>mem/arc_lite.rs\<close>): reference counts over an explicit heap.
  \<^item> \<open>Bump_Alloc\<close> (\<open>examples/rpi_kernel.rs\<close>): the global allocator, with lost races as a parameter.
  \<^item> \<open>Stack_Pool\<close> (\<open>mem/stack_pool.rs\<close>): size classes, stack geometry, canaries, free lists, over any
    allocator that keeps the contract \<open>block_allocator\<close>.
  \<^item> \<open>Threads\<close> (\<open>thread/mod.rs\<close>, \<open>thread/handle.rs\<close>, \<open>thread/builder.rs\<close>): thread control blocks, the
    references \<open>ReadyRef\<close> and \<open>RunningRef\<close>, join handles, the builder.
  \<^item> \<open>Errors\<close> (\<open>errors.rs\<close>): the error types, their texts and conversions.
  \<^item> \<open>Aarch64\<close>, \<open>Context_Switch\<close>, \<open>Irq_Entry\<close>, \<open>Vectors\<close> (\<open>arch/aarch64.rs\<close>, \<open>arch/aarch64_vectors.rs\<close>): an
    interpreter for the instructions used, and the assembly blocks as instruction lists:
    \<open>context_switch\<close>, the interrupt entry \<open>irq_el1h\<close>, the synchronous entry, the vector table.
  \<^item> \<open>Kernel\<close>, \<open>Kernel_Steps\<close>, \<open>Kernel_Properties\<close> (\<open>kernel.rs\<close>): every operation of the kernel over any
    scheduler and allocator, the step relation of a running kernel (spawn, start, yield, finish,
    timer interrupt, user code, dropped handles), the invariant of all reachable states, and the
    properties of the kernel with each of the two schedulers.
  \<^item> \<open>Dispatch_Order\<close>, \<open>Kernel_Safety\<close>, \<open>Thread_Lifecycle\<close> (\<open>kernel.rs\<close>): the order in which threads run
    over sequences of yields and timer interrupts, which errors a kernel call can and cannot end in,
    how many threads there can ever be, and a thread's life from its first instruction through
    \<open>thread_trampoline\<close> to its end.
  \<^item> \<open>Cpu_Interface\<close> (\<open>arch/mod.rs\<close>, \<open>arch/aarch64_stub.rs\<close>, \<open>lib.rs\<close>): the trait \<open>Arch\<close> as a record of
    operations with its three implementations, the locale \<open>interrupt_control\<close> for what the kernel
    relies on (interpreted on \<open>Aarch64Arch\<close>), the panic handler and \<open>halt\<close>, the crate's entry points.
  \<^item> \<open>Machine_Refinement\<close>: the assembly implements the switches the kernel model uses.
  \<^item> \<open>Arch_Timer\<close>, \<open>Mmio\<close>, \<open>Gic\<close>, \<open>Uart\<close>, \<open>Fpu\<close> (\<open>arch/aarch64.rs\<close>, \<open>arch/aarch64_gic.rs\<close>,
    \<open>arch/uart_pl011.rs\<close>): the generic timer, and the drivers over an arbitrary register bus.  The
    devices are not code of the repository: the locales \<open>gic_device\<close> and \<open>uart_device\<close> state what
    their specifications promise of the registers used, and each is interpreted on a concrete
    device.
  \<^item> \<open>Platform\<close>: the interrupt path from the controller through \<open>irq_handler\<close> and the timer handler to
    the kernel and back, and \<open>boot_rust\<close>.
  \<^item> \<open>Example_Kernels\<close>, \<open>Cooperative_Example\<close>, \<open>Qemu_Virt\<close> (\<open>examples/\<close>): the \<open>kernel_main\<close> functions of
    \<open>rpi_kernel.rs\<close>, \<open>fcfs_kernel.rs\<close>, \<open>qemu_kernel.rs\<close> and \<open>simple_test.rs\<close> with the text they print
    and the bodies of their threads; the whole run of the cooperative example; and the
    stand-alone program \<open>qemu_virt.rs\<close>.
  \<^item> \<open>Simulation\<close>, \<open>Preemptive_Platform\<close>, \<open>Preemptive_Example\<close>: the platform in slices, code of a thread
    and then perhaps the timer interrupt; the abstract timesharing machine it implements (a
    simulation, lifted to runs by the locale \<open>simulation\<close>), under the locale \<open>timer_wiring\<close> for a
    controller driven by the timer; and \<open>rpi_kernel.rs\<close> from reset to any point of its run.
  \<^item> \<open>Concurrent_Spawn\<close> (\<open>kernel.rs\<close>): \<open>spawn\<close> and \<open>spawn_fn\<close> call by call, in many threads at once.
  \<^item> \<open>Queue_Interleaving\<close> (\<open>sched/rr.rs\<close>): \<open>push\<close> one atomic access at a time, with the timer handler
    in between.
  \<^item> \<open>Boot\<close> (\<open>arch/aarch64_boot.rs\<close>): \<open>_start\<close> as an instruction list with its exception-level drops
    and the loop that clears the BSS.
  \<^item> \<open>Platform_Timer\<close> (\<open>platform_timer.rs\<close>): the hosted preemption flag.

  \<^bold>\<open>What is shown.\<close>  In every reachable state of the kernel, with either scheduler, each thread is
  running, queued exactly once, or finished; identifiers differ and stacks are disjoint; finished
  threads stay finished; no kernel call fails except in the ways stated, and at most 4096 threads
  are ever created.  Threads that spawn concurrently, preempted between any two steps, share no
  stack and no identifier and lose no thread.  With first-come-first-served scheduling every waiting thread gets its turn;
  with round robin the highest occupied level rotates and the levels below wait.  Over any sequence
  of slices the whole platform is the abstract machine in which the running thread goes to the back
  of the line one millisecond's ticks after the last interrupt, and every thread continues with
  the registers it had; the preemptive example, booted on the QEMU machine, is this machine over its
  three threads; the assembly entry refines the kernel's view of the interrupt.  The cooperative example runs its threads in turn for ever.  The boot code reaches Rust
  from every exception level in a bounded number of instructions.  Queue, pool, reference counts,
  schedulers, time slices, drivers and floating point save areas have their functional theorems.

  Several theorems state defects: after a yield the next timer interrupt corrupts a context; a
  thread that yielded and is resumed by the timer continues in user mode; a new thread runs with
  interrupts masked; a thread ended through the kernel has no join result; the last drop on bare
  metal panics; the synchronous entry overwrites the interrupted stack; a kernel with the other
  scheduler is used at the wrong type; an interrupt inside \<open>push\<close> makes it use a freed node; one
  example never starts its threads and another goes wrong at its first yield; and in the build for
  the Raspberry Pi itself the interrupt controller is never initialised, so that its first thread
  is never preempted.

  \<^bold>\<open>Bounds and fuel.\<close>  Loops whose end depends on data take fuel computed from that data: a queue
  operation needs one turn for each pending spurious failure and two more, a listing one for each
  allocated node, the boot code four instructions for each eight bytes of BSS; the theorems show
  that this fuel is enough.  The UART's waits and the counting loop of the example threads are partial
  functions whose termination is proved, the former from the device's law; the join loop ends when
  the thread finishes.  Endless loops of the examples are modelled by their first \<open>n\<close> rounds, for
  every \<open>n\<close>.

  \<^bold>\<open>Not modelled.\<close>  Interleavings of several CPUs (the kernel runs on CPU 0; the other CPUs
  park, which is proved), interrupts inside the calls that make up \<open>spawn\<close> other than \<open>push\<close> (the other
  kernel calls mask them), memory ordering, the debug
  text that the kernel and the first-come-first-served scheduler print from inside the library,
  functions that only return a field, declarations and re-exports, and the fuzz targets, which use
  modules and features the crate does not have.  Caches and barriers (\<open>isb\<close>) have no effect in the
  models of the processor.
\<close>

end
